(* ===== verification/Prelude.thy ===== *)
theory Prelude
  imports Main "HOL-Library.Word"
begin

unbundle bit_operations_syntax

text \<open>
  Shared vocabulary of the development: machine integers, memory copies on byte lists,
  little-endian encodings of 16- and 32-bit words, and the collections of rewrite rules
  the component proofs draw on.

  A block of memory is a list of bytes. A \<open>memcpy\<close> into a block is \<open>mem_write\<close>, a
  \<open>memcpy\<close> out of it is \<open>mem_read\<close>; both are used by the models only where the lemmas show
  the range to lie inside the block.
\<close>

type_synonym u8 = "8 word"
type_synonym u16 = "16 word"
type_synonym u32 = "32 word"
type_synonym u64 = "64 word"

named_theorems mem_simps
named_theorems le_simps

section \<open>Memory copies\<close>

definition mem_read :: "nat \<Rightarrow> nat \<Rightarrow> 'a list \<Rightarrow> 'a list" where
  "mem_read off n buf = take n (drop off buf)"

definition mem_write :: "nat \<Rightarrow> 'a list \<Rightarrow> 'a list \<Rightarrow> 'a list" where
  "mem_write off src buf = take off buf @ src @ drop (off + length src) buf"

lemma length_mem_read [mem_simps]:
  "off + n \<le> length buf \<Longrightarrow> length (mem_read off n buf) = n"
  by (simp add: mem_read_def)

lemma length_mem_write [mem_simps]:
  "off + length src \<le> length buf \<Longrightarrow> length (mem_write off src buf) = length buf"
  by (simp add: mem_write_def)

lemma mem_write_nil [mem_simps]: "mem_write off [] buf = buf"
  by (simp add: mem_write_def)

lemma mem_read_zero [mem_simps]: "mem_read off 0 buf = []"
  by (simp add: mem_read_def)

lemma mem_read_write_same [mem_simps]:
  "off + length src \<le> length buf \<Longrightarrow> mem_read off (length src) (mem_write off src buf) = src"
  by (simp add: mem_read_def mem_write_def)

lemma mem_read_write_before [mem_simps]:
  "\<lbrakk>r + n \<le> off; off \<le> length buf\<rbrakk> \<Longrightarrow> mem_read r n (mem_write off src buf) = mem_read r n buf"
  by (simp add: mem_read_def mem_write_def drop_take min_def) auto

lemma mem_read_write_after [mem_simps]:
  "\<lbrakk>off + length src \<le> r; off \<le> length buf\<rbrakk> \<Longrightarrow>
    mem_read r n (mem_write off src buf) = mem_read r n buf"
  by (simp add: mem_read_def mem_write_def min_def add.commute)

lemma mem_read_append [mem_simps]:
  "mem_read off (m + n) buf = mem_read off m buf @ mem_read (off + m) n buf"
  by (simp add: mem_read_def take_add add.commute)

lemma mem_read_all: "length buf \<le> n \<Longrightarrow> mem_read 0 n buf = buf"
  by (simp add: mem_read_def)

lemma nth_mem_read [mem_simps]:
  "\<lbrakk>i < n; off + n \<le> length buf\<rbrakk> \<Longrightarrow> mem_read off n buf ! i = buf ! (off + i)"
  by (simp add: mem_read_def)

lemma mem_write_append:
  "off + length a + length b \<le> length buf \<Longrightarrow>
    mem_write (off + length a) b (mem_write off a buf) = mem_write off (a @ b) buf"
  by (cases a) (auto simp: mem_write_def min_def ac_simps)

section \<open>Loops\<close>

text \<open>A \<open>for\<close> loop over the elements of a list, stopped by the first step that fails.\<close>

fun for_each :: "('b \<Rightarrow> 's \<Rightarrow> 's option) \<Rightarrow> 'b list \<Rightarrow> 's \<Rightarrow> 's option" where
  "for_each f [] s = Some s"
| "for_each f (x # xs) s = Option.bind (f x s) (\<lambda>s'. for_each f xs s')"

lemma for_each_append: "for_each f (xs @ ys) s = Option.bind (for_each f xs s) (\<lambda>s'. for_each f ys s')"
  by (induction xs arbitrary: s) (auto split: bind_splits)

section \<open>Little-endian encodings\<close>

definition le16 :: "u16 \<Rightarrow> u8 list" where
  "le16 w = [ucast w, ucast (drop_bit 8 w)]"

definition le32 :: "u32 \<Rightarrow> u8 list" where
  "le32 w = [ucast w, ucast (drop_bit 8 w), ucast (drop_bit 16 w), ucast (drop_bit 24 w)]"

fun un_le16 :: "u8 list \<Rightarrow> u16" where
  "un_le16 (a # b # _) = ucast a OR push_bit 8 (ucast b)"
| "un_le16 _ = 0"

fun un_le32 :: "u8 list \<Rightarrow> u32" where
  "un_le32 (a # b # c # d # _) =
     ucast a OR push_bit 8 (ucast b) OR push_bit 16 (ucast c) OR push_bit 24 (ucast d)"
| "un_le32 _ = 0"

lemma length_le16 [simp]: "length (le16 w) = 2"
  by (simp add: le16_def)

lemma length_le32 [simp]: "length (le32 w) = 4"
  by (simp add: le32_def)

lemma un_le16_le16 [le_simps]: "un_le16 (le16 w @ xs) = w"
  by (rule bit_eqI) (auto simp: le16_def bit_simps)

lemma un_le32_le32 [le_simps]: "un_le32 (le32 w @ xs) = w"
proof (rule bit_word_eqI)
  fix n assume n: "n < LENGTH(32)"
  then consider "n < 8" | "8 \<le> n" "n < 16" | "16 \<le> n" "n < 24" | "24 \<le> n" "n < 32"
    by fastforce
  then show "bit (un_le32 (le32 w @ xs)) n = bit w n"
    by cases (auto simp: le32_def bit_simps)
qed

lemma un_le16_id [le_simps]: "un_le16 (le16 w) = w"
  using un_le16_le16 [of w "[]"] by simp

lemma un_le32_id [le_simps]: "un_le32 (le32 w) = w"
  using un_le32_le32 [of w "[]"] by simp

lemma le32_un_le32: "length bs = 4 \<Longrightarrow> le32 (un_le32 bs) = bs"
proof -
  assume "length bs = 4"
  then obtain a b c d where bs: "bs = [a, b, c, d]"
    by (auto simp: length_Suc_conv eval_nat_numeral)
  have out: "\<not> bit x (8 + n)" "\<not> bit x (16 + n)" "\<not> bit x (24 + n)" for x :: u8 and n
    by (auto dest!: bit_imp_le_length)
  show ?thesis unfolding bs
    by (auto simp: le32_def bit_simps out intro!: bit_eqI)
qed

end
