(* ===== verification/IOBuffer.thy ===== *)
theory IOBuffer
  imports Prelude
begin

text \<open>
  The ring buffer \<open>SFIOBuffer\<close> (EngineLayer/SFIOBuffer.h and SFIOBuffer.cpp) that every
  packet protocol of the engine appends received bytes to. The fields are the C++ fields
  (\<open>int\<close> as \<open>int\<close>). The one sum that can leave the 32 bits of a C++ \<open>int\<close> is the test at the start
  of \<open>AppendData\<close>, where the size of the caller's block is added to the used size: the model is \<open>None\<close>
  when it overflows, and the lemmas are for blocks with \<open>block_fits\<close>. Every other value lies between
  \<open>-2*MAX_IO_SIZE\<close> and \<open>2*MAX_IO_SIZE\<close> once the buffer is allocated. \<open>m_pBuffer\<close> is \<open>None\<close> for the
  null pointer.

  \<open>iobuf_bytes\<close> is the abstraction: the bytes between head and tail, in order. The
  interface \<open>byte_fifo\<close> is what the clients (packet reassembly, the HTTP protocol) rely
  on; it is interpreted on the model at the end of the theory.
\<close>

section \<open>State and operations\<close>

definition MAX_IO_SIZE :: int where
  "MAX_IO_SIZE = 16384"

record iobuf =
  m_iHead :: int
  m_iTail :: int
  m_iBufSize :: int
  m_pBuffer :: "u8 list option"
  m_iUsedBufferSize :: int

definition SFIOBuffer_ctor :: "int \<Rightarrow> int \<Rightarrow> iobuf" where
  \<comment> \<open>the constructor leaves head and tail uninitialised: they are parameters\<close>
  "SFIOBuffer_ctor h t =
     \<lparr>m_iHead = h, m_iTail = t, m_iBufSize = 0, m_pBuffer = None, m_iUsedBufferSize = 0\<rparr>"

definition InitIOBuf :: "iobuf \<Rightarrow> iobuf" where
  "InitIOBuf b =
     b\<lparr>m_iTail := 0, m_iHead := 0, m_iUsedBufferSize := 0,
       m_pBuffer := (case m_pBuffer b of None \<Rightarrow> None
                     | Some xs \<Rightarrow> Some (replicate (nat (m_iBufSize b)) 0))\<rparr>"

definition AllocIOBuf :: "iobuf \<Rightarrow> int \<Rightarrow> bool \<times> iobuf" where
  \<comment> \<open>\<open>new char[n]\<close> leaves the bytes uninitialised; \<open>InitIOBuf\<close> then zeroes all of them\<close>
  "AllocIOBuf b iBufSize =
     (let n = (if iBufSize \<le> 0 then MAX_IO_SIZE else iBufSize)
      in if n > MAX_IO_SIZE then (False, b)
         else (True, InitIOBuf (b\<lparr>m_pBuffer := Some (replicate (nat n) 0), m_iBufSize := n\<rparr>)))"

definition FreeIOBuf :: "iobuf \<Rightarrow> bool \<times> iobuf" where
  "FreeIOBuf b =
     (True, b\<lparr>m_pBuffer := None, m_iBufSize := 0, m_iHead := 0, m_iTail := 0,
              m_iUsedBufferSize := 0\<rparr>)"

definition CalcUsedBufferSize :: "iobuf \<Rightarrow> iobuf" where
  "CalcUsedBufferSize b =
     (if m_iHead b > m_iTail b
      then b\<lparr>m_iUsedBufferSize := m_iBufSize b - m_iHead b + m_iTail b\<rparr>
      else b\<lparr>m_iUsedBufferSize := m_iTail b - m_iHead b\<rparr>)"

definition GetHead :: "iobuf \<Rightarrow> int" where
  "GetHead b = m_iHead b"

definition SetHead :: "int \<Rightarrow> iobuf \<Rightarrow> iobuf" where
  "SetHead h b = CalcUsedBufferSize (b\<lparr>m_iHead := h\<rparr>)"

definition GetUsedBufferSize :: "iobuf \<Rightarrow> int" where
  "GetUsedBufferSize b = m_iUsedBufferSize b"

definition GetEmptyBufferSize :: "iobuf \<Rightarrow> int" where
  "GetEmptyBufferSize b = m_iBufSize b - m_iUsedBufferSize b"

definition buf_mem :: "iobuf \<Rightarrow> u8 list" where
  "buf_mem b = (case m_pBuffer b of None \<Rightarrow> [] | Some xs \<Rightarrow> xs)"

text \<open>
  The copy loop of \<open>AppendData\<close>. Its state is the buffer, the source pointer (the bytes
  still to copy), \<open>iSize\<close> and \<open>iAdded\<close>. A round that copies nothing leaves the state as it
  is, so the C++ loop would spin: not returning is \<open>None\<close>.
\<close>

partial_function (option) AppendData_loop ::
  "iobuf \<Rightarrow> u8 list \<Rightarrow> int \<Rightarrow> int \<Rightarrow> (int \<times> iobuf) option" where
  "AppendData_loop b src iSize iAdded =
     (if \<not> iSize > 0 then Some (iAdded, b)
      else
        let iAddedData = (if iSize > m_iBufSize b - m_iTail b
                          then m_iBufSize b - m_iTail b else iSize)
        in if iAddedData \<noteq> 0
           then
             let b1 = b\<lparr>m_pBuffer :=
                   Some (mem_write (nat (m_iTail b)) (take (nat iAddedData) src) (buf_mem b))\<rparr>;
                 t = m_iTail b + iAddedData;
                 t' = (if t \<ge> m_iBufSize b then t - m_iBufSize b else t)
             in AppendData_loop (b1\<lparr>m_iTail := t'\<rparr>) (drop (nat iAddedData) src)
                  (iSize - iAddedData) (iAdded + iAddedData)
           else AppendData_loop b src iSize iAdded)"

definition AppendData :: "iobuf \<Rightarrow> u8 list \<Rightarrow> int \<Rightarrow> (int \<times> iobuf) option" where
  \<comment> \<open>the sum is an \<open>int\<close>, at most \<open>2^31-1\<close>\<close>
  "AppendData b src iSize =
     (if m_iUsedBufferSize b + iSize > 2147483647 then None
      else if m_iUsedBufferSize b + iSize \<ge> m_iBufSize b then Some (-1, b)
      else case AppendData_loop b src iSize 0 of
             None \<Rightarrow> None
           | Some (iAdded, b') \<Rightarrow> Some (iAdded, CalcUsedBufferSize b'))"

definition GetData :: "iobuf \<Rightarrow> int \<Rightarrow> u8 list \<times> int \<times> iobuf" where
  \<comment> \<open>the bytes copied to the caller's pointer, the return value and the new state\<close>
  "GetData b iSize0 =
     (let iSize = (if GetUsedBufferSize b < iSize0 then GetUsedBufferSize b else iSize0)
      in if iSize \<le> 0 then ([], 0, b)
         else
           let out = (if m_iHead b + iSize > m_iBufSize b
                      then let iDiff = m_iBufSize b - m_iHead b
                           in mem_read (nat (m_iHead b)) (nat iDiff) (buf_mem b)
                              @ mem_read 0 (nat (iSize - iDiff)) (buf_mem b)
                      else mem_read (nat (m_iHead b)) (nat iSize) (buf_mem b));
               h = m_iHead b + iSize;
               h' = (if h \<ge> m_iBufSize b then h - m_iBufSize b else h)
           in (out, iSize, CalcUsedBufferSize (b\<lparr>m_iHead := h'\<rparr>)))"

definition RemoveData :: "iobuf \<Rightarrow> int \<Rightarrow> int \<times> iobuf" where
  "RemoveData b iSize0 =
     (let iSize = (if GetUsedBufferSize b < iSize0 then GetUsedBufferSize b else iSize0)
      in if iSize \<le> 0 then (0, b)
         else
           let h = m_iHead b + iSize;
               h' = (if h \<ge> m_iBufSize b then h - m_iBufSize b else h)
           in (iSize, CalcUsedBufferSize (b\<lparr>m_iHead := h'\<rparr>)))"

section \<open>Invariant and abstraction\<close>

definition iobuf_inv :: "iobuf \<Rightarrow> bool" where
  "iobuf_inv b \<longleftrightarrow>
     0 < m_iBufSize b \<and> m_iBufSize b \<le> MAX_IO_SIZE \<and>
     (\<exists>xs. m_pBuffer b = Some xs \<and> length xs = nat (m_iBufSize b)) \<and>
     0 \<le> m_iHead b \<and> m_iHead b < m_iBufSize b \<and>
     0 \<le> m_iTail b \<and> m_iTail b < m_iBufSize b \<and>
     m_iUsedBufferSize b = (if m_iHead b > m_iTail b then m_iBufSize b - m_iHead b + m_iTail b
                            else m_iTail b - m_iHead b)"

definition ring_bytes :: "u8 list \<Rightarrow> nat \<Rightarrow> nat \<Rightarrow> u8 list" where
  "ring_bytes xs h t = (if h > t then drop h xs @ take t xs else drop h (take t xs))"

definition iobuf_bytes :: "iobuf \<Rightarrow> u8 list" where
  "iobuf_bytes b = ring_bytes (buf_mem b) (nat (m_iHead b)) (nat (m_iTail b))"

text \<open>States satisfying the invariant are exactly the rings \<open>mk_ring xs h t\<close>.\<close>

definition mk_ring :: "u8 list \<Rightarrow> nat \<Rightarrow> nat \<Rightarrow> iobuf" where
  "mk_ring xs h t =
     \<lparr>m_iHead = int h, m_iTail = int t, m_iBufSize = int (length xs), m_pBuffer = Some xs,
      m_iUsedBufferSize = int (length (ring_bytes xs h t))\<rparr>"

definition ring_ok :: "u8 list \<Rightarrow> nat \<Rightarrow> nat \<Rightarrow> bool" where
  "ring_ok xs h t \<longleftrightarrow> h < length xs \<and> t < length xs \<and> length xs \<le> 16384"

lemma length_ring_bytes:
  "\<lbrakk>h < length xs; t < length xs\<rbrakk> \<Longrightarrow>
    length (ring_bytes xs h t) = (if h > t then length xs - h + t else t - h)"
  by (simp add: ring_bytes_def)

lemma length_ring_bytes_less: "ring_ok xs h t \<Longrightarrow> length (ring_bytes xs h t) < length xs"
  by (auto simp: ring_ok_def length_ring_bytes)

lemma iobuf_inv_mk_ring: "ring_ok xs h t \<Longrightarrow> iobuf_inv (mk_ring xs h t)"
  by (auto simp: iobuf_inv_def mk_ring_def MAX_IO_SIZE_def ring_ok_def length_ring_bytes of_nat_diff)

lemma iobuf_invE:
  assumes "iobuf_inv b"
  obtains xs h t where "b = mk_ring xs h t" and "ring_ok xs h t"
proof -
  from assms obtain xs where xs: "m_pBuffer b = Some xs" "length xs = nat (m_iBufSize b)"
    by (auto simp: iobuf_inv_def)
  have ok: "ring_ok xs (nat (m_iHead b)) (nat (m_iTail b))"
    using assms xs by (auto simp: iobuf_inv_def ring_ok_def MAX_IO_SIZE_def)
  have "b = mk_ring xs (nat (m_iHead b)) (nat (m_iTail b))"
    using assms xs ok
    by (auto simp: iobuf_inv_def mk_ring_def ring_ok_def length_ring_bytes of_nat_diff
        intro!: iobuf.equality)
  then show thesis using ok by (rule that)
qed

lemma iobuf_bytes_mk_ring [simp]: "iobuf_bytes (mk_ring xs h t) = ring_bytes xs h t"
  by (simp add: iobuf_bytes_def mk_ring_def buf_mem_def)

lemma used_mk_ring [simp]: "m_iUsedBufferSize (mk_ring xs h t) = int (length (ring_bytes xs h t))"
  by (simp add: mk_ring_def)

lemma size_mk_ring [simp]: "m_iBufSize (mk_ring xs h t) = int (length xs)"
  by (simp add: mk_ring_def)

lemma calc_ring:
  "\<lbrakk>h < length xs; t < length xs\<rbrakk> \<Longrightarrow>
    CalcUsedBufferSize \<lparr>m_iHead = int h, m_iTail = int t, m_iBufSize = int (length xs),
      m_pBuffer = Some xs, m_iUsedBufferSize = u\<rparr> = mk_ring xs h t"
  by (auto simp: CalcUsedBufferSize_def mk_ring_def length_ring_bytes of_nat_diff)

subsection \<open>Appending\<close>

text \<open>The result of copying \<open>src\<close> at the tail: memory and new tail.\<close>

definition ring_put :: "u8 list \<Rightarrow> nat \<Rightarrow> u8 list \<Rightarrow> u8 list \<times> nat" where
  "ring_put xs t src =
     (let room = length xs - t
      in if length src \<le> room
         then (mem_write t src xs, if t + length src = length xs then 0 else t + length src)
         else (mem_write 0 (drop room src) (mem_write t (take room src) xs), length src - room))"

lemma ring_put_fits:
  "length src \<le> length xs - t \<Longrightarrow>
    ring_put xs t src = (mem_write t src xs, if t + length src = length xs then 0 else t + length src)"
  by (simp add: ring_put_def)

lemma ring_put_wraps:
  "\<not> length src \<le> length xs - t \<Longrightarrow>
    ring_put xs t src = (mem_write 0 (drop (length xs - t) src)
      (mem_write t (take (length xs - t) src) xs), length src - (length xs - t))"
  by (simp add: ring_put_def Let_def)

lemma ring_put_bounds:
  assumes "t < length xs" "length src < length xs"
  shows "length (fst (ring_put xs t src)) = length xs" and "snd (ring_put xs t src) < length xs"
  using assms by (auto simp: ring_put_def Let_def mem_write_def)

lemma ring_put_bytes:
  assumes ok: "ring_ok xs h t" and fit: "length (ring_bytes xs h t) + length src < length xs"
  shows "ring_bytes (fst (ring_put xs t src)) h (snd (ring_put xs t src)) = ring_bytes xs h t @ src"
proof -
  have h: "h < length xs" and t: "t < length xs" using ok by (auto simp: ring_ok_def)
  show ?thesis
  proof (cases "h > t")
    case True
    then have "length src < h - t" using fit h t by (simp add: length_ring_bytes)
    moreover from this have "ring_put xs t src = (mem_write t src xs, t + length src)"
      using True h by (auto simp: ring_put_fits)
    ultimately show ?thesis using True h t
      by (auto simp: ring_bytes_def mem_write_def)
  next
    case False
    show ?thesis
    proof (cases "length src \<le> length xs - t")
      case True
      then show ?thesis using False h t fit
        by (auto simp: ring_put_def ring_bytes_def mem_write_def min_def)
    next
      case wrap: False
      have lt: "length src - (length xs - t) < h"
        using wrap False fit h t by (simp add: length_ring_bytes)
      have "t - h + (length xs - t) = length xs - h" using False h t by simp
      then show ?thesis using wrap False lt h t
        by (auto simp: ring_put_wraps ring_bytes_def mem_write_def min_def)
    qed
  qed
qed

lemma append_loop_nil: "AppendData_loop b src 0 k = Some (k, b)"
  by (subst AppendData_loop.simps) simp

lemma append_loop_fits:
  assumes "src \<noteq> []" "t < length xs" "length src \<le> length xs - t"
  shows "AppendData_loop \<lparr>m_iHead = h0, m_iTail = int t, m_iBufSize = int (length xs),
            m_pBuffer = Some xs, m_iUsedBufferSize = u\<rparr> src (int (length src)) k
       = Some (k + int (length src),
            \<lparr>m_iHead = h0, m_iTail = int (if t + length src = length xs then 0 else t + length src),
             m_iBufSize = int (length xs), m_pBuffer = Some (mem_write t src xs),
             m_iUsedBufferSize = u\<rparr>)"
proof -
  have "\<not> int (length src) > int (length xs) - int t" using assms by auto
  then show ?thesis using assms
    by (subst AppendData_loop.simps) (auto simp: Let_def append_loop_nil buf_mem_def)
qed

lemma append_loop_ring:
  assumes t: "t < length xs" and fit: "length src < length xs"
  shows "AppendData_loop \<lparr>m_iHead = h0, m_iTail = int t, m_iBufSize = int (length xs),
            m_pBuffer = Some xs, m_iUsedBufferSize = u\<rparr> src (int (length src)) k
       = Some (k + int (length src),
            \<lparr>m_iHead = h0, m_iTail = int (snd (ring_put xs t src)), m_iBufSize = int (length xs),
             m_pBuffer = Some (fst (ring_put xs t src)), m_iUsedBufferSize = u\<rparr>)"
proof (cases "length src \<le> length xs - t")
  case True
  show ?thesis
  proof (cases "src = []")
    case True
    then show ?thesis using t by (simp add: append_loop_nil ring_put_def mem_simps)
  next
    case False
    then show ?thesis using t True by (simp add: append_loop_fits ring_put_def Let_def)
  qed
next
  case False
  let ?room = "length xs - t"
  let ?xs = "mem_write t (take ?room src) xs"
  let ?rest = "drop ?room src"
  have len: "length ?xs = length xs" using False t by (simp add: mem_write_def)
  have rest: "?rest \<noteq> []" "length ?rest \<le> length ?xs - 0" "0 < length ?xs"
    using False fit t len by auto
  have e1: "AppendData_loop \<lparr>m_iHead = h0, m_iTail = int t, m_iBufSize = int (length xs),
            m_pBuffer = Some xs, m_iUsedBufferSize = u\<rparr> src (int (length src)) k
      = AppendData_loop \<lparr>m_iHead = h0, m_iTail = int 0, m_iBufSize = int (length ?xs),
            m_pBuffer = Some ?xs, m_iUsedBufferSize = u\<rparr> ?rest (int (length ?rest))
            (k + int ?room)"
  proof -
    have "int (length src) > int (length xs) - int t"
      "nat (int (length xs) - int t) = ?room" "int ?room = int (length xs) - int t"
      "int (length src) - (int (length xs) - int t) = int (length ?rest)" "src \<noteq> []"
      using False t by auto
    then show ?thesis using t len
      by (subst AppendData_loop.simps) (simp add: Let_def buf_mem_def del: length_drop)
  qed
  have "length ?rest \<noteq> length ?xs" "k + int ?room + int (length ?rest) = k + int (length src)"
    using False fit t len by auto
  then show ?thesis
    unfolding e1 append_loop_fits [OF rest(1) rest(3) rest(2)]
    using False len by (simp add: ring_put_wraps)
qed

text \<open>\<open>AppendData\<close> on a ring: refused when it would fill the buffer, else the bytes are added. The size
  of the block and that of the ring together are an \<open>int\<close>.\<close>

definition block_fits :: "u8 list \<Rightarrow> bool" where
  "block_fits src \<longleftrightarrow> int (length src) + MAX_IO_SIZE \<le> 2147483647"

lemma append_sum:
  assumes "ring_ok xs h t" "block_fits src"
  shows "\<not> int (length (ring_bytes xs h t)) + int (length src) > 2147483647"
proof -
  have "int (length (ring_bytes xs h t)) \<le> MAX_IO_SIZE" using length_ring_bytes_less [OF assms(1)] assms(1) by (simp add: ring_ok_def MAX_IO_SIZE_def)
  then show ?thesis using assms(2) by (simp add: block_fits_def)
qed

lemma append_ring:
  assumes ok: "ring_ok xs h t" and blk: "block_fits src"
  shows "AppendData (mk_ring xs h t) src (int (length src)) =
    (if length (ring_bytes xs h t) + length src \<ge> length xs then Some (-1, mk_ring xs h t)
     else Some (int (length src),
            mk_ring (fst (ring_put xs t src)) h (snd (ring_put xs t src))))"
proof (cases "length (ring_bytes xs h t) + length src \<ge> length xs")
  case True
  then show ?thesis using append_sum [OF ok blk] by (simp add: AppendData_def del: of_nat_add flip: of_nat_add)
next
  case False
  have h: "h < length xs" and t: "t < length xs" using ok by (auto simp: ring_ok_def)
  have fit: "length src < length xs" using False by simp
  note b = ring_put_bounds [OF t fit]
  have "\<not> int (length xs) \<le> int (length (ring_bytes xs h t)) + int (length src)"
    using False by (simp del: of_nat_add flip: of_nat_add)
  then show ?thesis
    using False append_loop_ring [OF t fit, of "int h" "int (length (ring_bytes xs h t))" 0]
      calc_ring [of h "fst (ring_put xs t src)" "snd (ring_put xs t src)"] b h append_sum [OF ok blk]
    by (simp add: AppendData_def mk_ring_def)
qed

lemma AppendData_returns:
  assumes inv: "iobuf_inv b" and n: "iSize = int (length src)" and blk: "block_fits src"
  shows "\<exists>r b'. AppendData b src iSize = Some (r, b') \<and> iobuf_inv b' \<and> m_iBufSize b' = m_iBufSize b \<and>
    (if int (length (iobuf_bytes b)) + iSize < m_iBufSize b
     then r = iSize \<and> iobuf_bytes b' = iobuf_bytes b @ src
     else r = -1 \<and> b' = b)"
proof -
  obtain xs h t where b: "b = mk_ring xs h t" and ok: "ring_ok xs h t"
    using inv by (rule iobuf_invE)
  show ?thesis
  proof (cases "length (ring_bytes xs h t) + length src \<ge> length xs")
    case True
    then show ?thesis
      using inv by (auto simp: b n append_ring [OF ok blk])
  next
    case False
    then have t: "t < length xs" and fit: "length src < length xs" using ok by (auto simp: ring_ok_def)
    note bd = ring_put_bounds [OF t fit]
    have "ring_ok (fst (ring_put xs t src)) h (snd (ring_put xs t src))"
      using ok bd by (simp add: ring_ok_def)
    then show ?thesis
      using False bd ring_put_bytes [OF ok, of src]
      by (auto simp: b n append_ring [OF ok blk] iobuf_inv_mk_ring)
  qed
qed

subsection \<open>Reading and rolling back\<close>

definition ring_adv :: "u8 list \<Rightarrow> nat \<Rightarrow> nat \<Rightarrow> nat" where
  "ring_adv xs h k = (if h + k \<ge> length xs then h + k - length xs else h + k)"

lemma ring_adv_bytes:
  assumes ok: "ring_ok xs h t" and k: "k \<le> length (ring_bytes xs h t)"
  shows "ring_bytes xs (ring_adv xs h k) t = drop k (ring_bytes xs h t)"
    and "ring_adv xs h k < length xs"
proof -
  have h: "h < length xs" and t: "t < length xs" using ok by (auto simp: ring_ok_def)
  then have k': "k \<le> (if h > t then length xs - h + t else t - h)"
    using k by (simp add: length_ring_bytes)
  then show "ring_adv xs h k < length xs"
    using h t by (auto simp: ring_adv_def split: if_splits)
  show "ring_bytes xs (ring_adv xs h k) t = drop k (ring_bytes xs h t)"
    using h t k' by (auto simp: ring_bytes_def ring_adv_def min_def add.commute split: if_splits)
qed

lemma ring_read:
  assumes ok: "ring_ok xs h t" and k: "k \<le> length (ring_bytes xs h t)"
  shows "(if h + k > length xs
          then mem_read h (length xs - h) xs @ mem_read 0 (k - (length xs - h)) xs
          else mem_read h k xs) = take k (ring_bytes xs h t)"
  using assms by (auto simp: ring_bytes_def ring_ok_def mem_read_def min_def take_drop)

lemma get_ring:
  assumes ok: "ring_ok xs h t" and n: "0 \<le> n"
  shows "GetData (mk_ring xs h t) n =
    (let k = min (nat n) (length (ring_bytes xs h t))
     in (take k (ring_bytes xs h t), int k, mk_ring xs (ring_adv xs h k) t))"
proof -
  let ?L = "length (ring_bytes xs h t)"
  define k where "k = min (nat n) ?L"
  have h: "h < length xs" and t: "t < length xs" using ok by (auto simp: ring_ok_def)
  have kL: "k \<le> ?L" by (simp add: k_def)
  have sz: "(if GetUsedBufferSize (mk_ring xs h t) < n then GetUsedBufferSize (mk_ring xs h t)
      else n) = int k"
    using n by (auto simp: k_def GetUsedBufferSize_def)
  note adv = ring_adv_bytes [OF ok kL]
  show ?thesis
  proof (cases "k = 0")
    case True
    then show ?thesis using sz h
      by (simp only: GetData_def Let_def k_def [symmetric]) (simp add: ring_adv_def)
  next
    case False
    have "nat (int (length xs) - int h) = length xs - h"
      "nat (int k - (int (length xs) - int h)) = k - (length xs - h)"
      using h by auto
    moreover have "int h + int k > int (length xs) \<longleftrightarrow> h + k > length xs" by linarith
    moreover have "(if int h + int k \<ge> int (length xs) then int h + int k - int (length xs)
        else int h + int k) = int (ring_adv xs h k)"
      by (auto simp: ring_adv_def of_nat_diff)
    ultimately show ?thesis
      using False calc_ring [OF adv(2) t] ring_read [OF ok kL]
      by (simp only: GetData_def Let_def k_def [symmetric] sz)
        (simp add: mk_ring_def buf_mem_def split del: if_split del: Nat.diff_diff_right
          cong: if_cong)
  qed
qed

lemma GetData_spec:
  assumes inv: "iobuf_inv b" and n: "0 \<le> n" and get: "GetData b n = (out, r, b')"
  shows "out = take (nat n) (iobuf_bytes b)" and "r = int (length out)"
    and "iobuf_bytes b' = drop (nat n) (iobuf_bytes b)" and "iobuf_inv b'"
    and "SetHead (GetHead b) b' = b" and "m_iBufSize b' = m_iBufSize b"
proof -
  obtain xs h t where b: "b = mk_ring xs h t" and ok: "ring_ok xs h t"
    using inv by (rule iobuf_invE)
  define k where "k = min (nat n) (length (ring_bytes xs h t))"
  have kL: "k \<le> length (ring_bytes xs h t)" by (simp add: k_def)
  note adv = ring_adv_bytes [OF ok kL]
  have eqs: "out = take k (ring_bytes xs h t)" "r = int k" "b' = mk_ring xs (ring_adv xs h k) t"
    using get get_ring [OF ok n] by (auto simp: b k_def Let_def)
  have cut: "take k (ring_bytes xs h t) = take (nat n) (ring_bytes xs h t)"
    "drop k (ring_bytes xs h t) = drop (nat n) (ring_bytes xs h t)"
    by (auto simp: k_def min_def)
  show "out = take (nat n) (iobuf_bytes b)" using eqs cut by (simp add: b)
  show "r = int (length out)" using eqs kL by simp
  show "iobuf_bytes b' = drop (nat n) (iobuf_bytes b)" using eqs adv cut by (simp add: b)
  show "iobuf_inv b'" using eqs adv ok by (simp add: iobuf_inv_mk_ring ring_ok_def)
  show "m_iBufSize b' = m_iBufSize b" using eqs by (simp add: b)
  have "h < length xs" "t < length xs" using ok by (auto simp: ring_ok_def)
  then show "SetHead (GetHead b) b' = b"
    using eqs calc_ring [of h xs t] by (simp add: b SetHead_def GetHead_def mk_ring_def)
qed

lemma RemoveData_spec:
  assumes inv: "iobuf_inv b" and n: "0 \<le> n"
  shows "RemoveData b n = (let (out, r, b') = GetData b n in (r, b'))"
  by (simp add: RemoveData_def GetData_def Let_def)

lemma used_is_length: "iobuf_inv b \<Longrightarrow> GetUsedBufferSize b = int (length (iobuf_bytes b))"
  by (auto simp: GetUsedBufferSize_def elim!: iobuf_invE)

lemma bytes_lt_size: "iobuf_inv b \<Longrightarrow> int (length (iobuf_bytes b)) < m_iBufSize b"
  by (auto elim!: iobuf_invE dest: length_ring_bytes_less)

lemma AllocIOBuf_inv:
  assumes "AllocIOBuf b n = (True, b')"
  shows "iobuf_inv b'" and "iobuf_bytes b' = []"
    and "m_iBufSize b' = (if n \<le> 0 then MAX_IO_SIZE else n)"
  using assms
  by (auto simp: AllocIOBuf_def InitIOBuf_def iobuf_inv_def iobuf_bytes_def ring_bytes_def
      MAX_IO_SIZE_def Let_def split: if_splits)

lemma InitIOBuf_inv:
  assumes "iobuf_inv b"
  shows "iobuf_inv (InitIOBuf b)" and "iobuf_bytes (InitIOBuf b) = []"
  using assms
  by (auto simp: InitIOBuf_def iobuf_inv_def iobuf_bytes_def ring_bytes_def split: option.splits)

section \<open>The byte queue interface\<close>

text \<open>A client's use of a byte queue: blocks offered and reads made, in any order. The run
  returns the bytes accepted, the bytes read and the final queue.\<close>

datatype fifo_op = Put "u8 list" | Take nat

fun fifo_run ::
  "('b \<Rightarrow> u8 list \<Rightarrow> (int \<times> 'b) option) \<Rightarrow> ('b \<Rightarrow> nat \<Rightarrow> u8 list \<times> int \<times> 'b) \<Rightarrow> 'b \<Rightarrow>
   fifo_op list \<Rightarrow> (u8 list \<times> u8 list \<times> 'b) option" where
  "fifo_run app get b [] = Some ([], [], b)"
| "fifo_run app get b (Put src # ops) = (case app b src of
     None \<Rightarrow> None
   | Some (r, b') \<Rightarrow> (case fifo_run app get b' ops of
       None \<Rightarrow> None
     | Some (acc, out, b'') \<Rightarrow> Some ((if r = -1 then [] else src) @ acc, out, b'')))"
| "fifo_run app get b (Take n # ops) = (case get b n of (got, r, b') \<Rightarrow>
     (case fifo_run app get b' ops of
       None \<Rightarrow> None
     | Some (acc, out, b'') \<Rightarrow> Some (acc, got @ out, b'')))"

locale byte_fifo =
  fixes inv :: "'b \<Rightarrow> bool" and bytes :: "'b \<Rightarrow> u8 list" and cap :: "'b \<Rightarrow> int" and fits :: "u8 list \<Rightarrow> bool"
    and app :: "'b \<Rightarrow> u8 list \<Rightarrow> (int \<times> 'b) option"
    and get :: "'b \<Rightarrow> nat \<Rightarrow> u8 list \<times> int \<times> 'b"
  assumes app_law: "\<lbrakk>inv b; fits src\<rbrakk> \<Longrightarrow> \<exists>r b'. app b src = Some (r, b') \<and> inv b' \<and> cap b' = cap b \<and>
      (if int (length (bytes b) + length src) < cap b
       then r = int (length src) \<and> bytes b' = bytes b @ src else r = -1 \<and> b' = b)"
    and get_law: "\<lbrakk>inv b; get b n = (got, r, b')\<rbrakk> \<Longrightarrow>
      got = take n (bytes b) \<and> r = int (length got) \<and> bytes b' = drop n (bytes b) \<and> inv b' \<and>
      cap b' = cap b"
begin

lemma run_conserves:
  "\<lbrakk>inv b; \<forall>src. Put src \<in> set ops \<longrightarrow> fits src\<rbrakk> \<Longrightarrow> \<exists>acc out b'. fifo_run app get b ops = Some (acc, out, b') \<and> inv b' \<and>
     bytes b @ acc = out @ bytes b'"
proof (induction ops arbitrary: b)
  case (Cons op ops)
  show ?case
  proof (cases op)
    case (Put src)
    obtain r b1 where a: "app b src = Some (r, b1)" "inv b1"
      "if int (length (bytes b) + length src) < cap b
       then r = int (length src) \<and> bytes b1 = bytes b @ src else r = -1 \<and> b1 = b"
      using app_law [OF Cons.prems(1), of src] Cons.prems(2) Put by auto
    then show ?thesis
      using Cons.IH [OF a(2)] Cons.prems(2) Put by (fastforce split: if_splits)
  next
    case (Take n)
    obtain got r b1 where g: "get b n = (got, r, b1)" by (cases "get b n")
    note law = get_law [OF Cons.prems(1) g]
    then obtain acc out b' where "fifo_run app get b1 ops = Some (acc, out, b')" "inv b'"
      "bytes b1 @ acc = out @ bytes b'"
      using Cons.IH [of b1] Cons.prems(2) by auto
    then have "bytes b @ acc = (got @ out) @ bytes b'"
      using law by (metis append.assoc append_take_drop_id)
    with \<open>inv b'\<close> \<open>fifo_run app get b1 ops = Some (acc, out, b')\<close> show ?thesis
      using Take g by simp
  qed
qed simp

text \<open>Reads in one piece or in several return the same bytes.\<close>

lemma get_split:
  assumes "inv b" "get b m = (x, r, b1)" "get b1 n = (y, s, b2)" "get b (m + n) = (z, t, b3)"
  shows "z = x @ y" and "bytes b3 = bytes b2"
  using get_law [OF assms(1,2)] get_law [OF _ assms(3)] get_law [OF assms(1,4)]
  by (auto simp: take_add add.commute)

end

text \<open>\<open>SFIOBuffer\<close> is such a queue.\<close>

definition io_append :: "iobuf \<Rightarrow> u8 list \<Rightarrow> (int \<times> iobuf) option" where
  "io_append b src = AppendData b src (int (length src))"

definition io_get :: "iobuf \<Rightarrow> nat \<Rightarrow> u8 list \<times> int \<times> iobuf" where
  "io_get b n = GetData b (int n)"

interpretation iobuf_fifo: byte_fifo iobuf_inv iobuf_bytes m_iBufSize block_fits io_append io_get
proof unfold_locales
  fix b :: iobuf and src assume "iobuf_inv b" "block_fits src"
  from AppendData_returns [OF this(1) refl this(2)] show "\<exists>r b'. io_append b src = Some (r, b') \<and>
      iobuf_inv b' \<and> m_iBufSize b' = m_iBufSize b \<and>
      (if int (length (iobuf_bytes b) + length src) < m_iBufSize b
       then r = int (length src) \<and> iobuf_bytes b' = iobuf_bytes b @ src else r = -1 \<and> b' = b)"
    by (simp add: io_append_def)
next
  fix b n got r b' assume "iobuf_inv b" "io_get b n = (got, r, b')"
  then show "got = take n (iobuf_bytes b) \<and> r = int (length got) \<and>
      iobuf_bytes b' = drop n (iobuf_bytes b) \<and> iobuf_inv b' \<and> m_iBufSize b' = m_iBufSize b"
    using GetData_spec [of b "int n" got r b'] by (simp add: io_get_def)
qed

section \<open>Properties\<close>

lemma iobuf_inv_alloc: "n \<le> 0 \<or> n \<le> MAX_IO_SIZE \<Longrightarrow> iobuf_inv (snd (AllocIOBuf b n))"
  using AllocIOBuf_inv [of b n "snd (AllocIOBuf b n)"]
  by (auto simp: AllocIOBuf_def Let_def MAX_IO_SIZE_def split: if_splits)

text \<open>C4: \<open>SFIOBuffer\<close> is a lossless byte queue: whatever blocks are appended and whatever reads are
  made, in any order and wherever the ring wraps, every operation returns, and the bytes held
  at the start followed by the bytes accepted are exactly the bytes read followed by the bytes
  still held. No byte is lost, duplicated or reordered. The blocks offered are at most
  \<open>2^31-1-MAX_IO_SIZE\<close> bytes long (\<open>block_fits\<close>), so that their size and the used size add up to an \<open>int\<close>.\<close>

theorem iobuf_lossless:
  assumes "iobuf_inv b" "\<forall>src. Put src \<in> set ops \<longrightarrow> block_fits src"
  shows "\<exists>acc out b'. fifo_run io_append io_get b ops = Some (acc, out, b') \<and> iobuf_inv b' \<and>
    iobuf_bytes b @ acc = out @ iobuf_bytes b'"
  using assms by (rule iobuf_fifo.run_conserves)

theorem iobuf_lossless_witness:
  "\<exists>acc out b'. fifo_run io_append io_get (snd (AllocIOBuf (SFIOBuffer_ctor 7 9) 4))
      [Put [1, 2, 3], Take 2, Put [4, 5], Put [6], Take 9] = Some (acc, out, b') \<and> iobuf_inv b' \<and>
    iobuf_bytes (snd (AllocIOBuf (SFIOBuffer_ctor 7 9) 4)) @ acc = out @ iobuf_bytes b'"
  by (rule iobuf_lossless, rule iobuf_inv_alloc) (auto simp: MAX_IO_SIZE_def block_fits_def)

text \<open>\<open>AppendData\<close> always returns and is all or nothing: a block that leaves at least one byte of
  the ring free is queued whole behind the bytes already there and its size is returned,
  any other block leaves the buffer untouched and returns -1.\<close>

theorem AppendData_all_or_nothing:
  assumes "iobuf_inv b" "block_fits src"
  shows "\<exists>r b'. AppendData b src (int (length src)) = Some (r, b') \<and> iobuf_inv b' \<and>
    (if int (length (iobuf_bytes b)) + int (length src) < m_iBufSize b
     then r = int (length src) \<and> iobuf_bytes b' = iobuf_bytes b @ src
     else r = -1 \<and> b' = b)"
  using AppendData_returns [OF assms(1) refl assms(2)] by blast

theorem AppendData_all_or_nothing_witness:
  "\<exists>r b'. AppendData (snd (AllocIOBuf (SFIOBuffer_ctor 0 0) 3)) [1, 2, 3] (int (length [1, 2, 3 :: u8]))
      = Some (r, b') \<and> iobuf_inv b' \<and>
    (if int (length (iobuf_bytes (snd (AllocIOBuf (SFIOBuffer_ctor 0 0) 3)))) +
        int (length [1, 2, 3 :: u8]) < m_iBufSize (snd (AllocIOBuf (SFIOBuffer_ctor 0 0) 3))
     then r = int (length [1, 2, 3 :: u8]) \<and>
       iobuf_bytes b' = iobuf_bytes (snd (AllocIOBuf (SFIOBuffer_ctor 0 0) 3)) @ [1, 2, 3]
     else r = -1 \<and> b' = snd (AllocIOBuf (SFIOBuffer_ctor 0 0) 3))"
  by (rule AppendData_all_or_nothing, rule iobuf_inv_alloc) (simp_all add: MAX_IO_SIZE_def block_fits_def)

text \<open>Reading and rolling back: \<open>GetData\<close> copies the first bytes of the queue (all of them when
  fewer are there), drops exactly those, and setting the head back to the value read before
  restores the buffer bit for bit, used-size counter included - the way the packet protocol
  peeks at a header.\<close>

theorem GetData_rollback:
  assumes "iobuf_inv b" and "0 \<le> n"
  shows "case GetData b n of (out, r, b') \<Rightarrow>
    out = take (nat n) (iobuf_bytes b) \<and> r = int (length out) \<and>
    iobuf_bytes b' = drop (nat n) (iobuf_bytes b) \<and> SetHead (GetHead b) b' = b"
proof -
  obtain out r b' where g: "GetData b n = (out, r, b')" by (cases "GetData b n")
  show ?thesis using GetData_spec [OF assms g] g by simp
qed

theorem GetData_rollback_witness:
  "case GetData (mk_ring [1, 2, 3, 4] 3 2) 2 of (out, r, b') \<Rightarrow>
    out = [4, 1] \<and> r = 2 \<and> iobuf_bytes b' = [2] \<and> SetHead 3 b' = mk_ring [1, 2, 3, 4] 3 2"
proof -
  have "iobuf_inv (mk_ring [1, 2, 3, 4] 3 2)" by (rule iobuf_inv_mk_ring) (simp add: ring_ok_def)
  from GetData_rollback [OF this, of 2] show ?thesis
    by (auto simp: ring_bytes_def GetHead_def mk_ring_def iobuf_bytes_def buf_mem_def)
qed

declare AppendData_loop.simps [code]

end
