(* ===== verification/Lzf.thy ===== *)
theory Lzf
  imports Prelude "HOL-Library.Monad_Syntax"
begin

text \<open>
  The LZF compressor of ThirdParty/liblzf (lzf_c.c, lzf_d.c, lzfP.h) that
  \<open>SFCompressLzf\<close> calls, in the configuration lzfP.h selects: \<open>HLOG = 16\<close>,
  \<open>VERY_FAST = 1\<close>, \<open>ULTRA_FAST = 0\<close>, \<open>INIT_HTAB = 0\<close>, \<open>CHECK_INPUT = 1\<close>, and
  \<open>STRICT_ALIGN = 1\<close> (the build is MSVC, where neither \<open>__i386\<close> nor \<open>__amd64\<close> is defined).

  Memory accesses are checked: a read outside the input, or a write outside the
  \<open>out_len\<close> bytes of the output, makes the model return \<open>None\<close> (undefined behaviour in C).
  The output block is the list of the bytes below \<open>op\<close>; \<open>op++\<close> without a store (the byte
  reserved for a run length) appends a zero that stands for the uninitialised byte.

  The hash table is not initialised by the code (\<open>INIT_HTAB = 0\<close>), so its start contents
  are a parameter: a slot holds a pointer, given as its distance from \<open>in_data\<close>, and may be
  any address.
\<close>

section \<open>Checked memory\<close>

definition rd :: "u8 list \<Rightarrow> int \<Rightarrow> u8 option" where
  "rd m i = (if 0 \<le> i \<and> i < int (length m) then Some (m ! nat i) else None)"

definition put :: "nat \<Rightarrow> u8 list \<Rightarrow> u8 \<Rightarrow> u8 list option" where
  \<comment> \<open>\<open>*op++ = v\<close>\<close>
  "put out_len out v = (if length out < out_len then Some (out @ [v]) else None)"

definition reserve :: "u8 list \<Rightarrow> u8 list" where
  \<comment> \<open>\<open>op++\<close>\<close>
  "reserve out = out @ [0]"

definition set_run :: "nat \<Rightarrow> u8 list \<Rightarrow> nat \<Rightarrow> u8 list option" where
  \<comment> \<open>\<open>op [- lit - 1] = lit - 1\<close>\<close>
  "set_run out_len out lit =
     (if lit + 1 \<le> length out \<and> length out - lit - 1 < out_len
      then Some (out[length out - lit - 1 := of_nat lit - 1]) else None)"

definition undo_run :: "u8 list \<Rightarrow> nat \<Rightarrow> u8 list" where
  \<comment> \<open>\<open>op -= !lit\<close>\<close>
  "undo_run out lit = (if lit = 0 then butlast out else out)"

section \<open>Compression\<close>

definition HLOG :: nat where "HLOG = 16"
definition HSIZE :: u32 where "HSIZE = push_bit HLOG 1"
definition MAX_LIT :: nat where "MAX_LIT = 32"
definition MAX_OFF :: int where "MAX_OFF = 8192"
definition MAX_REF :: nat where "MAX_REF = 264"

definition FRST :: "u8 \<Rightarrow> u8 \<Rightarrow> u32" where
  "FRST p0 p1 = push_bit 8 (ucast p0) OR ucast p1"

definition NEXT :: "u32 \<Rightarrow> u8 \<Rightarrow> u32" where
  "NEXT v p2 = push_bit 8 v OR ucast p2"

definition IDX :: "u32 \<Rightarrow> nat" where
  "IDX h = unat ((drop_bit (3 * 8 - HLOG) h - h * 5) AND (HSIZE - 1))"

record lzf_state =
  c_ip :: nat
  c_out :: "u8 list"
  c_lit :: nat
  c_hval :: u32
  c_htab :: "nat \<Rightarrow> int"

datatype lzf_step = Return_0 | Break lzf_state | Continue lzf_state

text \<open>The sixteen unrolled comparisons, then the \<open>do ... while\<close> scan.\<close>

fun cmp_unrolled :: "u8 list \<Rightarrow> int \<Rightarrow> nat \<Rightarrow> nat \<Rightarrow> nat \<Rightarrow> (bool \<times> nat) option" where
  "cmp_unrolled inp ref ip 0 len = Some (False, len)"
| "cmp_unrolled inp ref ip (Suc k) len = do {
     a \<leftarrow> rd inp (ref + int (len + 1));
     b \<leftarrow> rd inp (int (ip + (len + 1)));
     if a \<noteq> b then Some (True, len + 1) else cmp_unrolled inp ref ip k (len + 1)
   }"

function cmp_scan :: "u8 list \<Rightarrow> int \<Rightarrow> nat \<Rightarrow> nat \<Rightarrow> nat \<Rightarrow> nat option" where
  "cmp_scan inp ref ip maxlen len =
     (if len + 1 < maxlen
      then do {
        a \<leftarrow> rd inp (ref + int (len + 1));
        b \<leftarrow> rd inp (int (ip + (len + 1)));
        if a = b then cmp_scan inp ref ip maxlen (len + 1) else Some (len + 1)
      }
      else Some (len + 1))"
  by pat_completeness auto
termination
  by (relation "measure (\<lambda>(inp, ref, ip, maxlen, len). maxlen - len)") auto

declare cmp_scan.simps [simp del]

definition match_len :: "u8 list \<Rightarrow> int \<Rightarrow> nat \<Rightarrow> nat \<Rightarrow> nat option" where
  "match_len inp ref ip maxlen = do {
     (stop, len) \<leftarrow> (if maxlen > 16 then cmp_unrolled inp ref ip 16 2 else Some (False, 2));
     if stop then Some len else cmp_scan inp ref ip maxlen len
   }"

text \<open>The test for a usable back reference, in the order the code evaluates it.\<close>

definition ref_off :: "nat \<Rightarrow> int \<Rightarrow> int" where
  \<comment> \<open>\<open>off = ip - ref - 1\<close>, an unsigned 64-bit value\<close>
  "ref_off ip ref = (int ip - ref - 1) mod 2 ^ 64"

definition usable_ref :: "u8 list \<Rightarrow> nat \<Rightarrow> int \<Rightarrow> bool option" where
  "usable_ref inp ip ref =
     (if ref_off ip ref < MAX_OFF \<and> ip + 4 < length inp \<and> ref > 0
      then do {
        r0 \<leftarrow> rd inp ref; i0 \<leftarrow> rd inp (int ip);
        if r0 \<noteq> i0 then Some False
        else do {
          r1 \<leftarrow> rd inp (ref + 1); i1 \<leftarrow> rd inp (int ip + 1);
          if r1 \<noteq> i1 then Some False
          else do {
            r2 \<leftarrow> rd inp (ref + 2); i2 \<leftarrow> rd inp (int ip + 2);
            Some (r2 = i2)
          }
        }
      }
      else Some False)"

definition emit_ref :: "nat \<Rightarrow> u8 list \<Rightarrow> nat \<Rightarrow> nat \<Rightarrow> u8 list option" where
  \<comment> \<open>the two- or three-byte back reference; \<open>len\<close> is the number of octets minus 2\<close>
  "emit_ref out_len out off len = do {
     o1 \<leftarrow> (if len < 7 then put out_len out (of_nat (off div 256 + len * 32))
            else do {
              o' \<leftarrow> put out_len out (of_nat (off div 256 + 7 * 32));
              put out_len o' (of_nat (len - 7))
            });
     put out_len o1 (of_nat off)
   }"

definition rehash :: "u8 list \<Rightarrow> nat \<Rightarrow> (nat \<Rightarrow> int) \<Rightarrow> (u32 \<times> (nat \<Rightarrow> int)) option" where
  \<comment> \<open>the \<open>VERY_FAST\<close> code: enter the last two positions of the match into the table\<close>
  "rehash inp ip htab = do {
     let p = ip - 2;
     a \<leftarrow> rd inp (int p); b \<leftarrow> rd inp (int p + 1); c \<leftarrow> rd inp (int p + 2);
     let h1 = NEXT (FRST a b) c;
     let t1 = htab(IDX h1 := int p);
     d \<leftarrow> rd inp (int (p + 1) + 2);
     let h2 = NEXT h1 d;
     Some (h2, t1(IDX h2 := int (p + 1)))
   }"

definition do_match :: "u8 list \<Rightarrow> nat \<Rightarrow> lzf_state \<Rightarrow> int \<Rightarrow> lzf_step option" where
  "do_match inp out_len s ref = (let
       ip = c_ip s; op = length (c_out s); lit = c_lit s;
       maxlen = min MAX_REF (length inp - ip - 2);
       off = nat (ref_off ip ref)
     in if op + 3 + 1 \<ge> out_len \<and> op - (if lit = 0 then 1 else 0) + 3 + 1 \<ge> out_len
        then Some Return_0
        else do {
          o1 \<leftarrow> set_run out_len (c_out s) lit;
          let o2 = undo_run o1 lit;
          octets \<leftarrow> match_len inp ref ip maxlen;
          let len = octets - 2;
          o3 \<leftarrow> emit_ref out_len o2 off len;
          let s' = s\<lparr>c_out := reserve o3, c_lit := 0, c_ip := ip + 1 + (len + 1)\<rparr>;
          if c_ip s' + 2 \<ge> length inp then Some (Break s')
          else do {
            (hv, tab) \<leftarrow> rehash inp (c_ip s') (c_htab s');
            Some (Continue (s'\<lparr>c_hval := hv, c_htab := tab\<rparr>))
          }
        })"

definition push_lit :: "nat \<Rightarrow> lzf_state \<Rightarrow> u8 \<Rightarrow> lzf_state option" where
  \<comment> \<open>\<open>lit++; *op++ = *ip++;\<close> and closing a run of \<open>MAX_LIT\<close>\<close>
  "push_lit out_len s v = do {
     o1 \<leftarrow> put out_len (c_out s) v;
     let lit = c_lit s + 1;
     if lit = MAX_LIT
     then do {
       o2 \<leftarrow> set_run out_len o1 lit;
       Some (s\<lparr>c_out := reserve o2, c_lit := 0, c_ip := c_ip s + 1\<rparr>)
     }
     else Some (s\<lparr>c_out := o1, c_lit := lit, c_ip := c_ip s + 1\<rparr>)
   }"

definition compress_step :: "u8 list \<Rightarrow> nat \<Rightarrow> lzf_state \<Rightarrow> lzf_step option" where
  \<comment> \<open>one round of the main loop\<close>
  "compress_step inp out_len s = do {
     p2 \<leftarrow> rd inp (int (c_ip s) + 2);
     let hv = NEXT (c_hval s) p2;
     let ref = c_htab s (IDX hv);
     let s1 = s\<lparr>c_hval := hv, c_htab := (c_htab s)(IDX hv := int (c_ip s))\<rparr>;
     m \<leftarrow> usable_ref inp (c_ip s) ref;
     if m then do_match inp out_len s1 ref
     else if length (c_out s1) \<ge> out_len then Some Return_0
     else do {
       v \<leftarrow> rd inp (int (c_ip s));
       s2 \<leftarrow> push_lit out_len s1 v;
       Some (Continue s2)
     }
   }"

partial_function (option) compress_loop :: "u8 list \<Rightarrow> nat \<Rightarrow> lzf_state \<Rightarrow> lzf_step option" where
  "compress_loop inp out_len s =
     (if c_ip s + 2 < length inp
      then do {
        r \<leftarrow> compress_step inp out_len s;
        case r of
          Return_0 \<Rightarrow> Some Return_0
        | Break s' \<Rightarrow> Some (Break s')
        | Continue s' \<Rightarrow> compress_loop inp out_len s'
      }
      else Some (Break s))"

partial_function (option) tail_loop :: "u8 list \<Rightarrow> nat \<Rightarrow> lzf_state \<Rightarrow> lzf_state option" where
  \<comment> \<open>the literals left after the main loop\<close>
  "tail_loop inp out_len s =
     (if c_ip s < length inp
      then do {
        v \<leftarrow> rd inp (int (c_ip s));
        s' \<leftarrow> push_lit out_len s v;
        tail_loop inp out_len s'
      }
      else Some s)"

definition lzf_compress :: "(nat \<Rightarrow> int) \<Rightarrow> u8 list \<Rightarrow> nat \<Rightarrow> u8 list option" where
  \<comment> \<open>\<open>Some []\<close> is the return value 0, \<open>Some bs\<close> the return value \<open>length bs\<close> with \<open>bs\<close> in \<open>out_data\<close>\<close>
  "lzf_compress htab inp out_len =
     (if inp = [] \<or> out_len = 0 then Some []
      else do {
        a \<leftarrow> rd inp 0; b \<leftarrow> rd inp 1;
        r \<leftarrow> compress_loop inp out_len
               \<lparr>c_ip = 0, c_out = reserve [], c_lit = 0, c_hval = FRST a b, c_htab = htab\<rparr>;
        case r of
          Return_0 \<Rightarrow> Some []
        | Continue s \<Rightarrow> None
        | Break s \<Rightarrow>
            if length (c_out s) + 3 > out_len then Some []
            else do {
              s' \<leftarrow> tail_loop inp out_len s;
              o1 \<leftarrow> set_run out_len (c_out s') (c_lit s');
              Some (undo_run o1 (c_lit s'))
            }
      })"

section \<open>Decompression\<close>

datatype lzf_errno = E2BIG | EINVAL

fun copy_ref :: "nat \<Rightarrow> u8 list \<Rightarrow> int \<Rightarrow> nat \<Rightarrow> u8 list option" where
  \<comment> \<open>\<open>*op++ = *ref++\<close>, \<open>n\<close> times; source and destination may overlap\<close>
  "copy_ref out_len out ref 0 = Some out"
| "copy_ref out_len out ref (Suc n) = do {
     v \<leftarrow> rd out ref;
     out' \<leftarrow> put out_len out v;
     copy_ref out_len out' (ref + 1) n
   }"

fun copy_lit :: "nat \<Rightarrow> u8 list \<Rightarrow> nat \<Rightarrow> u8 list \<Rightarrow> nat \<Rightarrow> u8 list option" where
  \<comment> \<open>\<open>*op++ = *ip++\<close>, \<open>n\<close> times\<close>
  "copy_lit out_len inp ip out 0 = Some out"
| "copy_lit out_len inp ip out (Suc n) = do {
     v \<leftarrow> rd inp (int ip);
     out' \<leftarrow> put out_len out v;
     copy_lit out_len inp (ip + 1) out' n
   }"

definition decompress_step ::
  "u8 list \<Rightarrow> nat \<Rightarrow> nat \<times> u8 list \<Rightarrow> (lzf_errno \<times> u8 list + nat \<times> u8 list) option" where
  "decompress_step inp out_len = (\<lambda>(ip0, out). do {
     c \<leftarrow> rd inp (int ip0);
     let ctrl = unat c;
     let ip = ip0 + 1;
     if ctrl < 32
     then
       let n = ctrl + 1 in
       if length out + n > out_len then Some (Inl (E2BIG, out))
       else if ip + n > length inp then Some (Inl (EINVAL, out))
       else do {
         out' \<leftarrow> copy_lit out_len inp ip out n;
         Some (Inr (ip + n, out'))
       }
     else
       let len = ctrl div 32; ref = int (length out) - int ((ctrl mod 32) * 256) - 1 in
       if ip \<ge> length inp then Some (Inl (EINVAL, out))
       else do {
         x \<leftarrow> (if len = 7 then do { v \<leftarrow> rd inp (int ip); Some (len + unat v, ip + 1) }
               else Some (len, ip));
         let len2 = fst x;
         let ip2 = snd x;
         if len = 7 \<and> ip2 \<ge> length inp then Some (Inl (EINVAL, out))
         else do {
           v \<leftarrow> rd inp (int ip2);
           let ref2 = ref - int (unat v);
           if length out + len2 + 2 > out_len then Some (Inl (E2BIG, out))
           else if ref2 < 0 then Some (Inl (EINVAL, out))
           else do {
             out' \<leftarrow> copy_ref out_len out ref2 (len2 + 2);
             Some (Inr (ip2 + 1, out'))
           }
         }
       }
   })"

partial_function (option) decompress_loop ::
  "u8 list \<Rightarrow> nat \<Rightarrow> nat \<times> u8 list \<Rightarrow> (lzf_errno \<times> u8 list + u8 list) option" where
  "decompress_loop inp out_len st = do {
     r \<leftarrow> decompress_step inp out_len st;
     case r of
       Inl e \<Rightarrow> Some (Inl e)
     | Inr st' \<Rightarrow>
         if fst st' < length inp then decompress_loop inp out_len st'
         else Some (Inr (snd st'))
   }"

definition lzf_decompress :: "u8 list \<Rightarrow> nat \<Rightarrow> (lzf_errno \<times> u8 list + u8 list) option" where
  \<comment> \<open>\<open>Inl\<close> is the return value 0 with \<open>errno\<close> set and the bytes written so far,
    \<open>Inr bs\<close> the return value \<open>length bs\<close>\<close>
  "lzf_decompress inp out_len = decompress_loop inp out_len (0, [])"

declare compress_loop.simps [code] tail_loop.simps [code] decompress_loop.simps [code]

end
