(* ===== verification/LzfRoundtrip.thy ===== *)
theory LzfRoundtrip
  imports Lzf
begin

text \<open>
  Correctness of the LZF model of \<open>Lzf\<close>: the compressor never leaves its buffers, whatever
  the uninitialised hash table holds, and what it emits decompresses to the input.

  The proofs go through an abstract token stream (\<open>tok\<close>): the compressor keeps an output
  that is the encoding of some tokens followed by an open literal run, and the decompressor
  expands exactly those tokens.
\<close>

section \<open>Tokens\<close>

datatype tok = Lits "u8 list" | Back nat nat

fun enc_tok :: "tok \<Rightarrow> u8 list" where
  "enc_tok (Lits bs) = (of_nat (length bs) - 1) # bs"
| "enc_tok (Back off n) =
     (if n - 2 < 7 then [of_nat (off div 256 + (n - 2) * 32), of_nat off]
      else [of_nat (off div 256 + 224), of_nat (n - 9), of_nat off])"

definition enc :: "tok list \<Rightarrow> u8 list" where
  "enc ts = concat (map enc_tok ts)"

fun overlap :: "u8 list \<Rightarrow> nat \<Rightarrow> nat \<Rightarrow> u8 list" where
  "overlap out r 0 = out"
| "overlap out r (Suc n) = overlap (out @ [out ! r]) (Suc r) n"

fun ext_tok :: "u8 list \<Rightarrow> tok \<Rightarrow> u8 list" where
  "ext_tok out (Lits bs) = out @ bs"
| "ext_tok out (Back off n) = overlap out (length out - off - 1) n"

definition expand :: "u8 list \<Rightarrow> tok list \<Rightarrow> u8 list" where
  "expand out ts = foldl ext_tok out ts"

fun tok_ok :: "nat \<Rightarrow> tok \<Rightarrow> bool" where
  "tok_ok cur (Lits bs) \<longleftrightarrow> 1 \<le> length bs \<and> length bs \<le> 32"
| "tok_ok cur (Back off n) \<longleftrightarrow> off < 8192 \<and> off < cur \<and> 3 \<le> n \<and> n \<le> 264"

fun toks_ok :: "u8 list \<Rightarrow> tok list \<Rightarrow> bool" where
  "toks_ok out [] \<longleftrightarrow> True"
| "toks_ok out (t # ts) \<longleftrightarrow> tok_ok (length out) t \<and> toks_ok (ext_tok out t) ts"

lemma enc_simps [simp]: "enc [] = []" "enc (t # ts) = enc_tok t @ enc ts"
  "enc (ts @ us) = enc ts @ enc us"
  by (simp_all add: enc_def)

lemma expand_simps [simp]: "expand out [] = out" "expand out (t # ts) = expand (ext_tok out t) ts"
  "expand out (ts @ us) = expand (expand out ts) us"
  by (simp_all add: expand_def)

lemma toks_ok_append [simp]:
  "toks_ok out (ts @ us) \<longleftrightarrow> toks_ok out ts \<and> toks_ok (expand out ts) us"
  by (induction ts arbitrary: out) auto

lemma length_overlap [simp]: "length (overlap out r n) = length out + n"
  by (induction n arbitrary: out r) auto

lemma length_ext_tok: "length out \<le> length (ext_tok out t)"
  by (cases t) auto

lemma length_expand: "length out \<le> length (expand out ts)"
  by (induction ts arbitrary: out) (auto intro: le_trans [OF length_ext_tok])

section \<open>The decompressor expands tokens\<close>

lemma copy_lit_ok:
  "\<lbrakk>ip + n \<le> length inp; length out + n \<le> out_len\<rbrakk> \<Longrightarrow>
    copy_lit out_len inp ip out n = Some (out @ mem_read ip n inp)"
proof (induction n arbitrary: ip out)
  case (Suc n)
  have "inp ! ip # mem_read (Suc ip) n inp = mem_read ip (Suc n) inp"
    using Suc.prems by (simp add: mem_read_def flip: Cons_nth_drop_Suc)
  then show ?case using Suc by (simp add: rd_def put_def)
qed (simp add: mem_read_def)

lemma copy_ref_ok:
  "\<lbrakk>r < length out; length out + n \<le> out_len\<rbrakk> \<Longrightarrow>
    copy_ref out_len out (int r) n = Some (overlap out r n)"
proof (induction n arbitrary: r out)
  case (Suc n)
  have "copy_ref out_len (out @ [out ! r]) (int (Suc r)) n = Some (overlap (out @ [out ! r]) (Suc r) n)"
    using Suc by (intro Suc.IH) auto
  then show ?case using Suc.prems by (simp add: rd_def put_def add.commute del: of_nat_Suc flip: of_nat_Suc)
qed simp

lemma unat_of_nat8: "n < 256 \<Longrightarrow> unat (of_nat n :: u8) = n"
  by (simp add: unat_of_nat)

lemma rd_at [simp]: "rd (pre @ x # post) (int (length pre)) = Some x"
  by (simp add: rd_def)

lemma rd_at1 [simp]: "rd (pre @ x # y # post) (1 + int (length pre)) = Some y"
  by (simp add: rd_def nth_append nat_add_distrib)

lemma rd_at2 [simp]: "rd (pre @ x # y # z # post) (2 + int (length pre)) = Some z"
  by (simp add: rd_def nth_append nat_add_distrib)

lemma step_lits:
  assumes bs: "1 \<le> length bs" "length bs \<le> 32" and fit: "length out + length bs \<le> out_len"
  shows "decompress_step (pre @ enc_tok (Lits bs) @ post) out_len (length pre, out) =
    Some (Inr (length pre + length (enc_tok (Lits bs)), out @ bs))"
proof -
  obtain m where m: "length bs = Suc m" "m < 32" using bs by (cases "length bs") auto
  have e: "enc_tok (Lits bs) = of_nat m # bs" using m by simp
  have u: "unat (of_nat m :: u8) = m" by (rule unat_of_nat8) (use m in simp)
  have "copy_lit out_len (pre @ of_nat m # bs @ post) (Suc (length pre)) out (Suc m) = Some (out @ bs)"
    using fit by (subst copy_lit_ok) (simp_all add: mem_read_def m)
  then show ?thesis
    unfolding e using m fit by (simp add: decompress_step_def u Let_def del: copy_lit.simps)
qed

lemma ctrl_long:
  assumes "x < (32::nat)"
  shows "(x + 224) mod 32 = x" and "(x + 224) div 32 = 7"
proof -
  have e: "x + 224 = x + 7 * 32" by simp
  show "(x + 224) mod 32 = x" unfolding e mod_mult_self1 using assms by simp
  show "(x + 224) div 32 = 7" unfolding e using assms by (subst div_mult_self1) auto
qed

lemma decompress_step_short:
  assumes "rd inp (int ip) = Some c" "\<not> unat c < 32" "unat c div 32 \<noteq> 7"
    and "\<not> length inp \<le> ip + 1" "rd inp (int (ip + 1)) = Some v"
    and "\<not> out_len < length out + unat c div 32 + 2"
    and "int (length out) - int (unat c mod 32 * 256) - 1 - int (unat v) = int r"
    and "copy_ref out_len out (int r) (unat c div 32 + 2) = Some out'"
  shows "decompress_step inp out_len (ip, out) = Some (Inr (ip + 1 + 1, out'))"
  by (simp only: decompress_step_def split_conv assms bind.bind_lunit Let_def if_False if_True
      fst_conv snd_conv simp_thms of_nat_less_0_iff)

lemma decompress_step_long:
  assumes "rd inp (int ip) = Some c" "\<not> unat c < 32" "unat c div 32 = 7"
    and "\<not> length inp \<le> ip + 1" "rd inp (int (ip + 1)) = Some m"
    and "\<not> length inp \<le> ip + 1 + 1" "rd inp (int (ip + 1 + 1)) = Some v"
    and "\<not> out_len < length out + (7 + unat m) + 2"
    and "int (length out) - int (unat c mod 32 * 256) - 1 - int (unat v) = int r"
    and "copy_ref out_len out (int r) (7 + unat m + 2) = Some out'"
  shows "decompress_step inp out_len (ip, out) = Some (Inr (ip + 1 + 1 + 1, out'))"
  by (simp only: decompress_step_def split_conv assms bind.bind_lunit Let_def if_False if_True
      fst_conv snd_conv simp_thms of_nat_less_0_iff)

lemma step_back:
  assumes ok: "tok_ok (length out) (Back off n)" and fit: "length out + n \<le> out_len"
  shows "decompress_step (pre @ enc_tok (Back off n) @ post) out_len (length pre, out) =
    Some (Inr (length pre + length (enc_tok (Back off n)), overlap out (length out - off - 1) n))"
proof -
  have o: "off < 8192" "off < length out" and n: "3 \<le> n" "n \<le> 264" using ok by auto
  have hi: "off div 256 < 32" using o by auto
  have low: "int (unat (of_nat off :: u8)) = int (off mod 256)"
    by (simp add: unat_of_nat)
  have ref: "int (length out) - int (off div 256 * 256) - 1 - int (unat (of_nat off :: u8))
      = int (length out - off - 1)"
  proof -
    have "int (off div 256 * 256) + int (off mod 256) = int off"
      by (metis div_mult_mod_eq of_nat_add)
    then show ?thesis using o unfolding low by simp
  qed
  define k where "k = n - 2"
  have k: "n = k + 2" "1 \<le> k" "k \<le> 262" using n by (auto simp: k_def)
  have cp: "copy_ref out_len out (int (length out - off - 1)) n
      = Some (overlap out (length out - off - 1) n)"
    by (rule copy_ref_ok) (use o fit in auto)
  have at: "rd (pre @ x # y # zs) (int (length pre)) = Some x"
    "rd (pre @ x # y # zs) (int (length pre + 1)) = Some y"
    "rd (pre @ x # y # z # zs) (int (length pre + 1 + 1)) = Some z" for x y z zs
    using rd_at [of "pre @ [x]" y zs] rd_at [of "pre @ [x, y]" z zs]
    by (simp_all del: of_nat_Suc)
  show ?thesis
  proof (cases "k < 7")
    case True
    define c where "c = off div 256 + k * 32"
    have "c < 256" using hi True by (simp add: c_def)
    note c1 = unat_of_nat8 [OF this]
    have c: "\<not> c < 32" "c div 32 = k" "c mod 32 = off div 256"
      using hi k by (auto simp: c_def)
    have e: "enc_tok (Back off n) = [of_nat c, of_nat off]" using True k by (simp add: c_def)
    have "decompress_step (pre @ of_nat c # of_nat off # post) out_len (length pre, out) =
        Some (Inr (length pre + 1 + 1, overlap out (length out - off - 1) n))"
    proof (rule decompress_step_short [OF at(1) _ _ _ at(2)])
      show "\<not> unat (of_nat c :: u8) < 32" unfolding c1 by (rule c)
      show "unat (of_nat c :: u8) div 32 \<noteq> 7" unfolding c1 c(2) using True by simp
      show "\<not> length (pre @ of_nat c # of_nat off # post) \<le> length pre + 1" by simp
      show "\<not> out_len < length out + unat (of_nat c :: u8) div 32 + 2"
        unfolding c1 c(2) using fit k by simp
      show "int (length out) - int (unat (of_nat c :: u8) mod 32 * 256) - 1
          - int (unat (of_nat off :: u8)) = int (length out - off - 1)"
        unfolding c1 c(3) by (rule ref)
      show "copy_ref out_len out (int (length out - off - 1)) (unat (of_nat c :: u8) div 32 + 2)
          = Some (overlap out (length out - off - 1) n)"
        unfolding c1 c(2) k(1) [symmetric] by (rule cp)
    qed
    then show ?thesis unfolding e by simp
  next
    case False
    define c where "c = off div 256 + 224"
    have "c < 256" using hi by (simp add: c_def)
    note c1 = unat_of_nat8 [OF this]
    have c: "\<not> c < 32" "c div 32 = 7" "c mod 32 = off div 256"
      using hi by (auto simp: c_def ctrl_long)
    define m where "m = n - 9"
    have "m < 256" using k by (simp add: m_def)
    note m1 = unat_of_nat8 [OF this]
    have m: "n = 7 + m + 2" using k False by (simp add: m_def)
    have e: "enc_tok (Back off n) = [of_nat c, of_nat m, of_nat off]"
      using False k by (simp add: c_def m_def)
    have "decompress_step (pre @ of_nat c # of_nat m # of_nat off # post) out_len (length pre, out) =
        Some (Inr (length pre + 1 + 1 + 1, overlap out (length out - off - 1) n))"
    proof (rule decompress_step_long [OF at(1) _ _ _ at(2) _ at(3)])
      show "\<not> unat (of_nat c :: u8) < 32" unfolding c1 by (rule c)
      show "unat (of_nat c :: u8) div 32 = 7" unfolding c1 by (rule c)
      show "\<not> length (pre @ of_nat c # of_nat m # of_nat off # post) \<le> length pre + 1"
        "\<not> length (pre @ of_nat c # of_nat m # of_nat off # post) \<le> length pre + 1 + 1"
        by simp_all
      show "\<not> out_len < length out + (7 + unat (of_nat m :: u8)) + 2"
        unfolding m1 using fit m by simp
      show "int (length out) - int (unat (of_nat c :: u8) mod 32 * 256) - 1
          - int (unat (of_nat off :: u8)) = int (length out - off - 1)"
        unfolding c1 c(3) by (rule ref)
      show "copy_ref out_len out (int (length out - off - 1)) (7 + unat (of_nat m :: u8) + 2)
          = Some (overlap out (length out - off - 1) n)"
        unfolding m1 m [symmetric] by (rule cp)
    qed
    then show ?thesis unfolding e by simp
  qed
qed

lemma step_tok:
  assumes "tok_ok (length out) t" and "length (ext_tok out t) \<le> out_len"
  shows "decompress_step (pre @ enc_tok t @ post) out_len (length pre, out) =
    Some (Inr (length pre + length (enc_tok t), ext_tok out t))"
  using assms step_lits step_back by (cases t) (auto simp del: enc_tok.simps)

lemma decompress_loop_toks:
  assumes "ts \<noteq> []" and "toks_ok out ts" and "length (expand out ts) \<le> out_len"
  shows "decompress_loop (pre @ enc ts) out_len (length pre, out) = Some (Inr (expand out ts))"
  using assms
proof (induction ts arbitrary: pre out)
  case (Cons t ts)
  have fit: "length (ext_tok out t) \<le> out_len"
    using Cons.prems(3) length_expand [of "ext_tok out t" ts] by simp
  have step: "decompress_step (pre @ enc (t # ts)) out_len (length pre, out) =
      Some (Inr (length (pre @ enc_tok t), ext_tok out t))"
    using step_tok [OF _ fit, of pre "enc ts"] Cons.prems(2) by simp
  have ne: "enc_tok u \<noteq> []" for u by (cases u) auto
  show ?case
  proof (cases "ts = []")
    case True
    then show ?thesis using step by (subst decompress_loop.simps) simp
  next
    case False
    then have "enc ts \<noteq> []" using ne by (cases ts) auto
    then have lt: "length (pre @ enc_tok t) < length (pre @ enc (t # ts))" by simp
    have "decompress_loop ((pre @ enc_tok t) @ enc ts) out_len (length (pre @ enc_tok t), ext_tok out t)
        = Some (Inr (expand (ext_tok out t) ts))"
      using Cons.IH [of "ext_tok out t" "pre @ enc_tok t"] False Cons.prems by simp
    then show ?thesis using step lt by (subst decompress_loop.simps) simp
  qed
qed simp

section \<open>The compressor emits tokens\<close>

definition htab_ok :: "(nat \<Rightarrow> int) \<Rightarrow> bool" where
  \<comment> \<open>no slot points into the last 8 KB of the address space, relative to \<open>in_data\<close>\<close>
  "htab_ok t \<longleftrightarrow> (\<forall>i. t i < 2 ^ 64 - 8192)"

definition cinv :: "u8 list \<Rightarrow> lzf_state \<Rightarrow> tok list \<Rightarrow> u8 list \<Rightarrow> u8 \<Rightarrow> bool" where
  "cinv inp s ts lits r \<longleftrightarrow>
     c_out s = enc ts @ r # lits \<and> length lits = c_lit s \<and> c_lit s < 32 \<and> toks_ok [] ts \<and>
     expand [] ts @ lits = take (c_ip s) inp \<and> c_ip s \<le> length inp \<and> htab_ok (c_htab s)"

lemma htab_ok_upd: "\<lbrakk>htab_ok t; length inp < 2 ^ 32; n \<le> length inp\<rbrakk> \<Longrightarrow> htab_ok (t(i := int n))"
  by (auto simp: htab_ok_def)

text \<open>The run-length byte: closing an open run yields a literal token (or nothing).\<close>

definition close_run :: "tok list \<Rightarrow> u8 list \<Rightarrow> tok list" where
  "close_run ts lits = (if lits = [] then ts else ts @ [Lits lits])"

lemma set_run_close:
  assumes "length lits \<le> 32" and "length (enc ts) < out_len"
  shows "\<exists>o1. set_run out_len (enc ts @ r # lits) (length lits) = Some o1 \<and>
    undo_run o1 (length lits) = enc (close_run ts lits)"
  using assms
  by (auto simp: set_run_def undo_run_def close_run_def butlast_append list_update_append)

lemma push_lit_ok:
  assumes inv: "cinv inp s ts lits r" and ip: "c_ip s < length inp"
    and room: "length (c_out s) < out_len"
  shows "\<exists>s' ts' lits' r'. push_lit out_len s (inp ! c_ip s) = Some s' \<and> cinv inp s' ts' lits' r' \<and>
    c_ip s' = c_ip s + 1 \<and>
    length (c_out s') = length (c_out s) + 1 + (if c_lit s' = 0 then 1 else 0)"
proof -
  let ?v = "inp ! c_ip s" and ?lits = "lits @ [inp ! c_ip s]"
  have out: "c_out s = enc ts @ r # lits" and l: "length lits = c_lit s" "c_lit s < 32"
    and tk: "toks_ok [] ts" and ex: "expand [] ts @ lits = take (c_ip s) inp"
    and h: "htab_ok (c_htab s)"
    using inv by (auto simp: cinv_def)
  have ex': "expand [] ts @ ?lits = take (c_ip s + 1) inp"
    using ex ip by (simp add: take_Suc_conv_app_nth flip: append_assoc)
  have put: "put out_len (c_out s) ?v = Some (enc ts @ r # ?lits)"
    using room out by (simp add: put_def)
  show ?thesis
  proof (cases "c_lit s + 1 = MAX_LIT")
    case True
    obtain o1 where o1: "set_run out_len (enc ts @ r # ?lits) (length ?lits) = Some o1"
      "undo_run o1 (length ?lits) = enc (close_run ts ?lits)"
      using set_run_close [of ?lits ts out_len r] room out l by auto
    let ?s = "s\<lparr>c_out := reserve o1, c_lit := 0, c_ip := c_ip s + 1\<rparr>"
    have o1': "o1 = enc (ts @ [Lits ?lits])"
      using o1(2) by (simp add: undo_run_def close_run_def split: if_splits)
    have "push_lit out_len s ?v = Some ?s"
      using o1(1) put l True by (simp add: push_lit_def Let_def)
    moreover have "cinv inp ?s (ts @ [Lits ?lits]) [] 0"
      using o1' tk ex' ip h l True by (simp add: cinv_def reserve_def MAX_LIT_def)
    moreover have "length (c_out ?s) = length (c_out s) + 2"
      using o1' out by (simp add: reserve_def)
    ultimately show ?thesis by fastforce
  next
    case False
    let ?s = "s\<lparr>c_out := enc ts @ r # ?lits, c_lit := c_lit s + 1, c_ip := c_ip s + 1\<rparr>"
    have "push_lit out_len s ?v = Some ?s"
      using put False by (simp add: push_lit_def Let_def)
    moreover have "cinv inp ?s ts ?lits r"
      using tk ex' ip h l False by (simp add: cinv_def MAX_LIT_def)
    moreover have "length (c_out ?s) = length (c_out s) + 1"
      using out by simp
    ultimately show ?thesis by fastforce
  qed
qed

subsection \<open>The match length\<close>

lemma rd_nat: "i < length m \<Longrightarrow> rd m (int i) = Some (m ! i)"
  by (simp add: rd_def)

lemma rd_nat_add: "i + k < length m \<Longrightarrow> rd m (int i + int k) = Some (m ! (i + k))"
  using rd_nat [of "i + k" m] by simp

lemma cmp_unrolled_ok:
  "\<lbrakk>ref < ip; ip + len + k < length inp; \<forall>j\<le>len. inp ! (ref + j) = inp ! (ip + j)\<rbrakk> \<Longrightarrow>
   \<exists>stop n. cmp_unrolled inp (int ref) ip k len = Some (stop, n) \<and> n \<le> len + k \<and> len \<le> n \<and>
     (if stop then len < n \<and> (\<forall>j<n. inp ! (ref + j) = inp ! (ip + j))
      else n = len + k \<and> (\<forall>j\<le>n. inp ! (ref + j) = inp ! (ip + j)))"
proof (induction k arbitrary: len)
  case (Suc k)
  have r: "rd inp (int ref + int (len + 1)) = Some (inp ! (ref + (len + 1)))"
    "rd inp (int (ip + (len + 1))) = Some (inp ! (ip + (len + 1)))"
    using Suc.prems rd_nat_add [of ref "len + 1" inp] rd_nat [of "ip + (len + 1)" inp]
    by (auto simp del: of_nat_add of_nat_Suc)
  show ?case
  proof (cases "inp ! (ref + (len + 1)) = inp ! (ip + (len + 1))")
    case True
    have "\<forall>j\<le>len + 1. inp ! (ref + j) = inp ! (ip + j)"
      using Suc.prems(3) True by (auto simp: le_Suc_eq)
    then obtain stop n where "cmp_unrolled inp (int ref) ip k (len + 1) = Some (stop, n)"
      "n \<le> len + 1 + k" "len + 1 \<le> n"
      "if stop then len + 1 < n \<and> (\<forall>j<n. inp ! (ref + j) = inp ! (ip + j))
       else n = len + 1 + k \<and> (\<forall>j\<le>n. inp ! (ref + j) = inp ! (ip + j))"
      using Suc.IH [of "len + 1"] Suc.prems by auto
    then show ?thesis using r True by (auto split: if_splits)
  next
    case False
    then show ?thesis using r Suc.prems(3) by (auto simp: less_Suc_eq_le)
  qed
qed auto

lemma cmp_scan_ok:
  "\<lbrakk>ref < ip; ip + maxlen \<le> length inp; ip + len < length inp;
    \<forall>j\<le>len. inp ! (ref + j) = inp ! (ip + j)\<rbrakk> \<Longrightarrow>
   \<exists>n. cmp_scan inp (int ref) ip maxlen len = Some n \<and> len < n \<and> n \<le> max (len + 1) maxlen \<and>
     (\<forall>j<n. inp ! (ref + j) = inp ! (ip + j))"
proof (induction "maxlen - len" arbitrary: len rule: less_induct)
  case less
  show ?case
  proof (cases "len + 1 < maxlen \<and> inp ! (ref + (len + 1)) = inp ! (ip + (len + 1))")
    case True
    have r: "rd inp (int ref + int (len + 1)) = Some (inp ! (ref + (len + 1)))"
      "rd inp (int (ip + (len + 1))) = Some (inp ! (ip + (len + 1)))"
      using less.prems True rd_nat_add [of ref "len + 1" inp] rd_nat [of "ip + (len + 1)" inp]
      by (auto simp del: of_nat_add of_nat_Suc)
    have "\<forall>j\<le>len + 1. inp ! (ref + j) = inp ! (ip + j)"
      using less.prems(4) True by (auto simp: le_Suc_eq)
    then obtain n where "cmp_scan inp (int ref) ip maxlen (len + 1) = Some n" "len + 1 < n"
      "n \<le> max (len + 1 + 1) maxlen" "\<forall>j<n. inp ! (ref + j) = inp ! (ip + j)"
      using less.hyps [of "len + 1"] less.prems True by (auto simp: diff_less_mono2)
    then show ?thesis using r True by (subst cmp_scan.simps) auto
  next
    case False
    have all: "\<forall>j<len + 1. inp ! (ref + j) = inp ! (ip + j)"
      using less.prems(4) by (auto simp: less_Suc_eq_le)
    show ?thesis
    proof (cases "len + 1 < maxlen")
      case lt: True
      then have "rd inp (int ref + int (len + 1)) = Some (inp ! (ref + (len + 1)))"
        "rd inp (int (ip + (len + 1))) = Some (inp ! (ip + (len + 1)))"
        using less.prems rd_nat_add [of ref "len + 1" inp] rd_nat [of "ip + (len + 1)" inp]
        by (auto simp del: of_nat_add of_nat_Suc)
      then show ?thesis using False lt all by (subst cmp_scan.simps) auto
    next
      case False
      then show ?thesis using all by (subst cmp_scan.simps) auto
    qed
  qed
qed

lemma match_len_ok:
  assumes "ref < ip" and "ip + 4 < length inp"
    and "\<forall>j\<le>2. inp ! (ref + j) = inp ! (ip + j)"
  shows "\<exists>n. match_len inp (int ref) ip (min MAX_REF (length inp - ip - 2)) = Some n \<and>
    3 \<le> n \<and> n \<le> 264 \<and> ip + n \<le> length inp \<and> (\<forall>j<n. inp ! (ref + j) = inp ! (ip + j))"
proof (cases "min MAX_REF (length inp - ip - 2) > 16")
  case True
  then have big: "ip + 2 + 16 < length inp" by (auto simp: MAX_REF_def)
  obtain stop n where u: "cmp_unrolled inp (int ref) ip 16 2 = Some (stop, n)" "n \<le> 18" "2 \<le> n"
    "if stop then 2 < n \<and> (\<forall>j<n. inp ! (ref + j) = inp ! (ip + j))
     else n = 18 \<and> (\<forall>j\<le>n. inp ! (ref + j) = inp ! (ip + j))"
    using cmp_unrolled_ok [OF assms(1) big assms(3)] by auto
  show ?thesis
  proof (cases stop)
    case st: True
    then show ?thesis using u True big by (auto simp: match_len_def)
  next
    case st: False
    let ?M = "min MAX_REF (length inp - ip - 2)"
    have "ip + ?M \<le> length inp" using big by linarith
    then obtain m where "cmp_scan inp (int ref) ip ?M 18 = Some m" "18 < m" "m \<le> max (18 + 1) ?M"
      "\<forall>j<m. inp ! (ref + j) = inp ! (ip + j)"
      using cmp_scan_ok [OF assms(1), of ?M inp 18] u st big by auto
    then show ?thesis using u st True big
      by (auto simp: match_len_def MAX_REF_def max_def split: if_splits)
  qed
next
  case False
  let ?M = "min MAX_REF (length inp - ip - 2)"
  have "ip + ?M \<le> length inp" using assms(2) by linarith
  then obtain m where "cmp_scan inp (int ref) ip ?M 2 = Some m" "2 < m" "m \<le> max (2 + 1) ?M"
    "\<forall>j<m. inp ! (ref + j) = inp ! (ip + j)"
    using cmp_scan_ok [OF assms(1), of ?M inp 2] assms by auto
  then show ?thesis using False assms(2)
    by (auto simp: match_len_def MAX_REF_def max_def split: if_splits)
qed

subsection \<open>One round of the main loop\<close>

lemma overlap_take:
  "\<lbrakk>ref < ip; ip + n \<le> length inp; \<forall>j<n. inp ! (ref + j) = inp ! (ip + j)\<rbrakk> \<Longrightarrow>
    overlap (take ip inp) ref n = take (ip + n) inp"
proof (induction n arbitrary: ref ip)
  case (Suc n)
  have "take ip inp @ [take ip inp ! ref] = take (Suc ip) inp"
    using Suc.prems(1,2) Suc.prems(3) [rule_format, of 0] by (simp add: take_Suc_conv_app_nth)
  moreover have "\<forall>j<n. inp ! (Suc ref + j) = inp ! (Suc ip + j)"
    using Suc.prems(3) by (metis Suc_less_eq add_Suc add_Suc_right)
  ultimately show ?case using Suc.IH [of "Suc ref" "Suc ip"] Suc.prems by simp
qed simp

lemma emit_ref_ok:
  assumes "length out + 3 \<le> out_len" and "3 \<le> n"
  shows "emit_ref out_len out off (n - 2) = Some (out @ enc_tok (Back off n))"
proof (cases "n - 2 < 7")
  case True
  then show ?thesis using assms by (simp add: emit_ref_def put_def)
next
  case False
  then have "n - 2 - 7 = n - 9" by simp
  then show ?thesis using assms False by (simp add: emit_ref_def put_def)
qed

lemma rehash_ok:
  assumes "2 \<le> ip" "ip + 1 < length inp" "htab_ok t" "length inp < 2 ^ 32"
  shows "\<exists>hv t'. rehash inp ip t = Some (hv, t') \<and> htab_ok t'"
proof -
  obtain p where p: "ip = p + 2" using assms(1) by (metis add.commute le_Suc_ex)
  have r: "rd inp (int p) = Some (inp ! p)" "rd inp (int p + 1) = Some (inp ! (p + 1))"
    "rd inp (int p + 2) = Some (inp ! (p + 2))" "rd inp (int (p + 1) + 2) = Some (inp ! (p + 3))"
    using assms(2) p by (auto simp: rd_def nat_add_distrib eval_nat_numeral)
  have q: "p + 2 - 2 = p" by simp
  have "htab_ok (t(i := int p, j := int (p + 1)))" for i j
    using assms p by (intro htab_ok_upd) auto
  then show ?thesis unfolding p rehash_def Let_def q r bind.bind_lunit by blast
qed

lemma ref_off_range:
  assumes "ref < 2 ^ 64 - 8192" "0 < ref" "ref_off ip ref < MAX_OFF" "ip < 2 ^ 32"
  shows "ref < int ip" and "nat (ref_off ip ref) = ip - nat ref - 1" and "ip - nat ref - 1 < 8192"
proof -
  show lt: "ref < int ip"
  proof (rule ccontr)
    assume "\<not> ref < int ip"
    then have a: "0 \<le> int ip - ref - 1 + 2 ^ 64" "int ip - ref - 1 + 2 ^ 64 < 2 ^ 64"
      "8192 \<le> int ip - ref - 1 + 2 ^ 64"
      using assms(1) by auto
    have "(int ip - ref - 1) mod 2 ^ 64 = (int ip - ref - 1 + 2 ^ 64) mod 2 ^ 64"
      by (rule mod_add_self2 [symmetric])
    also have "\<dots> = int ip - ref - 1 + 2 ^ 64" using a by (intro mod_pos_pos_trivial)
    finally show False using a(3) assms(3) by (simp add: ref_off_def MAX_OFF_def)
  qed
  then have "ref_off ip ref = int ip - ref - 1"
    using assms(2,4) by (simp add: ref_off_def)
  then show "nat (ref_off ip ref) = ip - nat ref - 1" and "ip - nat ref - 1 < 8192"
    using lt assms(2,3) by (auto simp: MAX_OFF_def)
qed

definition good_step :: "u8 list \<Rightarrow> lzf_state \<Rightarrow> lzf_step \<Rightarrow> bool" where
  "good_step inp s st = (case st of
     Return_0 \<Rightarrow> True
   | Break s' \<Rightarrow> length inp \<le> c_ip s' + 2 \<and> (\<exists>ts lits r. cinv inp s' ts lits r)
   | Continue s' \<Rightarrow> c_ip s < c_ip s' \<and> (\<exists>ts lits r. cinv inp s' ts lits r))"

lemma do_match_ok:
  assumes inv: "cinv inp s ts lits r" and len: "length inp < 2 ^ 32"
    and lt: "rf < c_ip s" and near: "c_ip s - rf - 1 < 8192" and ip4: "c_ip s + 4 < length inp"
    and off: "nat (ref_off (c_ip s) (int rf)) = c_ip s - rf - 1"
    and eq: "\<forall>j\<le>2. inp ! (rf + j) = inp ! (c_ip s + j)"
  shows "\<exists>st. do_match inp out_len s (int rf) = Some st \<and> good_step inp s st"
proof -
  let ?ip = "c_ip s" and ?lit = "c_lit s"
  have out: "c_out s = enc ts @ r # lits" and l: "length lits = ?lit" "?lit < 32"
    and tk: "toks_ok [] ts" and ex: "expand [] ts @ lits = take ?ip inp"
    and ip: "?ip \<le> length inp" and h: "htab_ok (c_htab s)"
    using inv by (auto simp: cinv_def)
  let ?full = "length (c_out s) + 3 + 1 \<ge> out_len \<and>
    length (c_out s) - (if ?lit = 0 then 1 else 0) + 3 + 1 \<ge> out_len"
  show ?thesis
  proof (cases ?full)
    case True
    then show ?thesis by (simp add: do_match_def good_step_def Let_def)
  next
    case room: False
    let ?ts = "close_run ts lits"
    have room': "length (enc ?ts) + 4 < out_len"
      using room out l by (auto simp: close_run_def split: if_splits)
    have "length (enc ts) < out_len" using room out by (auto split: if_splits)
    then obtain o1 where o1: "set_run out_len (c_out s) ?lit = Some o1" "undo_run o1 ?lit = enc ?ts"
      using set_run_close [of lits ts out_len r] l out by auto
    obtain n where n: "match_len inp (int rf) ?ip (min MAX_REF (length inp - ?ip - 2)) = Some n"
      "3 \<le> n" "n \<le> 264" "?ip + n \<le> length inp" "\<forall>j<n. inp ! (rf + j) = inp ! (?ip + j)"
      using match_len_ok [OF lt ip4 eq] by auto
    let ?off = "?ip - rf - 1"
    let ?ts' = "?ts @ [Back ?off n]"
    have em: "emit_ref out_len (enc ?ts) ?off (n - 2) = Some (enc ?ts')"
      using emit_ref_ok [of "enc ?ts" out_len n] room' n(2) by (simp del: enc_tok.simps)
    have ex1: "expand [] ?ts = take ?ip inp"
      using ex by (auto simp: close_run_def)
    have tk1: "toks_ok [] ?ts"
      using tk l by (cases lits) (auto simp: close_run_def)
    have rf: "length (take ?ip inp) - ?off - 1 = rf" using lt ip by simp
    have ex2: "expand [] ?ts' = take (?ip + n) inp"
      using ex1 rf overlap_take [OF lt n(4,5)] by simp
    have tk2: "toks_ok [] ?ts'"
      using tk1 ex1 near lt ip n by simp
    define s' where "s' = s\<lparr>c_out := reserve (enc ?ts'), c_lit := 0, c_ip := ?ip + 1 + (n - 2 + 1)\<rparr>"
    have ip': "c_ip s' = ?ip + n" using n(2) by (simp add: s'_def)
    have inv': "cinv inp s' ?ts' [] 0"
      using tk2 ex2 n(4) h ip' by (simp add: cinv_def s'_def reserve_def)
    have unf: "do_match inp out_len s (int rf) =
        (if c_ip s' + 2 \<ge> length inp then Some (Break s')
         else do {
           (hv, tab) \<leftarrow> rehash inp (c_ip s') (c_htab s');
           Some (Continue (s'\<lparr>c_hval := hv, c_htab := tab\<rparr>))
         })"
      unfolding do_match_def Let_def if_not_P [OF room] o1 n(1) off em bind.bind_lunit s'_def ..
    show ?thesis
    proof (cases "c_ip s' + 2 \<ge> length inp")
      case True
      then show ?thesis using unf inv' by (auto simp: good_step_def)
    next
      case False
      have "htab_ok (c_htab s')" using h by (simp add: s'_def)
      then obtain hv t' where rh: "rehash inp (c_ip s') (c_htab s') = Some (hv, t')" "htab_ok t'"
        using rehash_ok [of "c_ip s'" inp "c_htab s'"] False n(2) ip' len by auto
      have "cinv inp (s'\<lparr>c_hval := hv, c_htab := t'\<rparr>) ?ts' [] 0"
        using inv' rh(2) by (simp add: cinv_def)
      then show ?thesis using unf False rh(1) n(2) ip' by (auto simp: good_step_def)
    qed
  qed
qed

lemma usable_ref_ok:
  assumes "ref < 2 ^ 64 - 8192" "ip < 2 ^ 32" "ip < length inp"
  shows "\<exists>b. usable_ref inp ip ref = Some b \<and>
    (b \<longrightarrow> (\<exists>rf. ref = int rf \<and> rf < ip \<and> ip - rf - 1 < 8192 \<and> ip + 4 < length inp \<and>
       nat (ref_off ip ref) = ip - rf - 1 \<and> (\<forall>j\<le>2. inp ! (rf + j) = inp ! (ip + j))))"
proof (cases "ref_off ip ref < MAX_OFF \<and> ip + 4 < length inp \<and> ref > 0")
  case True
  note R = ref_off_range [OF assms(1) _ _ assms(2)]
  from True have lt: "ref < int ip" and o: "nat (ref_off ip ref) = ip - nat ref - 1"
    "ip - nat ref - 1 < 8192"
    using R by auto
  obtain rf where rf: "ref = int rf" using True by (metis nonneg_int_cases less_imp_le)
  have r: "rd inp (int rf) = Some (inp ! rf)" "rd inp (int rf + 1) = Some (inp ! (rf + 1))"
    "rd inp (int rf + 2) = Some (inp ! (rf + 2))" "rd inp (int ip) = Some (inp ! ip)"
    "rd inp (int ip + 1) = Some (inp ! (ip + 1))" "rd inp (int ip + 2) = Some (inp ! (ip + 2))"
    using True lt rf by (auto simp: rd_def nat_add_distrib)
  have all2: "(\<forall>j\<le>(2::nat). P j) \<longleftrightarrow> P 0 \<and> P 1 \<and> P 2" for P
    by (auto simp: le_Suc_eq eval_nat_numeral)
  show ?thesis
    using True lt o rf by (auto simp: usable_ref_def r all2)
qed (auto simp: usable_ref_def)

lemma compress_step_ok:
  assumes inv: "cinv inp s ts lits r" and len: "length inp < 2 ^ 32" and ip: "c_ip s + 2 < length inp"
  shows "\<exists>st. compress_step inp out_len s = Some st \<and> good_step inp s st"
proof -
  let ?hv = "NEXT (c_hval s) (inp ! (c_ip s + 2))"
  let ?ref = "c_htab s (IDX ?hv)"
  let ?s1 = "s\<lparr>c_hval := ?hv, c_htab := (c_htab s)(IDX ?hv := int (c_ip s))\<rparr>"
  have p2: "rd inp (int (c_ip s) + 2) = Some (inp ! (c_ip s + 2))"
    using ip by (auto simp: rd_def nat_add_distrib)
  have h: "htab_ok (c_htab s)" using inv by (simp add: cinv_def)
  have inv1: "cinv inp ?s1 ts lits r"
    using inv len ip by (simp add: cinv_def htab_ok_upd)
  have "?ref < 2 ^ 64 - 8192" using h by (simp add: htab_ok_def)
  then obtain b where b: "usable_ref inp (c_ip s) ?ref = Some b"
    "b \<longrightarrow> (\<exists>rf. ?ref = int rf \<and> rf < c_ip s \<and> c_ip s - rf - 1 < 8192 \<and> c_ip s + 4 < length inp \<and>
       nat (ref_off (c_ip s) ?ref) = c_ip s - rf - 1 \<and> (\<forall>j\<le>2. inp ! (rf + j) = inp ! (c_ip s + j)))"
    using usable_ref_ok [of ?ref "c_ip s" inp] ip len by auto
  note unf = compress_step_def [of inp out_len s] p2 bind.bind_lunit Let_def b(1)
  show ?thesis
  proof (cases b)
    case True
    then obtain rf where rf: "?ref = int rf" "rf < c_ip s" "c_ip s - rf - 1 < 8192"
      "c_ip s + 4 < length inp" "nat (ref_off (c_ip s) (int rf)) = c_ip s - rf - 1"
      "\<forall>j\<le>2. inp ! (rf + j) = inp ! (c_ip s + j)"
      using b(2) by auto
    have "\<exists>st. do_match inp out_len ?s1 (int rf) = Some st \<and> good_step inp ?s1 st"
      by (rule do_match_ok [OF inv1 len]) (use rf in auto)
    moreover have "good_step inp ?s1 st = good_step inp s st" for st
      by (cases st) (simp_all add: good_step_def)
    ultimately show ?thesis unfolding unf using True rf(1) by simp
  next
    case False
    have v: "rd inp (int (c_ip s)) = Some (inp ! c_ip s)" using ip by (simp add: rd_def)
    show ?thesis
    proof (cases "length (c_out ?s1) \<ge> out_len")
      case True
      then show ?thesis using False unfolding unf by (simp add: good_step_def)
    next
      case room: False
      have "\<exists>s' ts' lits' r'. push_lit out_len ?s1 (inp ! c_ip ?s1) = Some s' \<and>
          cinv inp s' ts' lits' r' \<and> c_ip s' = c_ip ?s1 + 1 \<and>
          length (c_out s') = length (c_out ?s1) + 1 + (if c_lit s' = 0 then 1 else 0)"
        by (rule push_lit_ok [OF inv1]) (use ip room in auto)
      then show ?thesis
        using False room v unfolding unf by (fastforce simp: good_step_def)
    qed
  qed
qed

subsection \<open>The whole compressor\<close>

lemma compress_loop_ok:
  assumes "cinv inp s ts lits r" and len: "length inp < 2 ^ 32"
  shows "compress_loop inp out_len s = Some Return_0 \<or>
    (\<exists>s' ts' lits' r'. compress_loop inp out_len s = Some (Break s') \<and> length inp \<le> c_ip s' + 2 \<and>
      cinv inp s' ts' lits' r')"
  using assms(1)
proof (induction "length inp - c_ip s" arbitrary: s ts lits r rule: less_induct)
  case less
  show ?case
  proof (cases "c_ip s + 2 < length inp")
    case True
    obtain st where st: "compress_step inp out_len s = Some st" "good_step inp s st"
      using compress_step_ok [OF less.prems len True] by blast
    show ?thesis
    proof (cases st)
      case (Continue s')
      then obtain ts' lits' r' where n: "c_ip s < c_ip s'" "cinv inp s' ts' lits' r'"
        using st(2) by (auto simp: good_step_def)
      have "compress_loop inp out_len s = compress_loop inp out_len s'"
        using True st(1) Continue by (subst compress_loop.simps) simp
      then show ?thesis
        using less.hyps [OF _ n(2)] n(1) True by (auto simp: diff_less_mono2)
    qed (use st True in \<open>auto simp: compress_loop.simps [of inp out_len s] good_step_def\<close>)
  next
    case False
    then show ?thesis using less.prems by (subst (2) compress_loop.simps) auto
  qed
qed

lemma tail_loop_ok:
  assumes "cinv inp s ts lits r" and "length inp - c_ip s = d" and "d < 32"
    and "length (c_out s) + d + (if c_lit s + d \<ge> 32 then 1 else 0) \<le> out_len"
  shows "\<exists>s' ts' lits' r'. tail_loop inp out_len s = Some s' \<and> cinv inp s' ts' lits' r' \<and>
    c_ip s' = length inp \<and> length (c_out s') \<le> out_len"
  using assms
proof (induction d arbitrary: s ts lits r)
  case 0
  then show ?case by (auto simp: tail_loop.simps [of inp out_len s] cinv_def)
next
  case (Suc d)
  have ip: "c_ip s < length inp" using Suc.prems by simp
  obtain s1 ts1 lits1 r1 where p: "push_lit out_len s (inp ! c_ip s) = Some s1"
    "cinv inp s1 ts1 lits1 r1" "c_ip s1 = c_ip s + 1"
    "length (c_out s1) = length (c_out s) + 1 + (if c_lit s1 = 0 then 1 else 0)"
    using push_lit_ok [OF Suc.prems(1) ip, of out_len] Suc.prems(4) by auto
  have l: "c_lit s1 = 0 \<or> c_lit s1 = c_lit s + 1"
    using p(1) by (auto simp: push_lit_def Let_def bind_eq_Some_conv split: if_splits)
  have z: "c_lit s + 1 = 32" if "c_lit s1 = 0"
    using that p(1) by (auto simp: push_lit_def Let_def MAX_LIT_def bind_eq_Some_conv split: if_splits)
  have "length (c_out s1) + d + (if c_lit s1 + d \<ge> 32 then 1 else 0) \<le> out_len"
    using Suc.prems(3,4) p(4) l z by (auto split: if_splits)
  moreover have "length inp - c_ip s1 = d" "d < 32" using Suc.prems(2,3) p(3) by auto
  ultimately obtain s' ts' lits' r' where "tail_loop inp out_len s1 = Some s'"
    "cinv inp s' ts' lits' r'" "c_ip s' = length inp" "length (c_out s') \<le> out_len"
    using Suc.IH [OF p(2)] by blast
  moreover have "rd inp (int (c_ip s)) = Some (inp ! c_ip s)" using ip by (simp add: rd_def)
  ultimately show ?case using ip p(1) by (auto simp: tail_loop.simps [of inp out_len s])
qed

text \<open>What a successful run leaves: the encoding of tokens that expand to the input.\<close>

lemma lzf_compress_tokens:
  assumes h: "htab_ok htab" and len: "2 \<le> length inp" "length inp < 2 ^ 32"
  shows "lzf_compress htab inp out_len = Some [] \<or>
    (\<exists>ts. lzf_compress htab inp out_len = Some (enc ts) \<and> length (enc ts) \<le> out_len \<and>
       toks_ok [] ts \<and> expand [] ts = inp)"
proof (cases "out_len = 0")
  case False
  have ne: "inp \<noteq> []" using len by auto
  have ab: "rd inp 0 = Some (inp ! 0)" "rd inp 1 = Some (inp ! 1)" using len by (auto simp: rd_def)
  define s0 where "s0 = \<lparr>c_ip = 0, c_out = reserve [], c_lit = 0, c_hval = FRST (inp ! 0) (inp ! 1),
    c_htab = htab\<rparr>"
  have inv: "cinv inp s0 [] [] 0" using h by (simp add: s0_def cinv_def reserve_def)
  let ?fin = "\<lambda>s. if length (c_out s) + 3 > out_len then Some [] else do {
      s' \<leftarrow> tail_loop inp out_len s; o1 \<leftarrow> set_run out_len (c_out s') (c_lit s');
      Some (undo_run o1 (c_lit s')) }"
  have unf: "lzf_compress htab inp out_len = do {
      r \<leftarrow> compress_loop inp out_len s0;
      case r of Return_0 \<Rightarrow> Some [] | Continue s \<Rightarrow> None | Break s \<Rightarrow> ?fin s }"
    using ne False by (simp add: lzf_compress_def ab s0_def)
  show ?thesis
    using compress_loop_ok [OF inv len(2), of out_len]
  proof (elim disjE exE conjE)
    fix s ts lits r
    assume br: "compress_loop inp out_len s0 = Some (Break s)" and near: "length inp \<le> c_ip s + 2"
      and inv: "cinv inp s ts lits r"
    show ?thesis
    proof (cases "length (c_out s) + 3 > out_len")
      case False
      obtain s' ts' lits' r' where t: "tail_loop inp out_len s = Some s'" "cinv inp s' ts' lits' r'"
        "c_ip s' = length inp" "length (c_out s') \<le> out_len"
      proof -
        have "length inp - c_ip s < 32" using near by simp
        moreover have "length (c_out s) + (length inp - c_ip s)
            + (if c_lit s + (length inp - c_ip s) \<ge> 32 then 1 else 0) \<le> out_len"
        proof -
          have "length inp - c_ip s \<le> 2" using near by simp
          then show ?thesis using False by (cases "c_lit s + (length inp - c_ip s) \<ge> 32") simp_all
        qed
        ultimately show thesis using tail_loop_ok [OF inv refl, of out_len] that by blast
      qed
      have c: "c_out s' = enc ts' @ r' # lits'" "length lits' = c_lit s'" "c_lit s' < 32"
        "toks_ok [] ts'" "expand [] ts' @ lits' = inp"
        using t(2,3) by (auto simp: cinv_def)
      obtain o1 where o1: "set_run out_len (c_out s') (c_lit s') = Some o1"
        "undo_run o1 (c_lit s') = enc (close_run ts' lits')"
        using set_run_close [of lits' ts' out_len r'] c t(4) by auto
      have "lzf_compress htab inp out_len = Some (enc (close_run ts' lits'))"
        using unf br False t(1) o1 by simp
      moreover have "length (enc (close_run ts' lits')) \<le> out_len"
        using c t(4) by (auto simp: close_run_def)
      moreover have "toks_ok [] (close_run ts' lits')"
        using c by (cases lits') (auto simp: close_run_def)
      moreover have "expand [] (close_run ts' lits') = inp"
        using c by (auto simp: close_run_def)
      ultimately show ?thesis by blast
    qed (use unf br in simp)
  qed (use unf in simp)
qed (simp add: lzf_compress_def)

section \<open>The decompressor on arbitrary input\<close>

lemma back_step_safe:
  assumes "int (length out) - int x - 1 - int y \<ge> 0" and "length out + n \<le> out_len"
  shows "\<exists>out'. copy_ref out_len out (int (length out) - int x - 1 - int y) n = Some out' \<and>
    length out' = length out + n"
proof -
  have e: "int (length out) - int x - 1 - int y = int (length out - x - 1 - y)" using assms(1) by simp
  have "length out - x - 1 - y < length out" using assms(1) by simp
  then show ?thesis unfolding e using copy_ref_ok [OF _ assms(2)] by simp
qed

lemma decompress_step_safe:
  assumes ip: "ip < length inp" and out: "length out \<le> out_len"
  shows "\<exists>r. decompress_step inp out_len (ip, out) = Some r \<and>
    (\<forall>ip' out'. r = Inr (ip', out') \<longrightarrow> ip < ip' \<and> ip' \<le> length inp \<and> length out' \<le> out_len) \<and>
    (\<forall>e out'. r = Inl (e, out') \<longrightarrow> length out' \<le> out_len)"
proof -
  let ?ctrl = "unat (inp ! ip)" and ?out = "length out"
  have c: "rd inp (int ip) = Some (inp ! ip)" using ip by (simp add: rd_def)
  show ?thesis
  proof (cases "?ctrl < 32")
    case lit: True
    show ?thesis
    proof (cases "?out + (?ctrl + 1) \<le> out_len \<and> ip + 1 + (?ctrl + 1) \<le> length inp")
      case True
      then have "copy_lit out_len inp (ip + 1) out (?ctrl + 1) =
          Some (out @ mem_read (ip + 1) (?ctrl + 1) inp)"
        by (intro copy_lit_ok) auto
      then show ?thesis using True lit
        by (auto simp: decompress_step_def c Let_def mem_read_def simp del: copy_lit.simps)
    next
      case False
      then show ?thesis using lit out by (auto simp: decompress_step_def c Let_def)
    qed
  next
    case bref: False
    let ?x = "?ctrl mod 32 * 256"
    show ?thesis
    proof (cases "ip + 1 < length inp")
      case a: True
      then have v1: "rd inp (int (ip + 1)) = Some (inp ! (ip + 1))" by (simp add: rd_def nat_add_distrib)
      show ?thesis
      proof (cases "?ctrl div 32 = 7")
        case long: True
        show ?thesis
        proof (cases "ip + 2 < length inp")
          case True
          then have v2: "rd inp (int (ip + 1 + 1)) = Some (inp ! (ip + 2))"
            by (simp add: rd_def nat_add_distrib)
          let ?ref = "int ?out - int ?x - 1 - int (unat (inp ! (ip + 2)))"
            and ?n = "7 + unat (inp ! (ip + 1)) + 2"
          show ?thesis
            using bref a out long True back_step_safe [of out ?x "unat (inp ! (ip + 2))" ?n out_len]
            by (cases "?out + ?n \<le> out_len \<and> 0 \<le> ?ref")
              (auto simp: decompress_step_def c v1 [simplified] v2 [simplified] Let_def)
        qed (use bref a out long v1 [simplified] in \<open>auto simp: decompress_step_def c Let_def\<close>)
      next
        case short: False
        let ?ref = "int ?out - int ?x - 1 - int (unat (inp ! (ip + 1)))" and ?n = "?ctrl div 32 + 2"
        show ?thesis
          using bref a out short back_step_safe [of out ?x "unat (inp ! (ip + 1))" ?n out_len]
          by (cases "?out + ?n \<le> out_len \<and> 0 \<le> ?ref")
            (auto simp: decompress_step_def c v1 [simplified] Let_def simp del: copy_ref.simps)
      qed
    qed (use bref out in \<open>auto simp: decompress_step_def c Let_def\<close>)
  qed
qed

lemma decompress_loop_safe:
  assumes "ip < length inp" and "length out \<le> out_len"
  shows "\<exists>r. decompress_loop inp out_len (ip, out) = Some r \<and>
    (\<forall>out'. r = Inr out' \<longrightarrow> length out' \<le> out_len) \<and>
    (\<forall>e out'. r = Inl (e, out') \<longrightarrow> length out' \<le> out_len)"
  using assms
proof (induction "length inp - ip" arbitrary: ip out rule: less_induct)
  case less
  obtain r where r: "decompress_step inp out_len (ip, out) = Some r"
    "\<forall>ip' out'. r = Inr (ip', out') \<longrightarrow> ip < ip' \<and> ip' \<le> length inp \<and> length out' \<le> out_len"
    "\<forall>e out'. r = Inl (e, out') \<longrightarrow> length out' \<le> out_len"
    using decompress_step_safe [OF less.prems] by blast
  show ?case
  proof (cases r)
    case (Inr st)
    obtain ip' out' where st: "st = (ip', out')" by (cases st)
    have n: "ip < ip'" "length out' \<le> out_len" using r(2) Inr st by auto
    show ?thesis
      using less.hyps [of ip' out'] n r(1) Inr st less.prems(1)
      by (subst decompress_loop.simps) (auto simp: diff_less_mono2)
  qed (use r in \<open>auto simp: decompress_loop.simps [of inp out_len "(ip, out)"]\<close>)
qed

section \<open>Properties\<close>

lemmas lzf_eval = rd_def put_def reserve_def set_run_def undo_run_def HLOG_def HSIZE_def
  MAX_LIT_def MAX_OFF_def MAX_REF_def FRST_def NEXT_def IDX_def cmp_scan.simps match_len_def
  ref_off_def usable_ref_def emit_ref_def rehash_def do_match_def push_lit_def compress_step_def
  compress_loop.simps tail_loop.simps lzf_compress_def

lemma htab_ok_zero [simp]: "htab_ok (\<lambda>_. 0)"
  by (simp add: htab_ok_def)

text \<open>C1: What \<open>lzf_compress\<close> emits, whenever it does not give up with 0, decompresses to its
  input: for every input of 2 bytes up to 4 GB, every output size and every content of the
  uninitialised hash table, \<open>lzf_decompress\<close> with enough room returns the original bytes.\<close>

theorem lzf_roundtrip:
  assumes "htab_ok htab" "2 \<le> length inp" "length inp < 2 ^ 32"
    and "lzf_compress htab inp n = Some c" "c \<noteq> []" "length inp \<le> m"
  shows "lzf_decompress c m = Some (Inr inp)"
proof -
  obtain ts where ts: "c = enc ts" "toks_ok [] ts" "expand [] ts = inp"
    using lzf_compress_tokens [OF assms(1-3), of n] assms(4,5) by auto
  have "ts \<noteq> []" using ts assms(5) by auto
  from decompress_loop_toks [OF this ts(2), of m "[]"] show ?thesis
    using ts assms(6) by (simp add: lzf_decompress_def)
qed

theorem lzf_roundtrip_witness:
  "lzf_decompress [1, 7, 7, 64, 0, 1, 7, 7] 8 = Some (Inr [7, 7, 7, 7, 7, 7, 7, 7])"
proof -
  have "lzf_compress (\<lambda>_. 0) [7, 7, 7, 7, 7, 7, 7, 7] 16 = Some [1, 7, 7, 64, 0, 1, 7, 7]"
    by (simp add: lzf_eval Let_def)
  then show ?thesis
    using lzf_roundtrip [of "\<lambda>_. 0" "[7, 7, 7, 7, 7, 7, 7, 7]" 16] by simp
qed

text \<open>C15: Memory safety and termination of \<open>lzf_compress\<close>, for every input of less than 4 GB, every
  output size and every content of the uninitialised hash table: no read leaves the input, no write
  leaves the output, and the result fits the output, except for an input of exactly one byte with a
  non-empty output. There the hash of the first two bytes (\<open>FRST (ip)\<close>) is computed before the
  length is looked at, and reads one byte past the input.\<close>

theorem lzf_compress_safe:
  assumes "htab_ok htab" "length inp < 2 ^ 32"
  shows "if length inp = 1 \<and> 0 < n then lzf_compress htab inp n = None
    else \<exists>c. lzf_compress htab inp n = Some c \<and> length c \<le> n"
proof (cases "2 \<le> length inp")
  case True
  then show ?thesis using lzf_compress_tokens [OF assms(1) True assms(2), of n] by auto
next
  case False
  then consider "inp = []" | x where "inp = [x]" by (cases inp; cases "tl inp") auto
  then show ?thesis by cases (simp_all add: lzf_compress_def rd_def)
qed

theorem lzf_compress_safe_witness:
  "(\<exists>c. lzf_compress (\<lambda>_. 0) [1, 2, 3, 1, 2, 3, 1] 6 = Some c \<and> length c \<le> 6) \<and>
    lzf_compress (\<lambda>_. 0) [65] 100 = None"
  using lzf_compress_safe [of "\<lambda>_. 0" "[1, 2, 3, 1, 2, 3, 1]" 6] lzf_compress_safe [of "\<lambda>_. 0" "[65]" 100]
  by simp

text \<open>C16: \<open>lzf_decompress\<close> is memory safe on every non-empty input, malformed ones included: it
  terminates, never reads outside its input or its own output and never writes past \<open>out_len\<close>,
  whatever the control bytes and offsets say and whether the run succeeds or is given up. On an
  empty input it reads the first control byte before any length test, past the end.\<close>

theorem lzf_decompress_safe:
  "if inp = [] then lzf_decompress inp m = None
   else \<exists>r. lzf_decompress inp m = Some r \<and> (\<forall>out. r = Inr out \<longrightarrow> length out \<le> m) \<and>
     (\<forall>e out. r = Inl (e, out) \<longrightarrow> length out \<le> m)"
  using decompress_loop_safe [of 0 inp "[]" m]
  by (auto simp: lzf_decompress_def decompress_loop.simps [of "[]"] decompress_step_def rd_def)

theorem lzf_decompress_safe_witness:
  "\<exists>r. lzf_decompress [255, 255, 255, 3] 100 = Some r \<and> (\<forall>out. r = Inr out \<longrightarrow> length out \<le> 100) \<and>
    (\<forall>e out. r = Inl (e, out) \<longrightarrow> length out \<le> 100)"
  using lzf_decompress_safe [of "[255, 255, 255, 3]" 100] by simp

end
