(* ===== verification/Packet.thy ===== *)
theory Packet
  imports Prelude
begin

text \<open>
  The packet of the CGSF protocol: \<open>BasePacket\<close> (Common/BasePacket.h), \<open>SFPacketHeader\<close>
  (EngineLayer/SFStructure.h) and \<open>SFPacket\<close> with its typed read and write operators
  (EngineLayer/SFPacket.h, SFPacket.cpp).

  The C++ object owns one block of \<open>MAX_PACKET_SIZE\<close> bytes; its first 12 bytes are the packed
  header, which the code only touches through \<open>m_pHeader\<close>. The model keeps the header fields
  in a record and the other 8180 bytes in \<open>sp_data\<close>; \<open>packet_wire\<close> gives the bytes of the
  block that go on the wire. \<open>CHAR\<close>, \<open>SHORT\<close> and \<open>int\<close> values are the words of their width, a
  \<open>float\<close> its 32 bits; the machine is little endian (x86).
\<close>

section \<open>Constants\<close>

definition MAX_PACKET_SIZE :: nat where "MAX_PACKET_SIZE = 8192"
definition HEADER_SIZE :: nat where "HEADER_SIZE = 12"
definition DATA_AREA :: nat where "DATA_AREA = MAX_PACKET_SIZE - HEADER_SIZE"

definition PACKET_OPTION_DATACRC :: u32 where "PACKET_OPTION_DATACRC = 1"
definition PACKET_OPTION_COMPRESS :: u32 where "PACKET_OPTION_COMPRESS = 2"
definition PACKET_OPTION_ENCRYPTION :: u32 where "PACKET_OPTION_ENCRYPTION = 4"

lemmas packet_consts [simp] = MAX_PACKET_SIZE_def HEADER_SIZE_def DATA_AREA_def

section \<open>Header\<close>

record SFPacketHeader =
  packetID :: u16
  packetOption :: u32
  dataCRC :: u32
  dataSize :: u16

definition header_Clear :: SFPacketHeader where
  "header_Clear = \<lparr>packetID = 0, packetOption = 0, dataCRC = 0, dataSize = 0\<rparr>"

definition header_CheckDataCRC :: "SFPacketHeader \<Rightarrow> bool" where
  "header_CheckDataCRC h \<longleftrightarrow> packetOption h AND PACKET_OPTION_DATACRC \<noteq> 0"

definition header_CheckEncryption :: "SFPacketHeader \<Rightarrow> bool" where
  "header_CheckEncryption h \<longleftrightarrow> packetOption h AND PACKET_OPTION_ENCRYPTION \<noteq> 0"

definition header_CheckCompressed :: "SFPacketHeader \<Rightarrow> bool" where
  "header_CheckCompressed h \<longleftrightarrow> packetOption h AND PACKET_OPTION_COMPRESS \<noteq> 0"

definition header_SetPacketOption :: "u32 \<Rightarrow> SFPacketHeader \<Rightarrow> SFPacketHeader" where
  "header_SetPacketOption opt h = h\<lparr>packetOption := opt\<rparr>"

text \<open>The header's bytes (\<open>#pragma pack(1)\<close>), and a header read back from 12 bytes.\<close>

definition header_bytes :: "SFPacketHeader \<Rightarrow> u8 list" where
  "header_bytes h =
     le16 (packetID h) @ le32 (packetOption h) @ le32 (dataCRC h) @ le16 (dataSize h)"

definition header_of :: "u8 list \<Rightarrow> SFPacketHeader" where
  "header_of bs = \<lparr>packetID = un_le16 bs, packetOption = un_le32 (drop 2 bs),
     dataCRC = un_le32 (drop 6 bs), dataSize = un_le16 (drop 10 bs)\<rparr>"

lemma length_header_bytes [simp]: "length (header_bytes h) = 12"
  by (simp add: header_bytes_def)

lemma header_of_bytes [simp]: "header_of (header_bytes h @ xs) = h"
  by (simp add: header_of_def header_bytes_def le_simps flip: append_assoc)
    (simp add: le_simps)

section \<open>The packet object\<close>

record session_desc =
  sessionType :: int
  sd_identifier :: int
  szIP :: string
  port :: u16
  pSession :: nat

definition empty_desc :: session_desc where
  "empty_desc = \<lparr>sessionType = -1, sd_identifier = -1, szIP = '''', port = 0, pSession = 0\<rparr>"

definition SFPACKET_NONE :: u32 where "SFPACKET_NONE = 1"
definition SFPACKET_DATA :: u32 where "SFPACKET_DATA = 4"
definition SFPACKET_RPC :: u32 where "SFPACKET_RPC = 8"

record sfpacket =
  m_serial :: int
  m_sessiondesc :: session_desc
  m_packetType :: u32
  m_packetID :: u16
  m_pHeader :: SFPacketHeader
  sp_data :: "u8 list"
  m_usCurrentReadPosition :: u16
  m_bEncoded :: bool

definition Initialize :: "sfpacket \<Rightarrow> sfpacket" where
  \<comment> \<open>\<open>ResetBuffer\<close> clears the whole block, the header with it\<close>
  "Initialize p =
     p\<lparr>m_pHeader := header_Clear, sp_data := replicate DATA_AREA 0,
       m_usCurrentReadPosition := 12, m_bEncoded := False\<rparr>"

definition SFPacket_new :: sfpacket where
  "SFPacket_new = Initialize
     \<lparr>m_serial = -1, m_sessiondesc = empty_desc, m_packetType = SFPACKET_NONE, m_packetID = -1,
      m_pHeader = header_Clear, sp_data = [], m_usCurrentReadPosition = 0, m_bEncoded = False\<rparr>"

definition SFPacket_with_id :: "u16 \<Rightarrow> sfpacket" where
  \<comment> \<open>sets the header's id only, not the base class's\<close>
  "SFPacket_with_id pid =
     SFPacket_new\<lparr>m_pHeader := (m_pHeader SFPacket_new)\<lparr>packetID := pid\<rparr>\<rparr>"

definition SetPacketID :: "u16 \<Rightarrow> sfpacket \<Rightarrow> sfpacket" where
  "SetPacketID pid p = p\<lparr>m_packetID := pid, m_pHeader := (m_pHeader p)\<lparr>packetID := pid\<rparr>\<rparr>"

definition GetDataSize :: "sfpacket \<Rightarrow> nat" where
  "GetDataSize p = unat (dataSize (m_pHeader p))"

definition SetDataSize :: "u16 \<Rightarrow> sfpacket \<Rightarrow> sfpacket" where
  "SetDataSize n p = p\<lparr>m_pHeader := (m_pHeader p)\<lparr>dataSize := n\<rparr>\<rparr>"

definition GetPacketSize :: "sfpacket \<Rightarrow> nat" where
  "GetPacketSize p = HEADER_SIZE + GetDataSize p"

definition ReadStart :: "sfpacket \<Rightarrow> sfpacket" where
  "ReadStart p = p\<lparr>m_usCurrentReadPosition := 12\<rparr>"

definition packet_wire :: "sfpacket \<Rightarrow> u8 list" where
  \<comment> \<open>the \<open>GetPacketSize\<close> bytes from \<open>GetHeader()\<close>\<close>
  "packet_wire p = header_bytes (m_pHeader p) @ take (GetDataSize p) (sp_data p)"

definition payload :: "sfpacket \<Rightarrow> u8 list" where
  "payload p = take (GetDataSize p) (sp_data p)"

text \<open>\<open>Clone\<close> copies the base header (not the session), the block and the positions.\<close>

definition Clone :: "sfpacket \<Rightarrow> sfpacket" where
  "Clone p = SFPacket_new\<lparr>m_serial := m_serial p, m_packetID := m_packetID p,
     m_packetType := m_packetType p, m_pHeader := m_pHeader p, sp_data := sp_data p,
     m_bEncoded := m_bEncoded p, m_usCurrentReadPosition := m_usCurrentReadPosition p\<rparr>"

definition packet_ok :: "sfpacket \<Rightarrow> bool" where
  "packet_ok p \<longleftrightarrow> length (sp_data p) = 8180 \<and> GetDataSize p \<le> 8180 \<and>
     12 \<le> unat (m_usCurrentReadPosition p) \<and> unat (m_usCurrentReadPosition p) \<le> 8192"

lemma Initialize_ok [simp]: "packet_ok (Initialize p)"
  by (simp add: packet_ok_def Initialize_def GetDataSize_def header_Clear_def)

lemma SFPacket_with_id_ok [simp]: "packet_ok (SFPacket_with_id pid)"
  by (simp add: packet_ok_def SFPacket_with_id_def SFPacket_new_def Initialize_def GetDataSize_def
      header_Clear_def)

lemma SFPacket_with_id_size [simp]: "GetDataSize (SFPacket_with_id pid) = 0"
  by (simp add: SFPacket_with_id_def SFPacket_new_def Initialize_def GetDataSize_def
      header_Clear_def)

lemma length_payload [simp]: "packet_ok p \<Longrightarrow> length (payload p) = GetDataSize p"
  by (simp add: payload_def packet_ok_def)

section \<open>Writing\<close>

text \<open>All write operators share the guard, the copy and the size update.\<close>

definition write_data :: "u8 list \<Rightarrow> sfpacket \<Rightarrow> sfpacket" where
  "write_data bs p =
     (if GetPacketSize p + length bs > MAX_PACKET_SIZE then p
      else SetDataSize (dataSize (m_pHeader p) + of_nat (length bs))
             (p\<lparr>sp_data := mem_write (GetDataSize p) bs (sp_data p)\<rparr>))"

definition put_BYTE :: "u8 \<Rightarrow> sfpacket \<Rightarrow> sfpacket" where
  "put_BYTE v = write_data [v]"

definition put_CHAR :: "u8 \<Rightarrow> sfpacket \<Rightarrow> sfpacket" where
  "put_CHAR v = write_data [v]"

definition put_SHORT :: "u16 \<Rightarrow> sfpacket \<Rightarrow> sfpacket" where
  "put_SHORT v = write_data (le16 v)"

definition put_USHORT :: "u16 \<Rightarrow> sfpacket \<Rightarrow> sfpacket" where
  "put_USHORT v = write_data (le16 v)"

definition put_int :: "u32 \<Rightarrow> sfpacket \<Rightarrow> sfpacket" where
  "put_int v = write_data (le32 v)"

definition put_DWORD :: "u32 \<Rightarrow> sfpacket \<Rightarrow> sfpacket" where
  "put_DWORD v = write_data (le32 v)"

definition put_float :: "u32 \<Rightarrow> sfpacket \<Rightarrow> sfpacket" where
  "put_float v = write_data (le32 v)"

definition put_string :: "u8 list \<Rightarrow> sfpacket \<Rightarrow> sfpacket" where
  \<comment> \<open>\<open>szStr\<close>: the bytes before its terminating NUL\<close>
  "put_string s p =
     (if length s \<le> 0 \<or> GetPacketSize p + length s + 1 > MAX_PACKET_SIZE then p
      else let p1 = SetDataSize (dataSize (m_pHeader p) + of_nat (length s))
                      (p\<lparr>sp_data := mem_write (GetDataSize p) s (sp_data p)\<rparr>)
           in SetDataSize (dataSize (m_pHeader p1) + 1)
                (p1\<lparr>sp_data := mem_write (GetDataSize p1) [0] (sp_data p1)\<rparr>))"

definition Write :: "u8 list \<Rightarrow> sfpacket \<Rightarrow> sfpacket" where
  "Write bs = write_data bs"

section \<open>Reading\<close>

text \<open>A read that would pass the block leaves the variable and the position as they are
  (\<open>None\<close>); it is not checked against the data size.\<close>

definition read_data :: "nat \<Rightarrow> sfpacket \<Rightarrow> u8 list option \<times> sfpacket" where
  "read_data n p =
     (let pos = unat (m_usCurrentReadPosition p)
      in if pos + n > MAX_PACKET_SIZE then (None, p)
         else (Some (mem_read (pos - HEADER_SIZE) n (sp_data p)),
               p\<lparr>m_usCurrentReadPosition := m_usCurrentReadPosition p + of_nat n\<rparr>))"

definition get_BYTE :: "sfpacket \<Rightarrow> u8 option \<times> sfpacket" where
  "get_BYTE p = apfst (map_option (\<lambda>bs. bs ! 0)) (read_data 1 p)"

definition get_CHAR :: "sfpacket \<Rightarrow> u8 option \<times> sfpacket" where
  "get_CHAR p = apfst (map_option (\<lambda>bs. bs ! 0)) (read_data 1 p)"

definition get_SHORT :: "sfpacket \<Rightarrow> u16 option \<times> sfpacket" where
  "get_SHORT p = apfst (map_option un_le16) (read_data 2 p)"

definition get_USHORT :: "sfpacket \<Rightarrow> u16 option \<times> sfpacket" where
  "get_USHORT p = apfst (map_option un_le16) (read_data 2 p)"

definition get_int :: "sfpacket \<Rightarrow> u32 option \<times> sfpacket" where
  "get_int p = apfst (map_option un_le32) (read_data 4 p)"

definition get_DWORD :: "sfpacket \<Rightarrow> u32 option \<times> sfpacket" where
  "get_DWORD p = apfst (map_option un_le32) (read_data 4 p)"

definition get_float :: "sfpacket \<Rightarrow> u32 option \<times> sfpacket" where
  "get_float p = apfst (map_option un_le32) (read_data 4 p)"

definition get_string :: "sfpacket \<Rightarrow> (u8 list option \<times> sfpacket) option" where
  \<comment> \<open>\<open>strlen\<close> on a block with no NUL after the position reads past it: \<open>None\<close>\<close>
  "get_string p =
     (let pos = unat (m_usCurrentReadPosition p); tail = drop (pos - HEADER_SIZE) (sp_data p);
          s = takeWhile (\<lambda>b. b \<noteq> 0) tail
      in if length s = length tail then None
         else if pos + length s + 1 > MAX_PACKET_SIZE then Some (None, p)
         else Some (Some s, p\<lparr>m_usCurrentReadPosition :=
                               m_usCurrentReadPosition p + of_nat (length s + 1)\<rparr>))"

definition Read :: "nat \<Rightarrow> sfpacket \<Rightarrow> u8 list option \<times> sfpacket" where
  "Read n p = read_data n p"

section \<open>Fields\<close>

text \<open>A message as the game code writes it: a sequence of typed fields.\<close>

datatype field = F_BYTE u8 | F_CHAR u8 | F_SHORT u16 | F_USHORT u16 | F_INT u32 | F_DWORD u32
  | F_FLOAT u32 | F_STR "u8 list" | F_RAW "u8 list"

datatype fkind = K_BYTE | K_CHAR | K_SHORT | K_USHORT | K_INT | K_DWORD | K_FLOAT | K_STR
  | K_RAW nat

fun kind :: "field \<Rightarrow> fkind" where
  "kind (F_BYTE _) = K_BYTE"
| "kind (F_CHAR _) = K_CHAR"
| "kind (F_SHORT _) = K_SHORT"
| "kind (F_USHORT _) = K_USHORT"
| "kind (F_INT _) = K_INT"
| "kind (F_DWORD _) = K_DWORD"
| "kind (F_FLOAT _) = K_FLOAT"
| "kind (F_STR _) = K_STR"
| "kind (F_RAW bs) = K_RAW (length bs)"

fun put_field :: "field \<Rightarrow> sfpacket \<Rightarrow> sfpacket" where
  "put_field (F_BYTE v) = put_BYTE v"
| "put_field (F_CHAR v) = put_CHAR v"
| "put_field (F_SHORT v) = put_SHORT v"
| "put_field (F_USHORT v) = put_USHORT v"
| "put_field (F_INT v) = put_int v"
| "put_field (F_DWORD v) = put_DWORD v"
| "put_field (F_FLOAT v) = put_float v"
| "put_field (F_STR s) = put_string s"
| "put_field (F_RAW bs) = Write bs"

fun get_field :: "fkind \<Rightarrow> sfpacket \<Rightarrow> (field option \<times> sfpacket) option" where
  "get_field K_BYTE p = Some (apfst (map_option F_BYTE) (get_BYTE p))"
| "get_field K_CHAR p = Some (apfst (map_option F_CHAR) (get_CHAR p))"
| "get_field K_SHORT p = Some (apfst (map_option F_SHORT) (get_SHORT p))"
| "get_field K_USHORT p = Some (apfst (map_option F_USHORT) (get_USHORT p))"
| "get_field K_INT p = Some (apfst (map_option F_INT) (get_int p))"
| "get_field K_DWORD p = Some (apfst (map_option F_DWORD) (get_DWORD p))"
| "get_field K_FLOAT p = Some (apfst (map_option F_FLOAT) (get_float p))"
| "get_field K_STR p = map_option (apfst (map_option F_STR)) (get_string p)"
| "get_field (K_RAW n) p = Some (apfst (map_option F_RAW) (Read n p))"

fun get_fields :: "fkind list \<Rightarrow> sfpacket \<Rightarrow> (field option list \<times> sfpacket) option" where
  "get_fields [] p = Some ([], p)"
| "get_fields (k # ks) p = (case get_field k p of None \<Rightarrow> None
     | Some (f, p') \<Rightarrow> map_option (apfst (Cons f)) (get_fields ks p'))"

fun field_bytes :: "field \<Rightarrow> u8 list" where
  "field_bytes (F_BYTE v) = [v]"
| "field_bytes (F_CHAR v) = [v]"
| "field_bytes (F_SHORT v) = le16 v"
| "field_bytes (F_USHORT v) = le16 v"
| "field_bytes (F_INT v) = le32 v"
| "field_bytes (F_DWORD v) = le32 v"
| "field_bytes (F_FLOAT v) = le32 v"
| "field_bytes (F_STR s) = s @ [0]"
| "field_bytes (F_RAW bs) = bs"

definition field_ok :: "field \<Rightarrow> bool" where
  "field_ok f = (case f of F_STR s \<Rightarrow> s \<noteq> [] \<and> 0 \<notin> set s | _ \<Rightarrow> True)"

definition message_bytes :: "field list \<Rightarrow> u8 list" where
  "message_bytes fs = concat (map field_bytes fs)"

lemma message_bytes_simps [simp]:
  "message_bytes [] = []" "message_bytes (f # fs) = field_bytes f @ message_bytes fs"
  by (simp_all add: message_bytes_def)

subsection \<open>What a write does to the payload\<close>

lemma unat_add_size:
  fixes w :: u16
  assumes "unat w + n \<le> 8180"
  shows "unat (w + of_nat n) = unat w + n"
proof -
  have "unat (of_nat n :: u16) = n" using assms by (simp add: unat_of_nat)
  then show ?thesis using assms by (simp add: unat_word_ariths)
qed

lemma write_data_ok:
  assumes ok: "packet_ok p" and fit: "GetDataSize p + length bs \<le> 8180"
  shows "packet_ok (write_data bs p)" and "payload (write_data bs p) = payload p @ bs"
    and "GetDataSize (write_data bs p) = GetDataSize p + length bs"
proof -
  have sz: "unat (dataSize (m_pHeader p) + of_nat (length bs)) = GetDataSize p + length bs"
    using unat_add_size [of "dataSize (m_pHeader p)" "length bs"] fit by (simp add: GetDataSize_def)
  have w: "write_data bs p = SetDataSize (dataSize (m_pHeader p) + of_nat (length bs))
             (p\<lparr>sp_data := mem_write (GetDataSize p) bs (sp_data p)\<rparr>)"
    using fit by (simp add: write_data_def GetPacketSize_def)
  show "GetDataSize (write_data bs p) = GetDataSize p + length bs"
    unfolding w by (simp add: GetDataSize_def SetDataSize_def sz [unfolded GetDataSize_def])
  then show "payload (write_data bs p) = payload p @ bs"
    using ok fit unfolding payload_def w
    by (cases bs) (auto simp: SetDataSize_def packet_ok_def mem_write_def min_def)
  show "packet_ok (write_data bs p)"
    using ok fit sz unfolding w
    by (simp add: packet_ok_def SetDataSize_def GetDataSize_def mem_write_def)
qed

lemma put_string_write:
  assumes "packet_ok p" "s \<noteq> []" "GetDataSize p + length s + 1 \<le> 8180"
  shows "put_string s p = write_data [0] (write_data s p)"
proof -
  have "GetDataSize (write_data s p) + 1 \<le> 8180" using write_data_ok [of p s] assms by simp
  then have "\<not> GetPacketSize (write_data s p) + length [0 :: u8] > MAX_PACKET_SIZE"
    by (simp add: GetPacketSize_def)
  moreover have "\<not> GetPacketSize p + length s > MAX_PACKET_SIZE"
    using assms by (simp add: GetPacketSize_def)
  ultimately show ?thesis
    using assms unfolding write_data_def [of "[0]"] put_string_def Let_def
    by (simp add: write_data_def GetPacketSize_def)
qed

lemma put_field_ok:
  assumes ok: "packet_ok p" and f: "field_ok f"
    and fit: "GetDataSize p + length (field_bytes f) \<le> 8180"
  shows "packet_ok (put_field f p) \<and> payload (put_field f p) = payload p @ field_bytes f \<and>
    GetDataSize (put_field f p) = GetDataSize p + length (field_bytes f)"
proof (cases f)
  case (F_STR s)
  then have s: "s \<noteq> []" "GetDataSize p + length s + 1 \<le> 8180" using f fit by (auto simp: field_ok_def)
  have "GetDataSize p + length s \<le> 8180" using s by simp
  note a = write_data_ok [OF ok this]
  have "GetDataSize (write_data s p) + length [0 :: u8] \<le> 8180" using a s by simp
  note b = write_data_ok [OF a(1) this]
  show ?thesis using F_STR put_string_write [OF ok s] a b by simp
qed (use write_data_ok [OF ok] fit in \<open>auto simp: put_BYTE_def put_CHAR_def put_SHORT_def
    put_USHORT_def put_int_def put_DWORD_def put_float_def Write_def\<close>)

lemma put_fields_ok:
  assumes "packet_ok p" and "list_all field_ok fs"
    and "GetDataSize p + length (message_bytes fs) \<le> 8180"
  shows "packet_ok (fold put_field fs p) \<and>
    payload (fold put_field fs p) = payload p @ message_bytes fs \<and>
    GetDataSize (fold put_field fs p) = GetDataSize p + length (message_bytes fs)"
  using assms
proof (induction fs arbitrary: p)
  case (Cons f fs)
  have "GetDataSize p + length (field_bytes f) \<le> 8180" using Cons.prems by simp
  with Cons.prems have "packet_ok (put_field f p) \<and> payload (put_field f p) = payload p @ field_bytes f \<and>
      GetDataSize (put_field f p) = GetDataSize p + length (field_bytes f)"
    by (intro put_field_ok) auto
  then show ?case using Cons.IH [of "put_field f p"] Cons.prems by simp
qed simp

subsection \<open>What a read returns\<close>

definition unread :: "sfpacket \<Rightarrow> u8 list" where
  "unread p = drop (unat (m_usCurrentReadPosition p) - 12) (sp_data p)"

lemma read_data_ok:
  assumes ok: "packet_ok p" and u: "unread p = bs @ rest"
  shows "\<exists>p'. read_data (length bs) p = (Some bs, p') \<and> packet_ok p' \<and> unread p' = rest"
proof -
  let ?pos = "unat (m_usCurrentReadPosition p)"
  have len: "length (sp_data p) = 8180" "12 \<le> ?pos" "?pos \<le> 8192"
    using ok by (auto simp: packet_ok_def)
  have "length (unread p) = 8192 - ?pos" using len by (simp add: unread_def)
  then have fit: "?pos + length bs \<le> 8192" using u len by simp
  have pos: "unat (m_usCurrentReadPosition p + of_nat (length bs)) = ?pos + length bs"
  proof -
    have "unat (of_nat (length bs) :: u16) = length bs" using fit by (simp add: unat_of_nat)
    then show ?thesis using fit by (simp add: unat_word_ariths)
  qed
  let ?p' = "p\<lparr>m_usCurrentReadPosition := m_usCurrentReadPosition p + of_nat (length bs)\<rparr>"
  have "read_data (length bs) p = (Some bs, ?p')"
    using fit u by (simp add: read_data_def Let_def mem_read_def unread_def)
  moreover have "packet_ok ?p'"
    using ok pos fit by (simp add: packet_ok_def GetDataSize_def)
  moreover have "unread ?p' = rest"
  proof -
    have e: "?pos + length bs - 12 = length bs + (?pos - 12)" using len by simp
    have "drop (length bs) (unread p) = rest" using u by simp
    then show ?thesis using pos by (simp add: unread_def e)
  qed
  ultimately show ?thesis by blast
qed

lemma get_string_ok:
  assumes ok: "packet_ok p" and s: "0 \<notin> set s" and u: "unread p = s @ 0 # rest"
  shows "\<exists>p'. get_string p = Some (Some s, p') \<and> packet_ok p' \<and> unread p' = rest"
proof -
  obtain p' where p': "read_data (length (s @ [0])) p = (Some (s @ [0]), p')" "packet_ok p'"
    "unread p' = rest"
    using read_data_ok [OF ok, of "s @ [0]" rest] u by auto
  have tw: "takeWhile (\<lambda>b. b \<noteq> 0) (unread p) = s"
  proof -
    have "\<forall>x \<in> set s. x \<noteq> 0" using s by auto
    then show ?thesis unfolding u by (simp add: takeWhile_append2)
  qed
  have ne: "length s \<noteq> length (unread p)" using u by simp
  have "get_string p = Some (Some s, p')"
    using p'(1) tw ne
    by (auto simp: get_string_def read_data_def Let_def unread_def split: if_splits)
  then show ?thesis using p' by blast
qed

lemma get_field_ok:
  assumes ok: "packet_ok p" and f: "field_ok f" and u: "unread p = field_bytes f @ rest"
  shows "\<exists>p'. get_field (kind f) p = Some (Some f, p') \<and> packet_ok p' \<and> unread p' = rest"
proof (cases f)
  case (F_STR s)
  then have "0 \<notin> set s" "unread p = s @ 0 # rest" using f u by (auto simp: field_ok_def)
  then show ?thesis using get_string_ok [OF ok] F_STR by fastforce
qed (use read_data_ok [OF ok u] in \<open>auto simp: get_BYTE_def get_CHAR_def get_SHORT_def
    get_USHORT_def get_int_def get_DWORD_def get_float_def Read_def le_simps\<close>)

lemma get_fields_ok:
  "\<lbrakk>packet_ok p; list_all field_ok fs; unread p = message_bytes fs @ rest\<rbrakk> \<Longrightarrow>
    \<exists>p'. get_fields (map kind fs) p = Some (map Some fs, p') \<and> packet_ok p' \<and> unread p' = rest"
proof (induction fs arbitrary: p)
  case (Cons f fs)
  have f: "field_ok f" and u: "unread p = field_bytes f @ message_bytes fs @ rest"
    using Cons.prems by auto
  obtain p1 where p1: "get_field (kind f) p = Some (Some f, p1)" "packet_ok p1"
    "unread p1 = message_bytes fs @ rest"
    using get_field_ok [OF Cons.prems(1) f u] by blast
  then show ?case using Cons.IH [OF p1(2) _ p1(3)] Cons.prems(2) by auto
qed simp

section \<open>Properties\<close>

lemma unread_ReadStart: "packet_ok p \<Longrightarrow> unread (ReadStart p) = payload p @ drop (GetDataSize p) (sp_data p)"
  by (simp add: unread_def ReadStart_def payload_def)

lemma ReadStart_ok: "packet_ok p \<Longrightarrow> packet_ok (ReadStart p)"
  by (simp add: packet_ok_def ReadStart_def GetDataSize_def)

text \<open>C22: Message round trip: any sequence of typed fields (integers of every width, floats, non-empty
  NUL-free strings, raw blocks) that fits the packet, written with the \<open><<\<close> operators into a new
  packet, is read back field by field with the \<open>>>\<close> operators after \<open>ReadStart\<close>, and no read
  leaves the packet's block.\<close>

theorem message_roundtrip:
  assumes "list_all field_ok fs" and "length (message_bytes fs) \<le> 8180"
  shows "\<exists>p'. get_fields (map kind fs) (ReadStart (fold put_field fs (SFPacket_with_id pid)))
    = Some (map Some fs, p')"
proof -
  let ?p = "fold put_field fs (SFPacket_with_id pid)"
  have w: "packet_ok ?p" "payload ?p = message_bytes fs"
    using put_fields_ok [of "SFPacket_with_id pid" fs] assms by (auto simp: payload_def)
  have "unread (ReadStart ?p) = message_bytes fs @ drop (GetDataSize ?p) (sp_data ?p)"
    using unread_ReadStart [OF w(1)] w(2) by simp
  then show ?thesis
    using get_fields_ok [OF ReadStart_ok [OF w(1)] assms(1)] by blast
qed

theorem message_roundtrip_witness:
  "\<exists>p'. get_fields (map kind [F_STR [104, 105], F_USHORT 513, F_INT (- 1), F_RAW [0, 9]])
      (ReadStart (fold put_field [F_STR [104, 105], F_USHORT 513, F_INT (- 1), F_RAW [0, 9]]
        (SFPacket_with_id 100)))
    = Some (map Some [F_STR [104, 105], F_USHORT 513, F_INT (- 1), F_RAW [0, 9]], p')"
  by (rule message_roundtrip) (simp_all add: field_ok_def)

text \<open>An empty string is not transmitted: \<open><<\<close> drops it without a terminator, so the reader's
  string swallows the bytes of the next field and the following reads are off.\<close>

theorem empty_string_lost:
  assumes "v \<noteq> 0"
  shows "map_option fst (get_fields (map kind [F_STR [], F_BYTE v])
      (ReadStart (fold put_field [F_STR [], F_BYTE v] (SFPacket_with_id pid))))
    = Some [Some (F_STR [v]), Some (F_BYTE 0)]"
proof -
  let ?p = "put_BYTE v (SFPacket_with_id pid)"
  have w: "packet_ok ?p" "payload ?p = [v]" "GetDataSize ?p = 1"
    using put_field_ok [of "SFPacket_with_id pid" "F_BYTE v"]
    by (auto simp: field_ok_def payload_def)
  have "sp_data ?p = v # replicate 8179 0"
    by (simp add: put_BYTE_def write_data_def GetPacketSize_def SetDataSize_def SFPacket_with_id_def
        SFPacket_new_def Initialize_def mem_write_def GetDataSize_def header_Clear_def)
  also have "\<dots> = [v] @ 0 # 0 # replicate 8177 0"
    by (simp add: numeral_eq_Suc flip: replicate_Suc)
  finally have u: "unread (ReadStart ?p) = [v] @ 0 # 0 # replicate 8177 0"
    using unread_ReadStart [OF w(1)] w by (simp add: unread_def ReadStart_def)
  obtain p1 where p1: "get_string (ReadStart ?p) = Some (Some [v], p1)" "packet_ok p1"
    "unread p1 = 0 # replicate 8177 0"
    using get_string_ok [OF ReadStart_ok [OF w(1)] _ u] assms by auto
  obtain p2 where "read_data 1 p1 = (Some [0], p2)"
    using read_data_ok [OF p1(2), of "[0]" "replicate 8177 0"] p1(3) by auto
  moreover have "put_string [] (SFPacket_with_id pid) = SFPacket_with_id pid"
    by (simp add: put_string_def)
  ultimately show ?thesis using p1(1) by (simp add: get_BYTE_def)
qed

theorem empty_string_lost_witness:
  "map_option fst (get_fields (map kind [F_STR [], F_BYTE 7])
      (ReadStart (fold put_field [F_STR [], F_BYTE 7] (SFPacket_with_id 1))))
    = Some [Some (F_STR [7]), Some (F_BYTE 0)]"
  by (rule empty_string_lost) simp

end
