(* ===== verification/PacketCodec.thy ===== *)
theory PacketCodec
  imports Packet LzfRoundtrip
begin

text \<open>
  \<open>SFPacket::Encode\<close> and \<open>SFPacket::Decode\<close> (EngineLayer/SFPacket.cpp) with the transforms they
  call: \<open>SFEncryptionXOR\<close> and \<open>SFCompressLzf\<close> (BaseLayer), reached through the templates
  \<open>SFEncrytion<T>\<close> and \<open>SFCompressor<T>\<close>, which are the interfaces \<open>cipher\<close> and
  \<open>compressor\<close> below. zlib's \<open>crc32\<close> is not part of the repository: it is a parameter.

  \<open>None\<close> is undefined behaviour: an access outside a buffer.
\<close>

section \<open>SFEncryptionXOR\<close>

definition ENCRYPTION_KEY :: u32 where "ENCRYPTION_KEY = 0xAFB7E3D9"

fun xor_words :: "u8 list \<Rightarrow> u8 list" where
  \<comment> \<open>the loop over the whole \<open>DWORD\<close>s; the last \<open>Length % 4\<close> bytes are left alone\<close>
  "xor_words (a # b # c # d # rest) =
     le32 (un_le32 [a, b, c, d] XOR ENCRYPTION_KEY) @ xor_words rest"
| "xor_words rest = rest"

definition XOR_Encrypt :: "u8 list \<Rightarrow> u8 list" where
  "XOR_Encrypt bs = xor_words bs"

definition XOR_Decrypt :: "u8 list \<Rightarrow> u8 list" where
  "XOR_Decrypt bs = xor_words bs"

lemma length_xor_words [simp]: "length (xor_words bs) = length bs"
  by (induction bs rule: xor_words.induct) auto

lemma le32_split: "\<exists>a b c d. le32 w = [a, b, c, d]"
  by (simp add: le32_def)

lemma xor_words_le32: "xor_words (le32 w @ rest) = le32 (w XOR ENCRYPTION_KEY) @ xor_words rest"
proof -
  obtain a b c d where w: "le32 w = [a, b, c, d]" using le32_split by blast
  then have "un_le32 [a, b, c, d] = w" using un_le32_id [of w] by simp
  then show ?thesis by (simp add: w)
qed

lemma xor_words_xor_words [simp]: "xor_words (xor_words bs) = bs"
proof (induction bs rule: xor_words.induct)
  case (1 a b c d rest)
  have "le32 (un_le32 [a, b, c, d]) = [a, b, c, d]" by (rule le32_un_le32) simp
  then show ?case using 1 by (simp add: xor_words_le32 xor.assoc del: un_le32.simps)
qed auto

text \<open>The interface of \<open>SFEncrytion<T>\<close>: a length-preserving cipher.\<close>

locale cipher =
  fixes enc :: "u8 list \<Rightarrow> u8 list" and dec :: "u8 list \<Rightarrow> u8 list"
  assumes dec_enc: "dec (enc bs) = bs" and length_enc: "length (enc bs) = length bs"
begin

lemma enc_inj: "enc a = enc b \<longleftrightarrow> a = b"
  using dec_enc by metis

lemma enc_nil [simp]: "enc bs = [] \<longleftrightarrow> bs = []"
  using length_enc [of bs] by auto

end

interpretation xor_cipher: cipher XOR_Encrypt XOR_Decrypt
  by unfold_locales (simp_all add: XOR_Encrypt_def XOR_Decrypt_def)

section \<open>SFCompressLzf\<close>

text \<open>The returned truth value, the new \<open>DestLen\<close> and the bytes written at \<open>pDest\<close>.\<close>

definition Lzf_Compress :: "(nat \<Rightarrow> int) \<Rightarrow> u8 list \<Rightarrow> nat \<Rightarrow> (bool \<times> nat \<times> u8 list) option" where
  "Lzf_Compress htab src DestLen = (case lzf_compress htab src DestLen of
     None \<Rightarrow> None
   | Some bs \<Rightarrow> Some (length bs > 0, length bs, bs))"

definition Lzf_Uncompress :: "u8 list \<Rightarrow> nat \<Rightarrow> (bool \<times> nat \<times> u8 list) option" where
  "Lzf_Uncompress src DestLen = (case lzf_decompress src DestLen of
     None \<Rightarrow> None
   | Some (Inl (e, bs)) \<Rightarrow> Some (False, 0, bs)
   | Some (Inr bs) \<Rightarrow> Some (length bs > 0, length bs, bs))"

text \<open>The interface of \<open>SFCompressor<T>\<close>, for the inputs the packet layer hands it. The first
  argument of \<open>comp\<close> is the content of its uninitialised working memory.\<close>

locale compressor =
  fixes env_ok :: "'e \<Rightarrow> bool" and src_ok :: "u8 list \<Rightarrow> bool"
    and comp :: "'e \<Rightarrow> u8 list \<Rightarrow> nat \<Rightarrow> (bool \<times> nat \<times> u8 list) option"
    and uncomp :: "u8 list \<Rightarrow> nat \<Rightarrow> (bool \<times> nat \<times> u8 list) option"
  assumes comp_safe: "\<lbrakk>env_ok e; src_ok src\<rbrakk> \<Longrightarrow>
      \<exists>r c. comp e src n = Some (r, length c, c) \<and> length c \<le> n \<and> (r \<longleftrightarrow> c \<noteq> [])"
    and uncomp_comp: "\<lbrakk>env_ok e; src_ok src; comp e src n = Some (True, k, c); length src \<le> m\<rbrakk> \<Longrightarrow>
      uncomp c m = Some (True, length src, src)"
    and uncomp_safe: "c \<noteq> [] \<Longrightarrow> \<exists>r k out. uncomp c m = Some (r, k, out) \<and> length out \<le> m \<and>
      (r \<longrightarrow> k = length out)"

text \<open>Both transforms in the order \<open>Encode\<close> applies them.\<close>

locale payload_codec = cipher enc dec + compressor env_ok src_ok comp uncomp
  for enc dec and env_ok :: "'e \<Rightarrow> bool" and src_ok comp uncomp
begin

lemma codec_roundtrip:
  assumes "env_ok e" "src_ok src" "comp e src n = Some (True, k, c)" "length src \<le> m"
  shows "uncomp (dec (enc c)) m = Some (True, length src, src)"
  using uncomp_comp [OF assms] by (simp add: dec_enc)

lemma codec_length:
  assumes "env_ok e" "src_ok src" "comp e src n = Some (True, k, c)"
  shows "length c = k" "length (enc c) = k" "k \<le> n" "0 < k"
  using comp_safe [OF assms(1,2), of n] assms(3) by (auto simp: length_enc)

end

definition lzf_src_ok :: "u8 list \<Rightarrow> bool" where
  "lzf_src_ok src \<longleftrightarrow> 2 \<le> length src \<and> length src < 2 ^ 32"

interpretation packet_codec:
  payload_codec XOR_Encrypt XOR_Decrypt htab_ok lzf_src_ok Lzf_Compress Lzf_Uncompress
proof unfold_locales
  fix htab src n assume h: "htab_ok htab" and s: "lzf_src_ok src"
  obtain c where "lzf_compress htab src n = Some c" "length c \<le> n"
    using lzf_compress_tokens [OF h, of src n] s by (auto simp: lzf_src_ok_def)
  then show "\<exists>r c. Lzf_Compress htab src n = Some (r, length c, c) \<and> length c \<le> n \<and> (r \<longleftrightarrow> c \<noteq> [])"
    by (auto simp: Lzf_Compress_def)
next
  fix htab src n k c m
  assume h: "htab_ok htab" and s: "lzf_src_ok src"
    and c: "Lzf_Compress htab src n = Some (True, k, c)" and m: "length src \<le> m"
  have c': "lzf_compress htab src n = Some c" "c \<noteq> []"
    using c by (auto simp: Lzf_Compress_def split: option.splits)
  then obtain ts where ts: "c = enc ts" "toks_ok [] ts" "expand [] ts = src"
    using lzf_compress_tokens [OF h, of src n] s by (auto simp: lzf_src_ok_def)
  then have "ts \<noteq> []" using c' by auto
  from decompress_loop_toks [OF this ts(2), of m "[]"] have "lzf_decompress c m = Some (Inr src)"
    using ts m by (simp add: lzf_decompress_def)
  moreover have "src \<noteq> []" using s by (auto simp: lzf_src_ok_def)
  ultimately show "Lzf_Uncompress c m = Some (True, length src, src)"
    by (simp add: Lzf_Uncompress_def)
next
  fix c :: "u8 list" and m assume "c \<noteq> []"
  then show "\<exists>r k out. Lzf_Uncompress c m = Some (r, k, out) \<and> length out \<le> m \<and>
      (r \<longrightarrow> k = length out)"
    using decompress_loop_safe [of 0 c "[]" m]
    by (auto simp: Lzf_Uncompress_def lzf_decompress_def split: sum.splits)
qed

section \<open>Encode\<close>

definition PACKET_COMPRESS_LIMIT :: nat where "PACKET_COMPRESS_LIMIT = 1024"
definition PACKETIO_ERROR_DATA_CRC :: int where "PACKETIO_ERROR_DATA_CRC = -3"
definition PACKETIO_ERROR_DATA_COMPRESS :: int where "PACKETIO_ERROR_DATA_COMPRESS = -4"

definition set_payload :: "u8 list \<Rightarrow> sfpacket \<Rightarrow> sfpacket" where
  \<comment> \<open>overwrite the first bytes of the data area\<close>
  "set_payload bs p = p\<lparr>sp_data := mem_write 0 bs (sp_data p)\<rparr>"

definition encode_compress :: "(nat \<Rightarrow> int) \<Rightarrow> u16 \<Rightarrow> sfpacket \<Rightarrow> u32 \<Rightarrow>
    (bool \<times> sfpacket \<times> u32) option" where
  \<comment> \<open>\<open>pDestBuf\<close> has \<open>MAX_PACKET_SIZE\<close> bytes: a larger (or negative) bound is undefined behaviour\<close>
  "encode_compress htab packetSize p opt =
     (if opt AND PACKET_OPTION_COMPRESS \<noteq> 0 \<and> GetDataSize p \<ge> PACKET_COMPRESS_LIMIT
      then if unat packetSize < HEADER_SIZE \<or> unat packetSize - HEADER_SIZE > MAX_PACKET_SIZE
        then None
        else (case Lzf_Compress htab (payload p) (unat packetSize - HEADER_SIZE) of
            None \<Rightarrow> None
          | Some (r, destSize, bs) \<Rightarrow>
              if \<not> r then Some (False, p, opt)
              else if destSize > DATA_AREA then None
              else Some (True, SetDataSize (of_nat destSize) (set_payload bs p), opt))
      else Some (True, p, opt AND NOT PACKET_OPTION_COMPRESS))"

definition encode_encrypt :: "sfpacket \<Rightarrow> u32 \<Rightarrow> sfpacket" where
  "encode_encrypt p opt =
     (if opt AND PACKET_OPTION_ENCRYPTION \<noteq> 0 then set_payload (XOR_Encrypt (payload p)) p else p)"

definition encode_crc :: "(u32 \<Rightarrow> u8 list \<Rightarrow> u32) \<Rightarrow> sfpacket \<Rightarrow> u32 \<Rightarrow> sfpacket" where
  "encode_crc crc32 p opt =
     (if opt AND PACKET_OPTION_DATACRC \<noteq> 0
      then p\<lparr>m_pHeader := (m_pHeader p)\<lparr>dataCRC := crc32 0 (payload p)\<rparr>\<rparr> else p)"

definition Encode :: "(u32 \<Rightarrow> u8 list \<Rightarrow> u32) \<Rightarrow> (nat \<Rightarrow> int) \<Rightarrow> sfpacket \<Rightarrow> u16 \<Rightarrow> u32 \<Rightarrow>
    (bool \<times> sfpacket) option" where
  "Encode crc32 htab p packetSize opt =
     (if m_bEncoded p then Some (True, p)
      else if GetDataSize p > DATA_AREA then Some (False, p)
      else if GetDataSize p = 0 then Some (True, p)
      else case encode_compress htab packetSize p opt of
          None \<Rightarrow> None
        | Some (ok, p1, opt1) \<Rightarrow>
            if \<not> ok then Some (False, p1)
            else let p2 = encode_encrypt p1 opt1; p3 = encode_crc crc32 p2 opt1
                 in Some (True, p3\<lparr>m_pHeader := header_SetPacketOption opt1 (m_pHeader p3),
                                   m_bEncoded := True\<rparr>))"

section \<open>Decode\<close>

definition packet_CheckDataCRC :: "(u32 \<Rightarrow> u8 list \<Rightarrow> u32) \<Rightarrow> sfpacket \<Rightarrow> bool" where
  "packet_CheckDataCRC crc32 p \<longleftrightarrow> crc32 0 (payload p) = dataCRC (m_pHeader p)"

definition decode_uncompress :: "u16 \<Rightarrow> int \<Rightarrow> sfpacket \<Rightarrow> (bool \<times> int \<times> sfpacket) option" where
  \<comment> \<open>with no data the control byte read is the zero of \<open>pSrcBuf\<close>, a literal run of one that
    the \<open>in_end\<close> check refuses; a write past the data area is undefined behaviour\<close>
  "decode_uncompress packetSize err p =
     (if GetDataSize p = 0
      then Some (False, PACKETIO_ERROR_DATA_COMPRESS, p\<lparr>sp_data := replicate DATA_AREA 0\<rparr>)
      else case Lzf_Uncompress (payload p) (unat packetSize) of
          None \<Rightarrow> None
        | Some (r, destSize, out) \<Rightarrow>
            if length out > DATA_AREA then None
            else let p1 = p\<lparr>sp_data := out @ replicate (DATA_AREA - length out) 0\<rparr>
                 in if \<not> r then Some (False, PACKETIO_ERROR_DATA_COMPRESS, p1)
                    else if destSize + HEADER_SIZE > unat packetSize
                    then Some (False, PACKETIO_ERROR_DATA_COMPRESS, p1)
                    else Some (True, err, SetDataSize (of_nat destSize) p1))"

definition Decode :: "(u32 \<Rightarrow> u8 list \<Rightarrow> u32) \<Rightarrow> sfpacket \<Rightarrow> u16 \<Rightarrow> int \<Rightarrow>
    (bool \<times> int \<times> sfpacket) option" where
  \<comment> \<open>a data size beyond the block makes every one of the three steps read past it\<close>
  "Decode crc32 p packetSize err =
     (let h = m_pHeader p
      in if (header_CheckDataCRC h \<or> header_CheckEncryption h \<or> header_CheckCompressed h) \<and>
            GetDataSize p > DATA_AREA then None
         else if header_CheckDataCRC h \<and> \<not> packet_CheckDataCRC crc32 p
         then Some (False, PACKETIO_ERROR_DATA_CRC, p)
         else
           let p1 = (if header_CheckEncryption h then set_payload (XOR_Decrypt (payload p)) p else p)
           in if header_CheckCompressed h
              then case decode_uncompress packetSize err p1 of
                  None \<Rightarrow> None
                | Some (ok, e, p2) \<Rightarrow>
                    if ok then Some (True, e, p2\<lparr>m_packetID := packetID h\<rparr>) else Some (False, e, p2)
              else Some (True, err, p1\<lparr>m_packetID := packetID h\<rparr>))"

section \<open>Encode never faults and Decode inverts it\<close>

lemma set_payload_simps [simp]:
  "m_pHeader (set_payload bs p) = m_pHeader p" "GetDataSize (set_payload bs p) = GetDataSize p"
  "m_bEncoded (set_payload bs p) = m_bEncoded p"
  by (simp_all add: set_payload_def GetDataSize_def)

lemma SetDataSize_simps [simp]:
  "sp_data (SetDataSize n p) = sp_data p" "GetDataSize (SetDataSize n p) = unat n"
  "m_pHeader (SetDataSize n p) = (m_pHeader p)\<lparr>dataSize := n\<rparr>"
  "m_usCurrentReadPosition (SetDataSize n p) = m_usCurrentReadPosition p"
  by (simp_all add: SetDataSize_def GetDataSize_def)

lemma unat_of_nat16: "n \<le> 8192 \<Longrightarrow> unat (of_nat n :: u16) = n"
  by (simp add: unat_of_nat)

lemma set_payload_ok:
  assumes "packet_ok p" "length bs = GetDataSize p"
  shows "packet_ok (set_payload bs p)" and "payload (set_payload bs p) = bs"
proof -
  show "packet_ok (set_payload bs p)"
    using assms by (simp add: packet_ok_def set_payload_def mem_write_def GetDataSize_def)
  have "payload (set_payload bs p) = take (GetDataSize p) (sp_data (set_payload bs p))"
    unfolding payload_def by simp
  then show "payload (set_payload bs p) = bs"
    using assms by (simp add: set_payload_def mem_write_def)
qed

lemma resize_payload_ok:
  assumes "packet_ok p" "length bs = n" "n \<le> 8180"
  shows "packet_ok (SetDataSize (of_nat n) (set_payload bs p))"
    and "payload (SetDataSize (of_nat n) (set_payload bs p)) = bs"
proof -
  have n: "unat (of_nat n :: u16) = n" using assms(3) by (intro unat_of_nat16) simp
  show "packet_ok (SetDataSize (of_nat n) (set_payload bs p))"
    using assms n by (simp add: packet_ok_def set_payload_def mem_write_def)
  show "payload (SetDataSize (of_nat n) (set_payload bs p)) = bs"
    using assms n by (simp add: payload_def set_payload_def mem_write_def)
qed

lemma crc_simps [simp]:
  "payload (encode_crc crc32 p opt) = payload p" "packet_ok (encode_crc crc32 p opt) = packet_ok p"
  "GetDataSize (encode_crc crc32 p opt) = GetDataSize p"
  by (simp_all add: encode_crc_def payload_def packet_ok_def GetDataSize_def)

lemma encrypt_ok:
  assumes "packet_ok p"
  shows "packet_ok (encode_encrypt p opt)"
    and "payload (encode_encrypt p opt) =
      (if opt AND PACKET_OPTION_ENCRYPTION \<noteq> 0 then XOR_Encrypt (payload p) else payload p)"
    and "m_pHeader (encode_encrypt p opt) = m_pHeader p"
  using set_payload_ok [OF assms, of "XOR_Encrypt (payload p)"] assms
  by (auto simp: encode_encrypt_def xor_cipher.length_enc)

text \<open>The compression step: total, and what it leaves can be undone.\<close>

lemma compress_step_spec:
  assumes ok: "packet_ok p" and h: "htab_ok htab" and ps: "12 \<le> unat packetSize" "unat packetSize \<le> 8192"
  shows "\<exists>r p1 opt1. encode_compress htab packetSize p opt = Some (r, p1, opt1) \<and> packet_ok p1 \<and>
    (r \<longrightarrow> packetID (m_pHeader p1) = packetID (m_pHeader p) \<and>
      (if opt1 AND PACKET_OPTION_COMPRESS \<noteq> 0
       then GetDataSize p1 + 12 \<le> unat packetSize \<and> 0 < GetDataSize p1 \<and>
         lzf_src_ok (payload p) \<and> (\<exists>n k. Lzf_Compress htab (payload p) n = Some (True, k, payload p1))
       else p1 = p))"
proof (cases "opt AND PACKET_OPTION_COMPRESS \<noteq> 0 \<and> GetDataSize p \<ge> PACKET_COMPRESS_LIMIT")
  case True
  have s: "lzf_src_ok (payload p)"
  proof -
    have "1024 \<le> GetDataSize p" "GetDataSize p \<le> 8180"
      using True ok by (simp_all add: PACKET_COMPRESS_LIMIT_def packet_ok_def)
    then show ?thesis using length_payload [OF ok] by (simp add: lzf_src_ok_def)
  qed
  let ?n = "unat packetSize - 12"
  obtain r c where c: "Lzf_Compress htab (payload p) ?n = Some (r, length c, c)" "length c \<le> ?n"
    "r \<longleftrightarrow> c \<noteq> []"
    using packet_codec.comp_safe [OF h s, of ?n] by blast
  show ?thesis
  proof (cases r)
    case r: True
    have len: "length c \<le> 8180" using c(2) ps by simp
    have n: "unat (of_nat (length c) :: u16) = length c" using len by (intro unat_of_nat16) simp
    note rz = resize_payload_ok [OF ok refl len]
    have e: "encode_compress htab packetSize p opt =
        Some (True, SetDataSize (of_nat (length c)) (set_payload c p), opt)"
      using True ps c(1) r len by (simp add: encode_compress_def)
    have pos: "0 < length c" using c(3) r by simp
    have cs: "Lzf_Compress htab (payload p) ?n = Some (True, length c, c)" using c(1) r by simp
    have fit: "length c + 12 \<le> unat packetSize" using c(2) ps by simp
    define P where "P = SetDataSize (of_nat (length c)) (set_payload c p)"
    have P: "packet_ok P" "payload P = c" "GetDataSize P = length c"
      "packetID (m_pHeader P) = packetID (m_pHeader p)"
      using rz n by (simp_all add: P_def)
    show ?thesis
    proof (intro exI conjI impI)
      show "encode_compress htab packetSize p opt = Some (True, P, opt)" unfolding P_def by (rule e)
      show "if opt AND PACKET_OPTION_COMPRESS \<noteq> 0
        then GetDataSize P + 12 \<le> unat packetSize \<and> 0 < GetDataSize P \<and>
          lzf_src_ok (payload p) \<and> (\<exists>n k. Lzf_Compress htab (payload p) n = Some (True, k, payload P))
        else P = p"
        unfolding if_P [OF conjunct1 [OF True]] P using pos fit cs s by blast
    qed (rule P)+
  next
    case False
    have "encode_compress htab packetSize p opt = Some (False, p, opt)"
      using True ps c(1) False by (simp add: encode_compress_def)
    then show ?thesis using ok by blast
  qed
next
  case False
  have "(opt AND NOT PACKET_OPTION_COMPRESS) AND PACKET_OPTION_COMPRESS = 0"
    by (simp add: and.assoc)
  moreover have "encode_compress htab packetSize p opt =
      Some (True, p, opt AND NOT PACKET_OPTION_COMPRESS)"
    unfolding encode_compress_def if_not_P [OF False] ..
  ultimately show ?thesis
    using ok by (intro exI [of _ True] exI [of _ p] exI [of _ "opt AND NOT PACKET_OPTION_COMPRESS"]) simp
qed

text \<open>What \<open>Encode\<close> leaves in a packet with data, and that it never faults.\<close>

lemma Encode_total:
  assumes ok: "packet_ok p" and h: "htab_ok htab" and ps: "12 \<le> unat packetSize" "unat packetSize \<le> 8192"
  shows "\<exists>r p'. Encode crc32 htab p packetSize opt = Some (r, p') \<and> packet_ok p'"
proof -
  obtain r p1 opt1 where "encode_compress htab packetSize p opt = Some (r, p1, opt1)" "packet_ok p1"
    using compress_step_spec [OF ok h ps, of opt] by blast
  moreover from this(2) have "packet_ok (encode_crc crc32 (encode_encrypt p1 opt1) opt1)"
    by (simp add: encrypt_ok)
  then have "packet_ok (encode_crc crc32 (encode_encrypt p1 opt1) opt1
      \<lparr>m_pHeader := header_SetPacketOption opt1 (m_pHeader (encode_crc crc32 (encode_encrypt p1 opt1) opt1)),
       m_bEncoded := True\<rparr>)"
    by (simp add: packet_ok_def GetDataSize_def header_SetPacketOption_def)
  ultimately show ?thesis using ok by (cases r) (auto simp: Encode_def Let_def)
qed

lemma Encode_success:
  assumes ok: "packet_ok p" and h: "htab_ok htab" and ps: "12 \<le> unat packetSize" "unat packetSize \<le> 8192"
    and ne: "\<not> m_bEncoded p" "0 < GetDataSize p"
    and enc: "Encode crc32 htab p packetSize opt = Some (True, p')"
  obtains p1 opt1 where "encode_compress htab packetSize p opt = Some (True, p1, opt1)"
    and "packet_ok p'" "payload p' =
      (if opt1 AND PACKET_OPTION_ENCRYPTION \<noteq> 0 then XOR_Encrypt (payload p1) else payload p1)"
    and "packetOption (m_pHeader p') = opt1" "packetID (m_pHeader p') = packetID (m_pHeader p1)"
    and "opt1 AND PACKET_OPTION_DATACRC \<noteq> 0 \<Longrightarrow> dataCRC (m_pHeader p') = crc32 0 (payload p')"
proof -
  obtain r p1 opt1 where c: "encode_compress htab packetSize p opt = Some (r, p1, opt1)" "packet_ok p1"
    using compress_step_spec [OF ok h ps, of opt] by blast
  have sz: "\<not> GetDataSize p > DATA_AREA" using ok by (simp add: packet_ok_def)
  have r: "r" using enc c(1) ne sz by (simp add: Encode_def split: if_splits)
  let ?p2 = "encode_encrypt p1 opt1"
  let ?p3 = "encode_crc crc32 ?p2 opt1"
  have p': "p' = ?p3\<lparr>m_pHeader := header_SetPacketOption opt1 (m_pHeader ?p3), m_bEncoded := True\<rparr>"
    using enc c(1) ne sz r by (simp add: Encode_def Let_def)
  note e = encrypt_ok [OF c(2), of opt1]
  have pay: "payload p' = payload ?p2"
    unfolding p' crc_simps(1) [of crc32 ?p2 opt1, symmetric]
    by (simp add: payload_def GetDataSize_def header_SetPacketOption_def)
  have "packet_ok p' = packet_ok ?p3"
    unfolding p' by (simp add: packet_ok_def GetDataSize_def header_SetPacketOption_def)
  then have "packet_ok p'" using e(1) by simp
  moreover have "packetOption (m_pHeader p') = opt1"
    by (simp add: p' header_SetPacketOption_def)
  moreover have "packetID (m_pHeader p') = packetID (m_pHeader p1)"
    by (simp add: p' header_SetPacketOption_def encode_crc_def e(3))
  moreover have "opt1 AND PACKET_OPTION_DATACRC \<noteq> 0 \<Longrightarrow> dataCRC (m_pHeader p') = crc32 0 (payload p')"
    unfolding pay by (simp add: p' header_SetPacketOption_def encode_crc_def)
  ultimately show thesis using that c(1) r pay e(2) by simp
qed

lemma decode_uncompress_ok:
  assumes q: "packet_ok q" "0 < GetDataSize q"
    and u: "Lzf_Uncompress (payload q) (unat packetSize) = Some (True, length src, src)"
    and fit: "length src + 12 \<le> unat packetSize" "length src \<le> 8180"
  shows "\<exists>q'. decode_uncompress packetSize err q = Some (True, err, q') \<and> packet_ok q' \<and>
    payload q' = src"
proof -
  let ?q = "SetDataSize (of_nat (length src)) (q\<lparr>sp_data := src @ replicate (DATA_AREA - length src) 0\<rparr>)"
  have n: "unat (of_nat (length src) :: u16) = length src" using fit(2) by (intro unat_of_nat16) simp
  have "decode_uncompress packetSize err q = Some (True, err, ?q)"
    using q u fit by (simp add: decode_uncompress_def)
  moreover have "packet_ok ?q" using q n fit by (simp add: packet_ok_def)
  moreover have "payload ?q = src" using n by (simp add: payload_def)
  ultimately show ?thesis by blast
qed

lemma Decode_Encode:
  assumes ok: "packet_ok p" and h: "htab_ok htab" and ps: "unat packetSize \<le> 8192"
    and ne: "\<not> m_bEncoded p" "0 < GetDataSize p" and fit: "GetDataSize p + 12 \<le> unat packetSize"
    and enc: "Encode crc32 htab p packetSize opt = Some (True, p')"
    and q: "packet_ok q" "m_pHeader q = m_pHeader p'" "payload q = payload p'"
  shows "\<exists>q'. Decode crc32 q packetSize err = Some (True, err, q') \<and> packet_ok q' \<and>
    payload q' = payload p \<and> m_packetID q' = packetID (m_pHeader p)"
proof -
  have ps12: "12 \<le> unat packetSize" using fit by simp
  obtain p1 opt1 where c: "encode_compress htab packetSize p opt = Some (True, p1, opt1)"
    and p': "packet_ok p'" "payload p' =
      (if opt1 AND PACKET_OPTION_ENCRYPTION \<noteq> 0 then XOR_Encrypt (payload p1) else payload p1)"
    "packetOption (m_pHeader p') = opt1" "packetID (m_pHeader p') = packetID (m_pHeader p1)"
    "opt1 AND PACKET_OPTION_DATACRC \<noteq> 0 \<Longrightarrow> dataCRC (m_pHeader p') = crc32 0 (payload p')"
    using Encode_success [OF ok h ps12 ps ne enc] by blast
  have s: "packetID (m_pHeader p1) = packetID (m_pHeader p)"
    "if opt1 AND PACKET_OPTION_COMPRESS \<noteq> 0
     then 0 < GetDataSize p1 \<and> lzf_src_ok (payload p) \<and>
       (\<exists>n k. Lzf_Compress htab (payload p) n = Some (True, k, payload p1))
     else p1 = p"
    "packet_ok p1"
    using compress_step_spec [OF ok h ps12 ps, of opt] c by (auto split: if_splits)
  define q1 where "q1 = (if header_CheckEncryption (m_pHeader q)
    then set_payload (XOR_Decrypt (payload q)) q else q)"
  have lq: "length (XOR_Decrypt (payload q)) = GetDataSize q"
    using q(1) by (simp add: XOR_Decrypt_def)
  have q1: "packet_ok q1" "payload q1 = payload p1"
    using q p' set_payload_ok [OF q(1), of "XOR_Decrypt (payload q)"] lq
    by (auto simp: q1_def header_CheckEncryption_def xor_cipher.dec_enc)
  have area: "\<not> GetDataSize q > DATA_AREA" using q(1) by (simp add: packet_ok_def)
  have crc: "\<not> (header_CheckDataCRC (m_pHeader q) \<and> \<not> packet_CheckDataCRC crc32 q)"
    using p'(5) unfolding header_CheckDataCRC_def packet_CheckDataCRC_def q(2,3) p'(3) by metis
  have id: "packetID (m_pHeader q) = packetID (m_pHeader p)" using q p' s by simp
  have dec: "Decode crc32 q packetSize err = (if header_CheckCompressed (m_pHeader q)
      then case decode_uncompress packetSize err q1 of None \<Rightarrow> None
         | Some (ok, e, p2) \<Rightarrow> if ok then Some (True, e, p2\<lparr>m_packetID := packetID (m_pHeader q)\<rparr>)
             else Some (False, e, p2)
      else Some (True, err, q1\<lparr>m_packetID := packetID (m_pHeader q)\<rparr>))"
    using area crc by (simp only: Decode_def Let_def q1_def [symmetric] simp_thms if_False)
  have upd: "packet_ok (x\<lparr>m_packetID := i\<rparr>) = packet_ok x" "payload (x\<lparr>m_packetID := i\<rparr>) = payload x"
    for x :: sfpacket and i
    by (simp_all add: packet_ok_def payload_def GetDataSize_def)
  show ?thesis
  proof (cases "header_CheckCompressed (m_pHeader q)")
    case True
    then have "opt1 AND PACKET_OPTION_COMPRESS \<noteq> 0" using q p' by (simp add: header_CheckCompressed_def)
    then obtain n k where z: "lzf_src_ok (payload p)" "0 < GetDataSize p1"
      "Lzf_Compress htab (payload p) n = Some (True, k, payload p1)"
      using s by auto
    have len: "length (payload p) = GetDataSize p" "length (payload p1) = GetDataSize p1"
      "length (payload q1) = GetDataSize q1" "GetDataSize p \<le> 8180"
      using length_payload [OF ok] length_payload [OF s(3)] length_payload [OF q1(1)] ok
      by (simp_all add: packet_ok_def)
    have "Lzf_Uncompress (payload q1) (unat packetSize) = Some (True, length (payload p), payload p)"
      unfolding q1(2) using packet_codec.uncomp_comp [OF h z(1,3)] fit len by simp
    then obtain q' where "decode_uncompress packetSize err q1 = Some (True, err, q')" "packet_ok q'"
      "payload q' = payload p"
      using decode_uncompress_ok [OF q1(1)] z(2) fit len q1(2) by fastforce
    then show ?thesis using True id unfolding dec by (simp add: upd)
  next
    case False
    then have "p1 = p" using s q p' by (simp add: header_CheckCompressed_def)
    then show ?thesis using False q1 id unfolding dec by (simp add: upd)
  qed
qed

lemma decode_uncompress_safe:
  assumes q: "packet_ok q" and ps: "unat packetSize \<le> 8180"
  shows "\<exists>r e q'. decode_uncompress packetSize err q = Some (r, e, q') \<and> packet_ok q'"
proof (cases "GetDataSize q = 0")
  case True
  then show ?thesis using q by (auto simp: decode_uncompress_def packet_ok_def GetDataSize_def)
next
  case False
  have "payload q \<noteq> []" using False length_payload [OF q] by auto
  then obtain r k out where u: "Lzf_Uncompress (payload q) (unat packetSize) = Some (r, k, out)"
    "length out \<le> unat packetSize" "r \<longrightarrow> k = length out"
    using packet_codec.uncomp_safe by blast
  have fit: "length out \<le> 8180" using u(2) ps by simp
  define q1 where "q1 = q\<lparr>sp_data := out @ replicate (DATA_AREA - length out) 0\<rparr>"
  have q1: "packet_ok q1" using q fit by (simp add: packet_ok_def q1_def GetDataSize_def)
  have n: "unat (of_nat (length out) :: u16) = length out" using fit by (intro unat_of_nat16) simp
  have "packet_ok (SetDataSize (of_nat (length out)) q1)"
    using q1 n fit by (simp add: packet_ok_def)
  moreover have "decode_uncompress packetSize err q =
      (if \<not> r then Some (False, PACKETIO_ERROR_DATA_COMPRESS, q1)
       else if k + HEADER_SIZE > unat packetSize then Some (False, PACKETIO_ERROR_DATA_COMPRESS, q1)
       else Some (True, err, SetDataSize (of_nat k) q1))"
    using False u(1) fit by (simp add: decode_uncompress_def q1_def)
  ultimately show ?thesis using q1 u(3) by (cases r) auto
qed

lemma expand_replicate_back:
  "out \<noteq> [] \<Longrightarrow> length (expand out (replicate k (Back 0 264))) = length out + k * 264 \<and>
    toks_ok out (replicate k (Back 0 264))"
proof (induction k arbitrary: out)
  case (Suc k)
  have "ext_tok out (Back 0 264) \<noteq> []" using Suc.prems by (auto simp flip: length_greater_0_conv)
  from Suc.IH [OF this] show ?case using Suc.prems by simp
qed simp

section \<open>Properties\<close>

lemma packet_wire_inj:
  assumes "packet_wire q = packet_wire p"
  shows "m_pHeader q = m_pHeader p" and "payload q = payload p"
proof -
  have "header_of (packet_wire q) = header_of (packet_wire p)" using assms by simp
  then show "m_pHeader q = m_pHeader p" by (simp add: packet_wire_def)
  then show "payload q = payload p" using assms by (simp add: packet_wire_def payload_def)
qed

text \<open>C3: Encode and Decode are inverse across the wire: for every packet whose data and header fit the
  protocol's packet size (8192 at most), every option combination (compression, encryption, CRC
  in any mix) and every CRC function, what the receiver decodes from the same bytes is the
  sender's data, and the packet id is the one the sender set.\<close>

theorem encode_decode_roundtrip:
  assumes "packet_ok p" "htab_ok htab" "unat packetSize \<le> 8192" "\<not> m_bEncoded p"
    and "0 < GetDataSize p" "GetDataSize p + 12 \<le> unat packetSize"
    and "Encode crc32 htab p packetSize opt = Some (True, p')"
    and "packet_ok q" "packet_wire q = packet_wire p'"
  shows "\<exists>q'. Decode crc32 q packetSize err = Some (True, err, q') \<and>
    payload q' = payload p \<and> m_packetID q' = packetID (m_pHeader p)"
  using Decode_Encode [OF assms(1-8)] packet_wire_inj [OF assms(9)] by blast

definition demo_packet :: sfpacket where
  "demo_packet = write_data [1, 2, 3, 4, 5] (SFPacket_with_id 77)"

lemma demo_packet_ok: "packet_ok demo_packet" "GetDataSize demo_packet = 5" "\<not> m_bEncoded demo_packet"
  "packetID (m_pHeader demo_packet) = 77" "payload demo_packet = [1, 2, 3, 4, 5]"
proof -
  note w = write_data_ok [of "SFPacket_with_id 77" "[1, 2, 3, 4, 5]"]
  show "packet_ok demo_packet" "GetDataSize demo_packet = 5" using w by (simp_all add: demo_packet_def)
  show "payload demo_packet = [1, 2, 3, 4, 5]"
    using w by (simp add: demo_packet_def payload_def)
  show "\<not> m_bEncoded demo_packet" "packetID (m_pHeader demo_packet) = 77"
    by (simp_all add: demo_packet_def write_data_def GetPacketSize_def SetDataSize_def
        SFPacket_with_id_def SFPacket_new_def Initialize_def)
qed

theorem encode_decode_roundtrip_witness:
  "\<exists>p' q'. Encode (\<lambda>_ bs. of_nat (length bs)) (\<lambda>_. 0) demo_packet 4096 5 = Some (True, p') \<and>
    Decode (\<lambda>_ bs. of_nat (length bs)) p' 4096 0 = Some (True, 0, q') \<and>
    payload q' = payload demo_packet \<and> m_packetID q' = packetID (m_pHeader demo_packet)"
proof -
  have h: "htab_ok (\<lambda>_. 0)" by simp
  obtain p' where e: "Encode (\<lambda>_ bs. of_nat (length bs)) (\<lambda>_. 0) demo_packet 4096 5 = Some (True, p')"
    using demo_packet_ok(2,3)
    by (simp add: Encode_def encode_compress_def PACKET_COMPRESS_LIMIT_def Let_def)
  then have "packet_ok p'"
    using Encode_total [OF demo_packet_ok(1) h, of 4096 "\<lambda>_ bs. of_nat (length bs)" 5] by auto
  with encode_decode_roundtrip [OF demo_packet_ok(1) h _ demo_packet_ok(3) _ _ e, of p' 0]
  show ?thesis using e demo_packet_ok(2) by auto
qed

text \<open>C20: \<open>Encode\<close> is memory safe: for every well-formed packet, every packet size from the header size
  to the system limit and every option word, no buffer (the 8192-byte compression block, the
  data area) is overrun, and the packet stays well formed, also on the failure paths.\<close>

theorem encode_safe:
  assumes "packet_ok p" "htab_ok htab" "12 \<le> unat packetSize" "unat packetSize \<le> 8192"
  shows "\<exists>r p'. Encode crc32 htab p packetSize opt = Some (r, p') \<and> packet_ok p'"
  using assms by (rule Encode_total)

theorem encode_safe_witness:
  "\<exists>r p'. Encode (\<lambda>c bs. c) (\<lambda>_. 0) demo_packet 12 7 = Some (r, p') \<and> packet_ok p'"
  by (rule encode_safe [OF demo_packet_ok(1)]) simp_all

text \<open>C19: \<open>Decode\<close> is memory safe on whatever arrives, as long as the packet size of the protocol is at
  most the size of a packet's data area (8180): no header, option word or payload makes it
  overrun the packet, and the packet stays well formed.\<close>

theorem decode_safe:
  assumes "packet_ok q" "unat packetSize \<le> 8180"
  shows "\<exists>r e q'. Decode crc32 q packetSize err = Some (r, e, q') \<and> packet_ok q'"
proof -
  define q1 where "q1 = (if header_CheckEncryption (m_pHeader q)
    then set_payload (XOR_Decrypt (payload q)) q else q)"
  have "length (XOR_Decrypt (payload q)) = GetDataSize q"
    using assms(1) by (simp add: XOR_Decrypt_def)
  then have q1: "packet_ok q1"
    using assms(1) set_payload_ok(1) [OF assms(1)] by (simp add: q1_def)
  have upd: "packet_ok (x\<lparr>m_packetID := i\<rparr>) = packet_ok x" for x :: sfpacket and i
    by (simp add: packet_ok_def GetDataSize_def)
  have area: "\<not> GetDataSize q > DATA_AREA" using assms(1) by (simp add: packet_ok_def)
  obtain r e q2 where d: "decode_uncompress packetSize err q1 = Some (r, e, q2)" "packet_ok q2"
    using decode_uncompress_safe [OF q1 assms(2)] by blast
  show ?thesis
    using assms(1) area d q1
    by (auto simp: Decode_def Let_def q1_def [symmetric] upd)
qed

theorem decode_safe_witness:
  "\<exists>r e q'. Decode (\<lambda>c bs. c) (demo_packet\<lparr>m_pHeader := (m_pHeader demo_packet)\<lparr>packetOption := 7\<rparr>\<rparr>)
    4096 0 = Some (r, e, q') \<and> packet_ok q'"
  by (rule decode_safe) (use demo_packet_ok(1) in \<open>simp_all add: packet_ok_def GetDataSize_def\<close>)

text \<open>C18: With the largest packet size the protocol accepts (8192) a hostile 107-byte packet makes
  \<open>Decode\<close> write past the packet's block: \<open>Uncompress\<close> is given the whole packet size as room
  although only 8180 bytes follow the header, and the size check comes after the writes.\<close>

theorem decode_overflow:
  "\<exists>q. packet_ok q \<and> GetPacketSize q = 107 \<and> Decode crc32 q 8192 err = None"
proof -
  define ts where "ts = Lits [7] # replicate 31 (Back 0 264)"
  have ok: "toks_ok [] ts" and len: "length (expand [] ts) = 8185"
    using expand_replicate_back [of "[7]" 31] by (auto simp: ts_def)
  have "length (enc (replicate k (Back 0 264))) = 3 * k" for k
    by (induction k) (simp_all add: enc_def)
  then have c: "length (enc ts) = 95" by (simp add: ts_def)
  define w where "w = write_data (enc ts) (SFPacket_with_id 1)"
  have w: "packet_ok w" "GetDataSize w = 95" "payload w = enc ts"
    using write_data_ok [OF SFPacket_with_id_ok, of 1 "enc ts"] c by (auto simp: w_def payload_def)
  define q where "q = w\<lparr>m_pHeader := header_SetPacketOption PACKET_OPTION_COMPRESS (m_pHeader w)\<rparr>"
  have q: "packet_ok q" "GetDataSize q = 95" "payload q = enc ts"
    using w by (simp_all add: q_def packet_ok_def payload_def GetDataSize_def header_SetPacketOption_def)
  have flags: "header_CheckCompressed (m_pHeader q)" "\<not> header_CheckDataCRC (m_pHeader q)"
    "\<not> header_CheckEncryption (m_pHeader q)"
    by (simp_all add: q_def header_CheckCompressed_def header_CheckDataCRC_def
        header_CheckEncryption_def header_SetPacketOption_def PACKET_OPTION_COMPRESS_def
        PACKET_OPTION_DATACRC_def PACKET_OPTION_ENCRYPTION_def)
  have "ts \<noteq> []" by (simp add: ts_def)
  from decompress_loop_toks [OF this ok, of 8192 "[]"] len
  have "Lzf_Uncompress (enc ts) 8192 = Some (True, 8185, expand [] ts)"
    by (auto simp: Lzf_Uncompress_def lzf_decompress_def)
  then have "decode_uncompress 8192 err q = None"
    using q len by (simp add: decode_uncompress_def)
  then have "Decode crc32 q 8192 err = None"
    using flags q by (simp add: Decode_def)
  then show ?thesis using q by (auto simp: GetPacketSize_def)
qed

end
