(* ===== verification/Reassembly.thy ===== *)
theory Reassembly
  imports Prelude "HOL-Library.Monad_Syntax"
begin

text \<open>
  \<open>SFPacketProtocol<T>\<close> (EngineLayer/SFPacketProtocol.h): the template that turns the byte
  chunks of the network layer into packets for the logic layer, for any analyzer \<open>T\<close>. The
  analyzer's \<open>AddTransferredData\<close> and \<open>GetPacket\<close> are arguments of the model, as \<open>T\<close> is of
  the template; \<open>SendLogicLayer\<close> is the list of the packets handed over, in order.

  The locale \<open>packet_analyzer\<close> states what the template relies on. Its lemmas show that the
  packets delivered depend on the byte stream only, not on how it is cut into chunks.
\<close>

section \<open>The receive loop\<close>

text \<open>\<open>None\<close> is undefined behaviour in the analyzer, or a loop that does not end. \<open>GetPacket\<close>
  takes and returns the error code, which the code passes by reference.\<close>

partial_function (option) receive_loop ::
  "(int \<Rightarrow> 's \<Rightarrow> ('p option \<times> int \<times> 's) option) \<Rightarrow> ('p \<Rightarrow> 'p) \<Rightarrow> int \<Rightarrow> 's \<Rightarrow> 'p list \<Rightarrow>
   ('p list \<times> int \<times> 's) option" where
  "receive_loop getp tag err s out = do {
     r \<leftarrow> getp err s;
     case r of
       (None, err', s') \<Rightarrow> Some (out, err', s')
     | (Some p, err', s') \<Rightarrow> receive_loop getp tag err' s' (out @ [tag p])
   }"

definition OnReceive ::
  "('s \<Rightarrow> u8 list \<Rightarrow> (bool \<times> 's) option) \<Rightarrow> (int \<Rightarrow> 's \<Rightarrow> ('p option \<times> int \<times> 's) option) \<Rightarrow>
   ('p \<Rightarrow> 'p) \<Rightarrow> 's \<Rightarrow> u8 list \<Rightarrow> (bool \<times> 'p list \<times> 's) option" where
  "OnReceive add getp tag s chunk = do {
     (ok, s1) \<leftarrow> add s chunk;
     if \<not> ok then Some (False, [], s1)
     else do {
       (out, err, s2) \<leftarrow> receive_loop getp tag 0 s1 [];
       Some (err = 0, out, s2)
     }
   }"

text \<open>A connection: one \<open>OnReceive\<close> per chunk, until the first that fails.\<close>

fun receive_chunks ::
  "('s \<Rightarrow> u8 list \<Rightarrow> (bool \<times> 's) option) \<Rightarrow> (int \<Rightarrow> 's \<Rightarrow> ('p option \<times> int \<times> 's) option) \<Rightarrow>
   ('p \<Rightarrow> 'p) \<Rightarrow> 's \<Rightarrow> u8 list list \<Rightarrow> (bool \<times> 'p list \<times> 's) option" where
  "receive_chunks add getp tag s [] = Some (True, [], s)"
| "receive_chunks add getp tag s (c # cs) = do {
     (ok, out, s1) \<leftarrow> OnReceive add getp tag s c;
     if \<not> ok then Some (False, out, s1)
     else do {
       (ok', out', s2) \<leftarrow> receive_chunks add getp tag s1 cs;
       Some (ok', out @ out', s2)
     }
   }"

section \<open>Framing, abstractly\<close>

text \<open>What the bytes received so far start with: a whole frame of the given length, a frame that
  is refused, or not enough to tell.\<close>

datatype 'v frame = More | Bad int | Got 'v nat

function parse_all :: "(u8 list \<Rightarrow> 'v frame) \<Rightarrow> u8 list \<Rightarrow> 'v list \<times> int \<times> u8 list" where
  "parse_all p1 bs = (case p1 bs of
       More \<Rightarrow> ([], 0, bs)
     | Bad e \<Rightarrow> ([], e, bs)
     | Got v n \<Rightarrow>
         if 0 < n \<and> n \<le> length bs
         then (case parse_all p1 (drop n bs) of (vs, e, rest) \<Rightarrow> (v # vs, e, rest))
         else ([], 0, bs))"
  by pat_completeness auto
termination
  by (relation "measure (\<lambda>(p1, bs). length bs)") auto

declare parse_all.simps [simp del, code]
declare receive_loop.simps [code]

locale framing =
  fixes parse1 :: "u8 list \<Rightarrow> 'v frame"
  assumes got_bounds: "parse1 bs = Got v n \<Longrightarrow> 0 < n \<and> n \<le> length bs"
    and got_stable: "parse1 bs = Got v n \<Longrightarrow> parse1 (bs @ cs) = Got v n"
    and bad_stable: "parse1 bs = Bad e \<Longrightarrow> parse1 (bs @ cs) = Bad e"
    and bad_nonzero: "parse1 bs = Bad e \<Longrightarrow> e \<noteq> 0"
begin

lemma parse_all_got:
  "parse1 bs = Got v n \<Longrightarrow>
    parse_all parse1 bs = (case parse_all parse1 (drop n bs) of (vs, e, rest) \<Rightarrow> (v # vs, e, rest))"
  using got_bounds by (subst parse_all.simps) simp

lemma parse_all_more: "parse1 bs = More \<Longrightarrow> parse_all parse1 bs = ([], 0, bs)"
  by (subst parse_all.simps) simp

lemma parse_all_bad: "parse1 bs = Bad e \<Longrightarrow> parse_all parse1 bs = ([], e, bs)"
  by (subst parse_all.simps) simp

text \<open>Parsing a stream in two pieces is parsing it at once.\<close>

lemma parse_all_append:
  "parse_all parse1 as = (vs, 0, rest) \<Longrightarrow>
    parse_all parse1 (as @ bs) =
      (case parse_all parse1 (rest @ bs) of (ws, e, rest') \<Rightarrow> (vs @ ws, e, rest'))"
proof (induction "length as" arbitrary: as vs rule: less_induct)
  case less
  show ?case
  proof (cases "parse1 as")
    case More
    then show ?thesis using less.prems by (auto simp: parse_all_more split: prod.splits)
  next
    case (Bad e)
    then show ?thesis using less.prems bad_nonzero [OF Bad] by (simp add: parse_all_bad)
  next
    case (Got v n)
    note b = got_bounds [OF Got]
    obtain us where us: "parse_all parse1 (drop n as) = (us, 0, rest)" "vs = v # us"
      using less.prems by (auto simp: parse_all_got [OF Got] split: prod.splits)
    have "parse_all parse1 (drop n as @ bs) =
        (case parse_all parse1 (rest @ bs) of (ws, e, rest') \<Rightarrow> (us @ ws, e, rest'))"
    proof -
      have "length (drop n as) < length as" using b by auto
      from less.hyps [OF this us(1)] show ?thesis .
    qed
    moreover have "drop n (as @ bs) = drop n as @ bs" using b by simp
    ultimately show ?thesis
      using parse_all_got [OF got_stable [OF Got, of bs]] us(2) by (simp split: prod.splits)
  qed
qed

lemma parse_all_bad_append:
  "\<lbrakk>parse_all parse1 as = (vs, e, rest); e \<noteq> 0\<rbrakk> \<Longrightarrow> parse_all parse1 (as @ bs) = (vs, e, rest @ bs)"
proof (induction "length as" arbitrary: as vs rule: less_induct)
  case less
  show ?case
  proof (cases "parse1 as")
    case (Bad e')
    then show ?thesis using less.prems by (simp add: parse_all_bad bad_stable)
  next
    case (Got v n)
    note b = got_bounds [OF Got]
    obtain us where us: "parse_all parse1 (drop n as) = (us, e, rest)" "vs = v # us"
      using less.prems by (auto simp: parse_all_got [OF Got] split: prod.splits)
    have "length (drop n as) < length as" using b by auto
    from less.hyps [OF this us(1) less.prems(2)]
    have "parse_all parse1 (drop n (as @ bs)) = (us, e, rest @ bs)" using b by simp
    then show ?thesis
      using parse_all_got [OF got_stable [OF Got, of bs]] us(2) by simp
  qed (use less.prems in \<open>auto simp: parse_all_more\<close>)
qed

lemma parse_all_rest_more:
  "parse_all parse1 bs = (vs, 0, rest) \<Longrightarrow> parse1 rest = More"
proof (induction "length bs" arbitrary: bs vs rule: less_induct)
  case less
  show ?case
  proof (cases "parse1 bs")
    case (Got v n)
    then have "length (drop n bs) < length bs" using got_bounds [OF Got] by auto
    then show ?thesis
      using less.hyps [of "drop n bs"] less.prems
      by (auto simp: parse_all_got [OF Got] split: prod.splits)
  qed (use less.prems bad_nonzero in \<open>auto simp: parse_all_more parse_all_bad\<close>)
qed

end

section \<open>The interface of the analyzer\<close>

text \<open>\<open>pend\<close> are the bytes the analyzer holds, \<open>cap\<close> bounds them, \<open>view\<close> is what of a packet came
  over the wire.\<close>

locale packet_analyzer = framing parse1
  for parse1 :: "u8 list \<Rightarrow> 'v frame" +
  fixes inv :: "'s \<Rightarrow> bool" and pend :: "'s \<Rightarrow> u8 list" and cap :: nat
    and add :: "'s \<Rightarrow> u8 list \<Rightarrow> (bool \<times> 's) option"
    and getp :: "int \<Rightarrow> 's \<Rightarrow> ('p option \<times> int \<times> 's) option"
    and view :: "'p \<Rightarrow> 'v" and tag :: "'p \<Rightarrow> 'p"
  assumes add_law: "\<lbrakk>inv s; length (pend s) + length chunk < cap\<rbrakk> \<Longrightarrow>
      \<exists>s'. add s chunk = Some (True, s') \<and> inv s' \<and> pend s' = pend s @ chunk"
    and getp_law: "inv s \<Longrightarrow> \<exists>r err' s'. getp err s = Some (r, err', s') \<and> inv s' \<and>
      (case parse1 (pend s) of
         More \<Rightarrow> r = None \<and> err' = 0 \<and> pend s' = pend s
       | Bad e \<Rightarrow> r = None \<and> err' = e \<and> pend s' = pend s
       | Got v n \<Rightarrow> (\<exists>p. r = Some p \<and> view p = v) \<and> err' = 0 \<and> pend s' = drop n (pend s))"
    and view_tag [simp]: "view (tag p) = view p"
begin

text \<open>The loop ends and delivers the frames of the pending bytes.\<close>

lemma receive_loop_parses:
  "inv s \<Longrightarrow> \<exists>ps err' s'. receive_loop getp tag err s out = Some (out @ ps, err', s') \<and> inv s' \<and>
     (map view ps, err', pend s') = parse_all parse1 (pend s)"
proof (induction "length (pend s)" arbitrary: s err out rule: less_induct)
  case less
  obtain r err1 s1 where g: "getp err s = Some (r, err1, s1)" "inv s1"
    and law: "case parse1 (pend s) of
         More \<Rightarrow> r = None \<and> err1 = 0 \<and> pend s1 = pend s
       | Bad e \<Rightarrow> r = None \<and> err1 = e \<and> pend s1 = pend s
       | Got v n \<Rightarrow> (\<exists>p. r = Some p \<and> view p = v) \<and> err1 = 0 \<and> pend s1 = drop n (pend s)"
    using getp_law [OF less.prems, of err] by blast
  show ?case
  proof (cases "parse1 (pend s)")
    case (Got v n)
    then obtain p where p: "r = Some p" "view p = v" "pend s1 = drop n (pend s)"
      using law by auto
    have "length (pend s1) < length (pend s)" using got_bounds [OF Got] p(3) by auto
    from less.hyps [OF this g(2)] obtain ps err' s' where
      "receive_loop getp tag err1 s1 (out @ [tag p]) = Some ((out @ [tag p]) @ ps, err', s')"
      "inv s'" "(map view ps, err', pend s') = parse_all parse1 (pend s1)"
      by blast
    then have "receive_loop getp tag err s out = Some (out @ tag p # ps, err', s') \<and> inv s' \<and>
        (map view (tag p # ps), err', pend s') = parse_all parse1 (pend s)"
      using g(1) p by (subst receive_loop.simps) (auto simp: parse_all_got [OF Got] split: prod.splits)
    then show ?thesis by blast
  qed (use g law in \<open>auto simp: receive_loop.simps [of getp tag err s] parse_all_more parse_all_bad\<close>)
qed

lemma OnReceive_parses:
  assumes "inv s" "length (pend s) + length chunk < cap"
  shows "\<exists>ok ps err s'. OnReceive add getp tag s chunk = Some (ok, ps, s') \<and> inv s' \<and>
    (ok \<longleftrightarrow> err = 0) \<and> (map view ps, err, pend s') = parse_all parse1 (pend s @ chunk)"
proof -
  obtain s1 where a: "add s chunk = Some (True, s1)" "inv s1" "pend s1 = pend s @ chunk"
    using add_law [OF assms] by blast
  obtain ps err' s' where "receive_loop getp tag 0 s1 [] = Some ([] @ ps, err', s')" "inv s'"
    "(map view ps, err', pend s') = parse_all parse1 (pend s1)"
    using receive_loop_parses [OF a(2), of 0 "[]"] by blast
  then show ?thesis using a by (auto simp: OnReceive_def)
qed

text \<open>Chunks may cut the stream anywhere: what is delivered is the parse of the whole stream.
  \<open>small\<close> bounds what an incomplete frame can leave behind.\<close>

lemma receive_chunks_parses:
  assumes "inv s" and "parse1 (pend s) = More"
    and small: "\<And>bs. parse1 bs = More \<Longrightarrow> length bs < k"
    and fit: "\<forall>c \<in> set cs. length c + k \<le> cap"
    and stream: "parse_all parse1 (pend s @ concat cs) = (vs, 0, rest)"
  shows "\<exists>ps s'. receive_chunks add getp tag s cs = Some (True, ps, s') \<and> inv s' \<and>
    map view ps = vs \<and> pend s' = rest"
  using assms(1,2) fit stream
proof (induction cs arbitrary: s vs)
  case Nil
  then show ?case by (simp add: parse_all_more)
next
  case (Cons c cs)
  have "length (pend s) + length c < cap" using small [OF Cons.prems(2)] Cons.prems(3) by simp
  from OnReceive_parses [OF Cons.prems(1) this] obtain ok ps err s1 where
    o: "OnReceive add getp tag s c = Some (ok, ps, s1)" "inv s1" "ok \<longleftrightarrow> err = 0"
    "(map view ps, err, pend s1) = parse_all parse1 (pend s @ c)"
    by blast
  have whole: "parse_all parse1 ((pend s @ c) @ concat cs) = (vs, 0, rest)" using Cons.prems(4) by simp
  have err0: "err = 0"
    using parse_all_bad_append [OF o(4) [symmetric], of "concat cs"] whole by fastforce
  have p1: "parse_all parse1 (pend s @ c) = (map view ps, 0, pend s1)" using o(4) err0 by simp
  obtain ws e rest' where p2: "parse_all parse1 (pend s1 @ concat cs) = (ws, e, rest')"
    by (cases "parse_all parse1 (pend s1 @ concat cs)")
  then have eqs: "vs = map view ps @ ws" "e = 0" "rest' = rest"
    using parse_all_append [OF p1, of "concat cs"] whole by auto
  obtain qs s2 where q: "receive_chunks add getp tag s1 cs = Some (True, qs, s2)" "inv s2"
    "map view qs = ws" "pend s2 = rest"
    using Cons.IH [OF o(2) parse_all_rest_more [OF p1]] Cons.prems(3) p2 eqs by auto
  have "receive_chunks add getp tag s (c # cs) = Some (True, ps @ qs, s2)"
    using o(1,3) err0 q(1) by simp
  then show ?case using q eqs by auto
qed

end

end
