(* ===== verification/PacketIO.thy ===== *)
theory PacketIO
  imports IOBuffer PacketCodec Reassembly
begin

text \<open>
  The CGSF packet protocol on the receiving side: the packet pool \<open>SFObjectPool<SFPacket>\<close>
  (BaseLayer/SFObjectPool.h), \<open>SFPacketIOBuffer\<close> (EngineLayer/SFPacketIOBuffer.cpp),
  \<open>SFCGSFPacketProtocol\<close> (EngineLayer/SFCGSFPacketProtocol.cpp) and the instance of
  \<open>SFPacketProtocol<T>\<close> for it (EngineLayer/SFPacketProtocol.h).

  A pooled packet is owned by one party at a time, so the pool is a queue of packet values.
\<close>

section \<open>The packet pool\<close>

definition pool_Init :: "'a \<Rightarrow> nat \<Rightarrow> 'a list \<Rightarrow> 'a list" where
  "pool_Init fresh MaxCount pool = pool @ replicate MaxCount fresh"

definition pool_Alloc :: "'a \<Rightarrow> 'a list \<Rightarrow> 'a \<times> 'a list" where
  "pool_Alloc fresh pool = (case pool of [] \<Rightarrow> (fresh, []) | p # ps \<Rightarrow> (p, ps))"

definition pool_Release :: "'a \<Rightarrow> 'a list \<Rightarrow> bool \<times> 'a list" where
  "pool_Release p pool = (True, pool @ [p])"

section \<open>SFPacketIOBuffer\<close>

definition PACKETIO_ERROR_HEADER :: int where "PACKETIO_ERROR_HEADER = -1"
definition PACKETIO_ERROR_DATA :: int where "PACKETIO_ERROR_DATA = -2"

definition too_big :: "nat \<Rightarrow> u16 \<Rightarrow> bool" where
  \<comment> \<open>\<open>dataSize > packetSize - sizeof(SFPacketHeader)\<close>, unsigned: below 12 the right side wraps\<close>
  "too_big n packetSize \<longleftrightarrow> HEADER_SIZE \<le> unat packetSize \<and> n > unat packetSize - HEADER_SIZE"

text \<open>The result is the return value, the error code, the header and data bytes written through
  the reference and the pointer, and the buffer.\<close>

definition PIO_GetPacket :: "iobuf \<Rightarrow> SFPacketHeader \<Rightarrow> u16 \<Rightarrow>
    bool \<times> int \<times> SFPacketHeader \<times> u8 list \<times> iobuf" where
  "PIO_GetPacket b hdr packetSize =
     (let oldHead = GetHead b
      in if GetUsedBufferSize b < int HEADER_SIZE then (False, 0, hdr, [], b)
         else case GetData b (int HEADER_SIZE) of (hb, n, b1) \<Rightarrow>
           let b2 = (if n \<noteq> int HEADER_SIZE then SetHead oldHead b1 else b1);
               err = (if n \<noteq> int HEADER_SIZE then PACKETIO_ERROR_HEADER else 0);
               hdr1 = header_of hb;
               size = unat (dataSize hdr1)
           in if too_big size packetSize
              then (False, PACKETIO_ERROR_DATA, hdr1, [], SetHead oldHead b2)
              else if GetUsedBufferSize b2 < int size then (False, err, hdr1, [], SetHead oldHead b2)
              else case GetData b2 (int size) of (db, m, b3) \<Rightarrow>
                if m \<noteq> int size then (False, PACKETIO_ERROR_DATA, hdr1, db, SetHead oldHead b3)
                else (True, err, hdr1, db, b3))"

definition PIO_GetHeader :: "iobuf \<Rightarrow> SFPacketHeader \<Rightarrow> bool \<times> int \<times> SFPacketHeader \<times> iobuf" where
  "PIO_GetHeader b hdr =
     (let oldHead = GetHead b
      in if GetUsedBufferSize b < int HEADER_SIZE then (False, 0, hdr, b)
         else case GetData b (int HEADER_SIZE) of (hb, n, b1) \<Rightarrow>
           if n \<noteq> int HEADER_SIZE then (False, PACKETIO_ERROR_HEADER, header_of hb, SetHead oldHead b1)
           else (True, 0, header_of hb, SetHead oldHead b1))"

section \<open>SFCGSFPacketProtocol\<close>

record cgsf =
  m_pPacketIOBuffer :: iobuf
  m_ioSize :: int
  m_packetSize :: u16
  m_packetOption :: u32

text \<open>The analyzer works on its own state and on the shared packet pool.\<close>

type_synonym cgsf_state = "cgsf \<times> sfpacket list"

definition cgsf_Initialize :: "int \<Rightarrow> u16 \<Rightarrow> u32 \<Rightarrow> cgsf" where
  \<comment> \<open>the return value of \<open>AllocIOBuf\<close> is ignored\<close>
  "cgsf_Initialize ioBufferSize packetSize opt =
     \<lparr>m_pPacketIOBuffer = snd (AllocIOBuf (SFIOBuffer_ctor 0 0) ioBufferSize),
      m_ioSize = ioBufferSize, m_packetSize = packetSize, m_packetOption = opt\<rparr>"

definition cgsf_CopyBaseProtocol :: "cgsf \<Rightarrow> cgsf \<Rightarrow> cgsf" where
  "cgsf_CopyBaseProtocol source c =
     c\<lparr>m_ioSize := m_ioSize source, m_packetSize := m_packetSize source,
       m_packetOption := m_packetOption source\<rparr>"

definition cgsf_GetPacket :: "int \<Rightarrow> cgsf_state \<Rightarrow> (sfpacket option \<times> int \<times> cgsf_state) option" where
  \<comment> \<open>the data is copied behind the header of the pooled packet: past \<open>DATA_AREA\<close> bytes that is
    an overrun\<close>
  "cgsf_GetPacket errorCode = (\<lambda>(c, pool). case pool_Alloc SFPacket_new pool of (p, pool1) \<Rightarrow>
     let p1 = Initialize p
     in case PIO_GetPacket (m_pPacketIOBuffer c) (m_pHeader p1) (m_packetSize c) of
       (ok, err, hdr, db, b) \<Rightarrow>
         if length db > DATA_AREA then None
         else let p2 = set_payload db (p1\<lparr>m_pHeader := hdr\<rparr>); c1 = c\<lparr>m_pPacketIOBuffer := b\<rparr>
              in if \<not> ok then Some (None, err, (c1, snd (pool_Release p2 pool1)))
                 else Some (Some p2, err, (c1, pool1)))"

definition cgsf_AddTransferredData :: "cgsf_state \<Rightarrow> u8 list \<Rightarrow> (bool \<times> cgsf_state) option" where
  \<comment> \<open>the result of \<open>AppendData\<close> is ignored\<close>
  "cgsf_AddTransferredData = (\<lambda>(c, pool) chunk.
     case AppendData (m_pPacketIOBuffer c) chunk (int (length chunk)) of
       None \<Rightarrow> None
     | Some (r, b) \<Rightarrow> Some (True, (c\<lparr>m_pPacketIOBuffer := b\<rparr>, pool)))"

definition cgsf_Reset :: "cgsf \<Rightarrow> bool \<times> cgsf" where
  "cgsf_Reset c = (True, c\<lparr>m_pPacketIOBuffer := InitIOBuf (m_pPacketIOBuffer c)\<rparr>)"

definition cgsf_Encode :: "(u32 \<Rightarrow> u8 list \<Rightarrow> u32) \<Rightarrow> (nat \<Rightarrow> int) \<Rightarrow> cgsf \<Rightarrow> sfpacket \<Rightarrow>
    (bool \<times> u8 list \<times> sfpacket) option" where
  \<comment> \<open>the bytes from \<open>*ppBuffer\<close>, \<open>bufferSize\<close> of them\<close>
  "cgsf_Encode crc32 htab c p = (case Encode crc32 htab p (m_packetSize c) (m_packetOption c) of
     None \<Rightarrow> None
   | Some (ok, p') \<Rightarrow> if \<not> ok then Some (False, [], p') else Some (True, packet_wire p', p'))"

definition cgsf_DisposePacket :: "sfpacket \<Rightarrow> sfpacket list \<Rightarrow> bool \<times> sfpacket list" where
  "cgsf_DisposePacket p pool = pool_Release p pool"

section \<open>SFPacketProtocol for SFCGSFPacketProtocol\<close>

definition PACKET_DEFAULT_IO_SIZE :: int where "PACKET_DEFAULT_IO_SIZE = 8192"
definition PACKET_DEFAULT_PACKET_SIZE :: u16 where "PACKET_DEFAULT_PACKET_SIZE = 4096"
definition SFPACKET_RPC_PACKET :: u16 where "SFPACKET_RPC_PACKET = 60000"

definition SFPacketProtocol_default :: cgsf where
  "SFPacketProtocol_default = cgsf_Initialize PACKET_DEFAULT_IO_SIZE PACKET_DEFAULT_PACKET_SIZE 0"

definition SFPacketProtocol_new :: "int \<Rightarrow> u16 \<Rightarrow> u32 \<Rightarrow> cgsf" where
  "SFPacketProtocol_new bufferIOSize packetDataSize opt =
     (let io = (if bufferIOSize > MAX_IO_SIZE then MAX_IO_SIZE else bufferIOSize);
          ps = (if unat packetDataSize > MAX_PACKET_SIZE then of_nat MAX_PACKET_SIZE else packetDataSize);
          ps' = (if int (unat ps) > io then of_int io else ps)
      in cgsf_Initialize io ps' opt)"

definition SFPacketProtocol_Clone :: "cgsf \<Rightarrow> cgsf" where
  "SFPacketProtocol_Clone c = cgsf_CopyBaseProtocol c SFPacketProtocol_default"

definition tag_packet :: "int \<Rightarrow> session_desc \<Rightarrow> sfpacket \<Rightarrow> sfpacket" where
  \<comment> \<open>packet type, serial and session, as set before \<open>SendLogicLayer\<close>\<close>
  "tag_packet serial desc p =
     p\<lparr>m_packetType := (if SFPACKET_RPC_PACKET = m_packetID p then SFPACKET_RPC else SFPACKET_DATA),
       m_serial := serial, m_sessiondesc := desc\<rparr>"

definition cgsf_OnReceive :: "int \<Rightarrow> session_desc \<Rightarrow> cgsf_state \<Rightarrow> u8 list \<Rightarrow>
    (bool \<times> sfpacket list \<times> cgsf_state) option" where
  "cgsf_OnReceive serial desc =
     OnReceive cgsf_AddTransferredData cgsf_GetPacket (tag_packet serial desc)"

definition cgsf_session :: "int \<Rightarrow> session_desc \<Rightarrow> cgsf_state \<Rightarrow> u8 list list \<Rightarrow>
    (bool \<times> sfpacket list \<times> cgsf_state) option" where
  \<comment> \<open>one \<open>OnReceive\<close> per chunk the network delivers\<close>
  "cgsf_session serial desc =
     receive_chunks cgsf_AddTransferredData cgsf_GetPacket (tag_packet serial desc)"

section \<open>The analyzer implements the framing\<close>

definition cgsf_parse1 :: "u16 \<Rightarrow> u8 list \<Rightarrow> (SFPacketHeader \<times> u8 list \<times> bool) frame" where
  \<comment> \<open>the framing of the protocol: a 12-byte header, then as many bytes as it says\<close>
  "cgsf_parse1 ps bs =
     (if length bs < 12 then More
      else let h = header_of bs; n = unat (dataSize h)
           in if too_big n ps then Bad PACKETIO_ERROR_DATA
              else if length bs < 12 + n then More
              else Got (h, take n (drop 12 bs), True) (12 + n))"

lemma header_of_prefix: "12 \<le> length bs \<Longrightarrow> header_of (bs @ cs) = header_of bs"
proof -
  assume "12 \<le> length bs"
  then obtain b0 b1 b2 b3 b4 b5 b6 b7 b8 b9 b10 b11 rest where
    "bs = b0 # b1 # b2 # b3 # b4 # b5 # b6 # b7 # b8 # b9 # b10 # b11 # rest"
    by (auto simp: numeral_eq_Suc Suc_le_length_iff)
  then show ?thesis by (simp add: header_of_def)
qed

lemma header_of_take: "12 \<le> length bs \<Longrightarrow> header_of (take 12 bs) = header_of bs"
  using header_of_prefix [of "take 12 bs" "drop 12 bs"] by simp

lemma cgsf_framing: "framing (cgsf_parse1 ps)"
proof
  fix bs :: "u8 list" and v n assume g: "cgsf_parse1 ps bs = Got v n"
  then show "0 < n \<and> n \<le> length bs" by (auto simp: cgsf_parse1_def Let_def split: if_splits)
  fix cs
  have "12 \<le> length bs" using g by (auto simp: cgsf_parse1_def split: if_splits)
  from header_of_prefix [OF this, of cs] show "cgsf_parse1 ps (bs @ cs) = Got v n"
    using g by (auto simp: cgsf_parse1_def Let_def split: if_splits)
next
  fix bs :: "u8 list" and e assume b: "cgsf_parse1 ps bs = Bad e"
  then show "e \<noteq> 0" by (auto simp: cgsf_parse1_def Let_def PACKETIO_ERROR_DATA_def split: if_splits)
  fix cs
  have "12 \<le> length bs" using b by (auto simp: cgsf_parse1_def split: if_splits)
  from header_of_prefix [OF this, of cs] show "cgsf_parse1 ps (bs @ cs) = Bad e"
    using b by (auto simp: cgsf_parse1_def Let_def split: if_splits)
qed

lemma PIO_GetPacket_spec:
  assumes inv: "iobuf_inv b"
  shows "\<exists>ok err h d b'. PIO_GetPacket b hdr ps = (ok, err, h, d, b') \<and> iobuf_inv b' \<and>
    m_iBufSize b' = m_iBufSize b \<and>
    (case cgsf_parse1 ps (iobuf_bytes b) of
       More \<Rightarrow> \<not> ok \<and> err = 0 \<and> d = [] \<and> b' = b
     | Bad e \<Rightarrow> \<not> ok \<and> err = e \<and> d = [] \<and> b' = b
     | Got v n \<Rightarrow> ok \<and> err = 0 \<and> v = (h, d, True) \<and> iobuf_bytes b' = drop n (iobuf_bytes b) \<and>
         length d = unat (dataSize h) \<and> \<not> too_big (length d) ps)"
proof (cases "length (iobuf_bytes b) < 12")
  case True
  then have "GetUsedBufferSize b < int HEADER_SIZE" using used_is_length [OF inv] by simp
  then show ?thesis using inv True by (auto simp: PIO_GetPacket_def Let_def cgsf_parse1_def)
next
  case False
  obtain hb n b1 where g: "GetData b 12 = (hb, n, b1)" by (cases "GetData b 12")
  note s = GetData_spec [OF inv _ g, simplified]
  have hb: "hb = take 12 (iobuf_bytes b)" "n = 12" using s False by simp_all
  let ?h = "header_of (iobuf_bytes b)" and ?rest = "drop 12 (iobuf_bytes b)"
  define k where "k = unat (dataSize ?h)"
  have hdr: "header_of hb = ?h" using hb False header_of_take by simp
  have used: "\<not> GetUsedBufferSize b < int HEADER_SIZE" using used_is_length [OF inv] False by simp
  have used1: "GetUsedBufferSize b1 = int (length ?rest)" using used_is_length [OF s(4)] s(3) by simp
  obtain db m b3 where g2: "GetData b1 (int k) = (db, m, b3)" by (cases "GetData b1 (int k)")
  note s2 = GetData_spec [OF s(4) _ g2, simplified]
  have unf: "PIO_GetPacket b hdr ps =
      (if too_big k ps then (False, PACKETIO_ERROR_DATA, ?h, [], b)
       else if length ?rest < k then (False, 0, ?h, [], b)
       else if m \<noteq> int k then (False, PACKETIO_ERROR_DATA, ?h, db, SetHead (GetHead b) b3)
       else (True, 0, ?h, db, b3))"
    using used g hb(2) s(5) used1 g2 by (simp add: PIO_GetPacket_def Let_def hdr k_def [symmetric])
  have parse: "cgsf_parse1 ps (iobuf_bytes b) =
      (if too_big k ps then Bad PACKETIO_ERROR_DATA
       else if length ?rest < k then More else Got (?h, take k ?rest, True) (12 + k))"
    using False by (auto simp: cgsf_parse1_def Let_def k_def)
  show ?thesis
  proof (cases "too_big k ps \<or> length ?rest < k")
    case True
    then show ?thesis using inv by (auto simp: unf parse)
  next
    case big: False
    then have "db = take k ?rest" "m = int k" using s2 s(3) by auto
    moreover have "length (take k ?rest) = k" using big by simp
    ultimately show ?thesis
      using big s2(3,4,6) s(3,6) by (auto simp: unf parse add.commute k_def)
  qed
qed

definition cgsf_inv :: "u16 \<Rightarrow> nat \<Rightarrow> cgsf_state \<Rightarrow> bool" where
  "cgsf_inv ps cap = (\<lambda>(c, pool). iobuf_inv (m_pPacketIOBuffer c) \<and>
     m_iBufSize (m_pPacketIOBuffer c) = int cap \<and> m_packetSize c = ps \<and>
     12 \<le> unat ps \<and> unat ps \<le> 8192)"

definition cgsf_pend :: "cgsf_state \<Rightarrow> u8 list" where
  "cgsf_pend s = iobuf_bytes (m_pPacketIOBuffer (fst s))"

definition packet_view :: "sfpacket \<Rightarrow> SFPacketHeader \<times> u8 list \<times> bool" where
  \<comment> \<open>what came over the wire, and that the object around it is well formed\<close>
  "packet_view p = (m_pHeader p, payload p, packet_ok p)"

lemma packet_view_tag [simp]: "packet_view (tag_packet serial desc p) = packet_view p"
  by (simp add: packet_view_def tag_packet_def payload_def GetDataSize_def packet_ok_def)

lemma cgsf_add_law:
  assumes "cgsf_inv ps cap s" "length (cgsf_pend s) + length chunk < cap"
  shows "\<exists>s'. cgsf_AddTransferredData s chunk = Some (True, s') \<and> cgsf_inv ps cap s' \<and>
    cgsf_pend s' = cgsf_pend s @ chunk"
proof -
  obtain c pool where s: "s = (c, pool)" by (cases s)
  have inv: "iobuf_inv (m_pPacketIOBuffer c)" using assms(1) by (simp add: cgsf_inv_def s)
  have "m_iBufSize (m_pPacketIOBuffer c) \<le> MAX_IO_SIZE" using inv by (simp add: iobuf_inv_def)
  then have blk: "block_fits chunk" using assms by (simp add: cgsf_inv_def block_fits_def MAX_IO_SIZE_def s)
  obtain r b' where "AppendData (m_pPacketIOBuffer c) chunk (int (length chunk)) = Some (r, b')"
    "iobuf_inv b'" "m_iBufSize b' = m_iBufSize (m_pPacketIOBuffer c)"
    "iobuf_bytes b' = iobuf_bytes (m_pPacketIOBuffer c) @ chunk"
    using AppendData_returns [OF inv refl blk] assms
    by (auto simp: cgsf_inv_def cgsf_pend_def s split: if_splits)
  then show ?thesis
    using assms(1) by (simp add: cgsf_AddTransferredData_def cgsf_inv_def cgsf_pend_def s)
qed

lemma cgsf_getp_law:
  assumes "cgsf_inv ps cap s"
  shows "\<exists>r err' s'. cgsf_GetPacket err s = Some (r, err', s') \<and> cgsf_inv ps cap s' \<and>
      (case cgsf_parse1 ps (cgsf_pend s) of
         More \<Rightarrow> r = None \<and> err' = 0 \<and> cgsf_pend s' = cgsf_pend s
       | Bad e \<Rightarrow> r = None \<and> err' = e \<and> cgsf_pend s' = cgsf_pend s
       | Got v n \<Rightarrow> (\<exists>p. r = Some p \<and> packet_view p = v) \<and> err' = 0 \<and>
           cgsf_pend s' = drop n (cgsf_pend s))"
proof -
  obtain c pool where s: "s = (c, pool)" by (cases s)
  obtain p pool1 where al: "pool_Alloc SFPacket_new pool = (p, pool1)"
    by (cases "pool_Alloc SFPacket_new pool")
  have inv: "iobuf_inv (m_pPacketIOBuffer c)" and ps: "m_packetSize c = ps" "12 \<le> unat ps" "unat ps \<le> 8192"
    using assms by (auto simp: cgsf_inv_def s)
  have pend: "cgsf_pend s = iobuf_bytes (m_pPacketIOBuffer c)" by (simp add: cgsf_pend_def s)
  obtain ok err2 h d b' where g:
    "PIO_GetPacket (m_pPacketIOBuffer c) (m_pHeader (Initialize p)) ps = (ok, err2, h, d, b')"
    "iobuf_inv b'" "m_iBufSize b' = m_iBufSize (m_pPacketIOBuffer c)"
    and law: "case cgsf_parse1 ps (cgsf_pend s) of
       More \<Rightarrow> \<not> ok \<and> err2 = 0 \<and> d = [] \<and> b' = m_pPacketIOBuffer c
     | Bad e \<Rightarrow> \<not> ok \<and> err2 = e \<and> d = [] \<and> b' = m_pPacketIOBuffer c
     | Got v n \<Rightarrow> ok \<and> err2 = 0 \<and> v = (h, d, True) \<and> iobuf_bytes b' = drop n (cgsf_pend s) \<and>
         length d = unat (dataSize h) \<and> \<not> too_big (length d) ps"
    using PIO_GetPacket_spec [OF inv, of "m_pHeader (Initialize p)" ps] unfolding pend by blast
  have dl: "length d \<le> 8180"
    using law ps by (cases "cgsf_parse1 ps (cgsf_pend s)") (auto simp: too_big_def)
  have get: "cgsf_GetPacket err s =
      (let p2 = set_payload d ((Initialize p)\<lparr>m_pHeader := h\<rparr>)
       in if \<not> ok then Some (None, err2, (c\<lparr>m_pPacketIOBuffer := b'\<rparr>, snd (pool_Release p2 pool1)))
          else Some (Some p2, err2, (c\<lparr>m_pPacketIOBuffer := b'\<rparr>, pool1)))"
    using g(1) dl ps(1) by (simp add: cgsf_GetPacket_def s al Let_def)
  have inv': "cgsf_inv ps cap (c\<lparr>m_pPacketIOBuffer := b'\<rparr>, pl)" for pl
    using assms g(2,3) by (simp add: cgsf_inv_def s)
  have inv0: "cgsf_inv ps cap (c, pl)" for pl using assms by (simp add: cgsf_inv_def s)
  have pend': "cgsf_pend (c\<lparr>m_pPacketIOBuffer := b'\<rparr>, pl) = iobuf_bytes b'" for pl
    by (simp add: cgsf_pend_def)
  show ?thesis
  proof (cases "cgsf_parse1 ps (cgsf_pend s)")
    case (Got v n)
    have "length (sp_data (Initialize p)) = 8180" "m_usCurrentReadPosition (Initialize p) = 12"
      by (simp_all add: Initialize_def)
    then have "packet_view (set_payload d ((Initialize p)\<lparr>m_pHeader := h\<rparr>)) = (h, d, True)"
      using law Got dl by (simp add: packet_view_def payload_def set_payload_def GetDataSize_def
        mem_write_def packet_ok_def)
    then show ?thesis using law Got by (simp add: get inv' pend')
  qed (use law in \<open>simp_all add: get Let_def inv' inv0 pend'\<close>, simp_all add: cgsf_pend_def s)
qed

interpretation cgsf: packet_analyzer "cgsf_parse1 ps" "cgsf_inv ps cap" cgsf_pend cap
    cgsf_AddTransferredData cgsf_GetPacket packet_view "tag_packet serial desc"
  for ps cap serial desc
  by (intro packet_analyzer.intro cgsf_framing packet_analyzer_axioms.intro cgsf_add_law cgsf_getp_law
      packet_view_tag)

section \<open>Streams of packets\<close>

lemma parse1_wire:
  assumes "packet_ok p" "GetDataSize p + 12 \<le> unat ps"
  shows "cgsf_parse1 ps (packet_wire p @ rest) = Got (packet_view p) (length (packet_wire p))"
proof -
  have len: "length (packet_wire p) = 12 + GetDataSize p"
    using assms(1) by (simp add: packet_wire_def packet_ok_def)
  have h: "header_of (packet_wire p @ rest) = m_pHeader p" by (simp add: packet_wire_def)
  have d: "take (GetDataSize p) (drop 12 (packet_wire p @ rest)) = payload p"
    using len by (simp add: packet_wire_def payload_def)
  show ?thesis
    using assms len d length_payload [OF assms(1)] unfolding cgsf_parse1_def h
    by (auto simp: Let_def too_big_def packet_view_def GetDataSize_def)
qed

lemma parse_all_wires:
  assumes "\<forall>p \<in> set msgs. packet_ok p \<and> GetDataSize p + 12 \<le> unat ps"
  shows "parse_all (cgsf_parse1 ps) (concat (map packet_wire msgs)) = (map packet_view msgs, 0, [])"
  using assms
proof (induction msgs)
  case Nil
  then show ?case by (simp add: parse_all.simps [of _ "[]"] cgsf_parse1_def)
next
  case (Cons p msgs)
  have "cgsf_parse1 ps (packet_wire p @ concat (map packet_wire msgs)) =
      Got (packet_view p) (length (packet_wire p))"
    using Cons.prems by (intro parse1_wire) auto
  from cgsf.parse_all_got [OF this] show ?case using Cons by simp
qed

lemma parse1_More_small: "\<lbrakk>cgsf_parse1 ps bs = More; 12 \<le> unat ps\<rbrakk> \<Longrightarrow> length bs < unat ps"
  by (auto simp: cgsf_parse1_def too_big_def Let_def split: if_splits)

lemma cgsf_inv_new:
  assumes "0 < io" "io \<le> MAX_IO_SIZE" "12 \<le> unat ps" "unat ps \<le> 8192"
  shows "cgsf_inv ps (nat io) (cgsf_Initialize io ps opt, pool)"
    and "cgsf_pend (cgsf_Initialize io ps opt, pool) = []"
proof -
  have a: "AllocIOBuf (SFIOBuffer_ctor 0 0) io = (True, snd (AllocIOBuf (SFIOBuffer_ctor 0 0) io))"
    using assms by (simp add: AllocIOBuf_def Let_def)
  note i = AllocIOBuf_inv [OF a]
  show "cgsf_inv ps (nat io) (cgsf_Initialize io ps opt, pool)"
    using i(1,3) assms by (simp add: cgsf_inv_def cgsf_Initialize_def)
  show "cgsf_pend (cgsf_Initialize io ps opt, pool) = []"
    using i(2) by (simp add: cgsf_pend_def cgsf_Initialize_def)
qed

text \<open>Packets that come from the pool keep the base class's packet id.\<close>

definition ids_unset :: "sfpacket list \<Rightarrow> bool" where
  "ids_unset ps \<longleftrightarrow> (\<forall>p \<in> set ps. m_packetID p = -1)"

lemma GetPacket_ids:
  assumes "cgsf_GetPacket err s = Some (r, err', s')" "ids_unset (snd s)"
  shows "ids_unset (snd s') \<and> (\<forall>p. r = Some p \<longrightarrow> m_packetID p = -1)"
proof -
  obtain c pool where s: "s = (c, pool)" by (cases s)
  obtain p pool1 where al: "pool_Alloc SFPacket_new pool = (p, pool1)"
    by (cases "pool_Alloc SFPacket_new pool")
  have ids: "m_packetID p = -1" "ids_unset pool1"
    using al assms(2)
    by (auto simp: pool_Alloc_def SFPacket_new_def Initialize_def s ids_unset_def split: list.splits)
  obtain ok err2 h d b where
    "PIO_GetPacket (m_pPacketIOBuffer c) (m_pHeader (Initialize p)) (m_packetSize c) = (ok, err2, h, d, b)"
    by (cases "PIO_GetPacket (m_pPacketIOBuffer c) (m_pHeader (Initialize p)) (m_packetSize c)")
  then show ?thesis
    using assms(1) ids
    by (auto simp: cgsf_GetPacket_def s al Let_def set_payload_def Initialize_def pool_Release_def
        ids_unset_def split: if_splits)
qed

lemma receive_loop_ids:
  assumes "receive_loop getp tag err s out = Some r"
  shows "getp = cgsf_GetPacket \<longrightarrow> tag = tag_packet serial desc \<longrightarrow> ids_unset (snd s) \<longrightarrow>
    ids_unset out \<longrightarrow> ids_unset (fst r)"
proof (rule receive_loop.raw_induct [where P = "\<lambda>getp tag err s out r. getp = cgsf_GetPacket \<longrightarrow>
    tag = tag_packet serial desc \<longrightarrow> ids_unset (snd s) \<longrightarrow> ids_unset out \<longrightarrow> ids_unset (fst r)",
    OF _ assms])
  fix loop and getp :: "int \<Rightarrow> cgsf_state \<Rightarrow> (sfpacket option \<times> int \<times> cgsf_state) option"
    and tag err s out and r :: "sfpacket list \<times> int \<times> cgsf_state"
  assume 1: "\<And>getp tag err s out r. loop getp tag err s out = Some r \<Longrightarrow> getp = cgsf_GetPacket \<longrightarrow>
      tag = tag_packet serial desc \<longrightarrow> ids_unset (snd s) \<longrightarrow> ids_unset out \<longrightarrow> ids_unset (fst r)"
    "do { x \<leftarrow> getp err s; case x of (None, err', s') \<Rightarrow> Some (out, err', s')
        | (Some p, err', s') \<Rightarrow> loop getp tag err' s' (out @ [tag p]) } = Some r"
  show "getp = cgsf_GetPacket \<longrightarrow> tag = tag_packet serial desc \<longrightarrow> ids_unset (snd s) \<longrightarrow>
    ids_unset out \<longrightarrow> ids_unset (fst r)"
  proof (intro impI)
    assume a: "getp = cgsf_GetPacket" "tag = tag_packet serial desc" "ids_unset (snd s)"
      "ids_unset out"
    obtain x e1 s1 where g: "getp err s = Some (x, e1, s1)"
      using 1(2) by (auto simp: bind_eq_Some_conv)
    note ids = GetPacket_ids [OF g [unfolded a(1)] a(3)]
    show "ids_unset (fst r)"
    proof (cases x)
      case None
      then show ?thesis using 1(2) g a(4) by auto
    next
      case (Some p)
      then have "loop getp tag e1 s1 (out @ [tag p]) = Some r" using 1(2) g by simp
      moreover have "ids_unset (out @ [tag p])"
        using a ids Some by (auto simp: ids_unset_def tag_packet_def)
      ultimately show ?thesis using 1(1) a ids by blast
    qed
  qed
qed

section \<open>Properties\<close>

text \<open>C2: Stream reassembly: let a connection with an empty ring receive the wire bytes of any list of
  packets that fit the protocol's packet size, cut into chunks anywhere (mid-header, mid-payload,
  several packets in one chunk), where the length of each chunk plus the packet size is at most the
  capacity of the ring. It hands the logic layer exactly those packets (header and payload), in
  order, with no error and nothing left over.\<close>

theorem stream_reassembly:
  assumes "cgsf_inv ps cap s" "cgsf_pend s = []"
    and "\<forall>p \<in> set msgs. packet_ok p \<and> GetDataSize p + 12 \<le> unat ps"
    and "concat chunks = concat (map packet_wire msgs)"
    and "\<forall>c \<in> set chunks. length c + unat ps \<le> cap"
  shows "\<exists>qs s'. cgsf_session serial desc s chunks = Some (True, qs, s') \<and>
    map packet_view qs = map packet_view msgs \<and> cgsf_pend s' = []"
proof -
  have ps: "12 \<le> unat ps" using assms(1) by (cases s) (simp add: cgsf_inv_def)
  have m: "cgsf_parse1 ps (cgsf_pend s) = More" by (simp add: assms(2) cgsf_parse1_def)
  have "parse_all (cgsf_parse1 ps) (cgsf_pend s @ concat chunks) = (map packet_view msgs, 0, [])"
    using parse_all_wires [OF assms(3)] assms(2,4) by simp
  from cgsf.receive_chunks_parses [OF assms(1) m parse1_More_small [OF _ ps] assms(5) this]
  show ?thesis unfolding cgsf_session_def by blast
qed

lemma wire_demo: "length (packet_wire demo_packet) = 17"
  using demo_packet_ok(1,2) by (simp add: packet_wire_def packet_ok_def)

theorem stream_reassembly_witness:
  "\<exists>qs s'. cgsf_session 3 empty_desc (cgsf_Initialize 8192 4096 0, [])
      [take 5 (packet_wire demo_packet), drop 5 (packet_wire demo_packet) @ packet_wire demo_packet]
      = Some (True, qs, s') \<and>
    map packet_view qs = map packet_view [demo_packet, demo_packet] \<and> cgsf_pend s' = []"
proof (rule stream_reassembly)
  show "cgsf_inv 4096 8192 (cgsf_Initialize 8192 4096 0, [])"
    "cgsf_pend (cgsf_Initialize 8192 4096 0, []) = []"
    using cgsf_inv_new [of 8192 4096 0 "[]"] by (simp_all add: MAX_IO_SIZE_def)
qed (use demo_packet_ok(1,2) wire_demo in simp_all)

text \<open>C21: Silent loss: when a chunk does not fit the ring (\<open>AppendData\<close> returns -1),
  \<open>AddTransferredData\<close> still reports success, \<open>OnReceive\<close> returns true, and the whole chunk is
  gone: the byte stream has a hole that no later step can see. The chunk is shorter than
  \<open>2^31-MAX_IO_SIZE\<close> bytes (\<open>block_fits\<close>).\<close>

theorem chunk_silently_dropped:
  assumes "cgsf_inv ps cap s" "cgsf_parse1 ps (cgsf_pend s) = More"
    and "cap \<le> length (cgsf_pend s) + length chunk" "block_fits chunk"
  shows "\<exists>s'. cgsf_OnReceive serial desc s chunk = Some (True, [], s') \<and> cgsf_pend s' = cgsf_pend s"
proof -
  obtain c pool where s: "s = (c, pool)" by (cases s)
  have inv: "iobuf_inv (m_pPacketIOBuffer c)" using assms(1) by (simp add: cgsf_inv_def s)
  have "AppendData (m_pPacketIOBuffer c) chunk (int (length chunk)) = Some (-1, m_pPacketIOBuffer c)"
    using AppendData_returns [OF inv refl assms(4)] assms(1,3)
    by (auto simp: cgsf_inv_def cgsf_pend_def s split: if_splits)
  then have add: "cgsf_AddTransferredData s chunk = Some (True, s)"
    by (simp add: cgsf_AddTransferredData_def s)
  obtain err' s' where l: "receive_loop cgsf_GetPacket (tag_packet serial desc) 0 s [] =
      Some ([], err', s')" "err' = 0" "cgsf_pend s' = cgsf_pend s"
    using cgsf.receive_loop_parses [OF assms(1), of serial desc 0 "[]"]
    by (auto simp: cgsf.parse_all_more [OF assms(2)])
  then show ?thesis using add by (simp add: cgsf_OnReceive_def OnReceive_def)
qed

theorem chunk_silently_dropped_witness:
  "\<exists>s'. cgsf_OnReceive 1 empty_desc (cgsf_Initialize 64 40 0, []) (replicate 64 7) = Some (True, [], s') \<and>
    cgsf_pend s' = cgsf_pend (cgsf_Initialize 64 40 0, [])"
proof -
  note i = cgsf_inv_new [of 64 40 0 "[]", simplified MAX_IO_SIZE_def]
  show ?thesis
    by (rule chunk_silently_dropped [of 40 64]) (use i in \<open>simp_all add: cgsf_parse1_def block_fits_def MAX_IO_SIZE_def\<close>)
qed

text \<open>C17: The receiving path never decodes: a packet sent with the encryption option reaches the logic
  layer with its payload still encrypted, and with the base class's packet id still -1 (65535)
  although the header carries the id, because no code calls \<open>SFPacket::Decode\<close>.\<close>

theorem received_packet_not_decoded:
  assumes "packet_ok p" "\<not> m_bEncoded p" "0 < GetDataSize p" "GetDataSize p + 12 \<le> unat ps"
    and "cgsf_inv ps cap (c, [])" "cgsf_pend (c, []) = []" "unat ps < cap"
    and "m_packetOption c = PACKET_OPTION_ENCRYPTION"
    and "cgsf_Encode crc32 htab c p = Some (True, wire, p')"
  shows "\<exists>q s'. cgsf_OnReceive serial desc (c, []) wire = Some (True, [q], s') \<and>
    payload q = XOR_Encrypt (payload p) \<and> packetID (m_pHeader q) = packetID (m_pHeader p) \<and>
    m_packetID q = -1"
proof -
  have opt: "PACKET_OPTION_ENCRYPTION AND PACKET_OPTION_COMPRESS = 0"
    "PACKET_OPTION_ENCRYPTION AND NOT PACKET_OPTION_COMPRESS = PACKET_OPTION_ENCRYPTION"
    "PACKET_OPTION_ENCRYPTION AND PACKET_OPTION_ENCRYPTION \<noteq> 0"
    "PACKET_OPTION_ENCRYPTION AND PACKET_OPTION_DATACRC = 0"
    by (simp_all add: PACKET_OPTION_ENCRYPTION_def PACKET_OPTION_COMPRESS_def PACKET_OPTION_DATACRC_def)
  have e: "encode_compress htab (m_packetSize c) p PACKET_OPTION_ENCRYPTION =
      Some (True, p, PACKET_OPTION_ENCRYPTION)"
    by (simp add: encode_compress_def opt)
  have area: "GetDataSize p \<le> DATA_AREA" using assms(1) by (simp add: packet_ok_def)
  define x where "x = encode_encrypt p PACKET_OPTION_ENCRYPTION"
  have p': "p' = x\<lparr>m_pHeader := header_SetPacketOption PACKET_OPTION_ENCRYPTION (m_pHeader x),
      m_bEncoded := True\<rparr>" and wire: "wire = packet_wire p'"
    using assms(2,3,8,9) area
    by (auto simp: cgsf_Encode_def Encode_def e encode_crc_def opt x_def Let_def)
  note x = encrypt_ok [OF assms(1), of PACKET_OPTION_ENCRYPTION, folded x_def]
  have p'ok: "packet_ok p'" "payload p' = XOR_Encrypt (payload p)" "GetDataSize p' = GetDataSize p"
    "packetID (m_pHeader p') = packetID (m_pHeader p)"
    using x opt by (simp_all add: p' packet_ok_def payload_def GetDataSize_def header_SetPacketOption_def)
  have parse: "parse_all (cgsf_parse1 ps) ([] @ wire) = ([packet_view p'], 0, [])"
    using parse_all_wires [of "[p']" ps] p'ok assms(4) wire by simp
  have len: "length wire \<le> unat ps"
    using p'ok assms(4) wire by (simp add: packet_wire_def packet_ok_def)
  obtain q s' where r: "cgsf_OnReceive serial desc (c, []) wire = Some (True, [q], s')"
    "packet_view q = packet_view p'"
    using cgsf.OnReceive_parses [OF assms(5), of wire serial desc] assms(6,7) len parse
    by (auto simp: cgsf_OnReceive_def)
  obtain s1 where "cgsf_AddTransferredData (c, []) wire = Some (True, s1)" "snd s1 = []"
    using r(1) by (auto simp: cgsf_OnReceive_def OnReceive_def cgsf_AddTransferredData_def
        split: option.splits)
  then have "m_packetID q = -1"
    using r(1) receive_loop_ids [of cgsf_GetPacket "tag_packet serial desc" 0 s1 "[]"]
    by (auto simp: cgsf_OnReceive_def OnReceive_def bind_eq_Some_conv ids_unset_def)
  then show ?thesis using r p'ok by (auto simp: packet_view_def)
qed

theorem received_packet_not_decoded_witness:
  "\<exists>wire p' q s'. cgsf_Encode (\<lambda>_ _. 0) (\<lambda>_. 0) (cgsf_Initialize 8192 4096 4) demo_packet
      = Some (True, wire, p') \<and>
    cgsf_OnReceive 1 empty_desc (cgsf_Initialize 8192 4096 4, []) wire = Some (True, [q], s') \<and>
    payload q = [216, 225, 180, 171, 5] \<and> packetID (m_pHeader q) = 77 \<and> m_packetID q = -1"
proof -
  let ?c = "cgsf_Initialize 8192 4096 4"
  note i = cgsf_inv_new [of 8192 4096 4 "[]", simplified MAX_IO_SIZE_def, simplified]
  have opt: "m_packetOption ?c = PACKET_OPTION_ENCRYPTION"
    by (simp add: cgsf_Initialize_def PACKET_OPTION_ENCRYPTION_def)
  obtain wire p' where e: "cgsf_Encode (\<lambda>_ _. 0) (\<lambda>_. 0) ?c demo_packet = Some (True, wire, p')"
    using demo_packet_ok(2,3)
    by (simp add: cgsf_Encode_def Encode_def encode_compress_def PACKET_COMPRESS_LIMIT_def Let_def)
  have "XOR_Encrypt [1, 2, 3, 4, 5] = [216, 225, 180, 171, 5]"
    by (simp add: XOR_Encrypt_def ENCRYPTION_KEY_def le32_def)
  then show ?thesis
    using received_packet_not_decoded [OF demo_packet_ok(1,3) _ _ i(1,2) _ opt e, of 1 empty_desc]
      demo_packet_ok e
    by auto
qed

text \<open>A session's protocol object is a clone, and \<open>Clone\<close> copies the configured sizes but keeps the
  default 8192-byte ring: a packet of the largest configured size, which the configured object
  receives, is dropped by every session without an error.\<close>

theorem clone_drops_large_packet:
  assumes "packet_ok p" "GetDataSize p = 8180"
  shows "(\<exists>s'. cgsf_OnReceive serial desc (SFPacketProtocol_Clone (SFPacketProtocol_new 16384 8192 opt), [])
      (packet_wire p) = Some (True, [], s') \<and> cgsf_pend s' = []) \<and>
    (\<exists>q s'. cgsf_OnReceive serial desc (SFPacketProtocol_new 16384 8192 opt, [])
      (packet_wire p) = Some (True, [q], s') \<and> packet_view q = packet_view p)"
proof -
  have new: "SFPacketProtocol_new 16384 8192 opt = cgsf_Initialize 16384 8192 opt"
    by (simp add: SFPacketProtocol_new_def MAX_IO_SIZE_def)
  have wire: "length (packet_wire p) = 8192"
    using assms by (simp add: packet_wire_def packet_ok_def)
  let ?cl = "SFPacketProtocol_Clone (cgsf_Initialize 16384 8192 opt)"
  have "m_pPacketIOBuffer ?cl = m_pPacketIOBuffer (cgsf_Initialize 8192 4096 0)"
    by (simp add: SFPacketProtocol_Clone_def cgsf_CopyBaseProtocol_def SFPacketProtocol_default_def
        PACKET_DEFAULT_IO_SIZE_def PACKET_DEFAULT_PACKET_SIZE_def)
  moreover have "m_packetSize ?cl = 8192"
    by (simp add: SFPacketProtocol_Clone_def cgsf_CopyBaseProtocol_def cgsf_Initialize_def)
  moreover note i = cgsf_inv_new [of 8192 4096 0 "[]", simplified MAX_IO_SIZE_def, simplified]
  ultimately have inv: "cgsf_inv 8192 8192 (?cl, [])" and pend: "cgsf_pend (?cl, []) = []"
    by (simp_all add: cgsf_inv_def cgsf_pend_def)
  have more: "cgsf_parse1 8192 [] = More" by (simp add: cgsf_parse1_def)
  obtain c where c: "?cl = c" by blast
  have add: "cgsf_AddTransferredData (?cl, []) (packet_wire p) = Some (True, (?cl, []))"
    using AppendData_returns [OF _ refl, of "m_pPacketIOBuffer ?cl" "packet_wire p"] inv pend wire
    by (auto simp: block_fits_def MAX_IO_SIZE_def cgsf_AddTransferredData_def cgsf_inv_def cgsf_pend_def c split: if_splits)
  obtain s' where "receive_loop cgsf_GetPacket (tag_packet serial desc) 0 (?cl, []) [] = Some ([], 0, s')"
    "cgsf_pend s' = []"
    using cgsf.receive_loop_parses [OF inv, of serial desc 0 "[]"] pend
    by (auto simp: cgsf.parse_all_more [OF more])
  then have "\<exists>s'. cgsf_OnReceive serial desc
      (SFPacketProtocol_Clone (SFPacketProtocol_new 16384 8192 opt), []) (packet_wire p)
      = Some (True, [], s') \<and> cgsf_pend s' = []"
    unfolding new using add by (simp add: cgsf_OnReceive_def OnReceive_def)
  moreover note j = cgsf_inv_new [of 16384 8192 opt "[]", simplified MAX_IO_SIZE_def, simplified]
  have "parse_all (cgsf_parse1 8192) ([] @ packet_wire p) = ([packet_view p], 0, [])"
    using parse_all_wires [of "[p]" 8192] assms by simp
  then have "\<exists>q s'. cgsf_OnReceive serial desc (SFPacketProtocol_new 16384 8192 opt, [])
      (packet_wire p) = Some (True, [q], s') \<and> packet_view q = packet_view p"
    unfolding new using cgsf.OnReceive_parses [OF j(1), of "packet_wire p" serial desc] j(2) wire
    by (auto simp: cgsf_OnReceive_def)
  ultimately show ?thesis by blast
qed

lemma big_packet: "\<exists>p. packet_ok p \<and> GetDataSize p = 8180"
  using write_data_ok [OF SFPacket_with_id_ok, of 1 "replicate 8180 0"] by force

theorem clone_drops_large_packet_witness:
  "\<exists>p s'. GetPacketSize p = 8192 \<and>
    cgsf_OnReceive 1 empty_desc (SFPacketProtocol_Clone (SFPacketProtocol_new 16384 8192 0), [])
      (packet_wire p) = Some (True, [], s') \<and> cgsf_pend s' = []"
proof -
  obtain p where p: "packet_ok p" "GetDataSize p = 8180" using big_packet by blast
  then show ?thesis using clone_drops_large_packet [OF p] by (fastforce simp: GetPacketSize_def)
qed

text \<open>The constructor's clamp fails for a non-positive buffer size: with -1 the packet size becomes
  65535 while the ring gets its default 16384 bytes, so a header announcing 9000 bytes makes
  \<open>GetPacket\<close> copy past the packet's 8180-byte data area.\<close>

theorem negative_size_overflow:
  "m_packetSize (SFPacketProtocol_new (-1) 4096 opt) = 65535 \<and>
    (\<exists>wire. length wire = 9012 \<and>
      cgsf_OnReceive serial desc (SFPacketProtocol_new (-1) 4096 opt, []) wire = None)"
proof -
  have m: "(- 1 :: u16) = 65535"
    by (simp add: word_eq_iff_unsigned unsigned_minus_1_eq_mask mask_eq_exp_minus_1)
  have "SFPacketProtocol_new (-1) 4096 opt = cgsf_Initialize (-1) (- 1) opt"
    by (simp add: SFPacketProtocol_new_def MAX_IO_SIZE_def)
  then have new: "SFPacketProtocol_new (-1) 4096 opt = cgsf_Initialize (-1) 65535 opt"
    unfolding m .
  let ?c = "cgsf_Initialize (-1) 65535 opt" and ?h = "header_Clear\<lparr>dataSize := 9000\<rparr>"
  let ?wire = "header_bytes ?h @ replicate 9000 0"
  have ps: "m_packetSize ?c = 65535" by (simp add: cgsf_Initialize_def)
  have a: "AllocIOBuf (SFIOBuffer_ctor 0 0) (-1) = (True, m_pPacketIOBuffer ?c)"
    by (simp add: AllocIOBuf_def Let_def cgsf_Initialize_def)
  note i = AllocIOBuf_inv [OF a]
  obtain b where b: "AppendData (m_pPacketIOBuffer ?c) ?wire (int (length ?wire)) = Some (9012, b)"
    "iobuf_inv b" "iobuf_bytes b = ?wire"
    using AppendData_returns [OF i(1) refl, of ?wire] i(2,3) by (auto simp: MAX_IO_SIZE_def block_fits_def)
  have "header_of ?wire = ?h" by simp
  then have p1: "cgsf_parse1 65535 ?wire = Got (?h, replicate 9000 0, True) 9012"
    unfolding cgsf_parse1_def by (simp add: Let_def too_big_def)
  obtain h d b' where g: "PIO_GetPacket b header_Clear 65535 = (True, 0, h, d, b')" "length d = 9000"
    using PIO_GetPacket_spec [OF b(2), of header_Clear 65535] unfolding b(3) p1 by auto
  have hc: "m_pHeader (Initialize SFPacket_new) = header_Clear" by (simp add: Initialize_def)
  have "cgsf_GetPacket 0 (?c\<lparr>m_pPacketIOBuffer := b\<rparr>, []) = None"
    using g ps by (simp add: cgsf_GetPacket_def pool_Alloc_def hc)
  then have "receive_loop cgsf_GetPacket (tag_packet serial desc) 0 (?c\<lparr>m_pPacketIOBuffer := b\<rparr>, []) [] = None"
    by (subst receive_loop.simps) simp
  moreover have "cgsf_AddTransferredData (?c, []) ?wire = Some (True, (?c\<lparr>m_pPacketIOBuffer := b\<rparr>, []))"
    using b(1) by (simp add: cgsf_AddTransferredData_def)
  ultimately have "cgsf_OnReceive serial desc (?c, []) ?wire = None"
    by (simp add: cgsf_OnReceive_def OnReceive_def)
  then show ?thesis unfolding new using ps by (intro conjI exI [of _ ?wire]) simp_all
qed

end
