(* ===== verification/RbTree.thy ===== *)
theory RbTree
  imports Prelude "HOL-Library.Monad_Syntax"
begin

text \<open>
  The red-black tree of libconhash (BaseLayer/libconhash/util_rbtree.c and util_rbtree.h),
  modelled on its pointers: nodes with parent links in a heap, and the tree's own sentinel node
  \<open>null\<close> that stands for every missing child.

  A pointer is the C null pointer, the address of the sentinel, or the address of an allocated
  node. Every field access goes through \<open>deref\<close> and \<open>store\<close>, which return \<open>None\<close> on the null
  pointer and on an address that is not allocated, so a use after free is \<open>None\<close>. The loops are
  \<open>partial_function (option)\<close>: one that does not end is \<open>None\<close> as well.

  \<open>long\<close> keys are \<open>int\<close>: the code only compares them.
\<close>

section \<open>Nodes, pointers and the heap\<close>

datatype ptr = Null | Sentinel | At nat

record 'a rbnode =
  key :: int
  parent :: ptr
  right :: ptr
  left :: ptr
  color :: int
  data :: 'a

record 'a rbtree =
  root :: ptr
  null :: "'a rbnode"
  size :: u32
  heap :: "nat \<Rightarrow> 'a rbnode option"

definition deref :: "'a rbtree \<Rightarrow> ptr \<Rightarrow> 'a rbnode option" where
  "deref t p = (case p of Null \<Rightarrow> None | Sentinel \<Rightarrow> Some (null t) | At n \<Rightarrow> heap t n)"

definition store :: "ptr \<Rightarrow> ('a rbnode \<Rightarrow> 'a rbnode) \<Rightarrow> 'a rbtree \<Rightarrow> 'a rbtree option" where
  "store p f t = (case p of
     Null \<Rightarrow> None
   | Sentinel \<Rightarrow> Some (t\<lparr>null := f (null t)\<rparr>)
   | At n \<Rightarrow> (case heap t n of None \<Rightarrow> None | Some x \<Rightarrow> Some (t\<lparr>heap := (heap t)(n \<mapsto> f x)\<rparr>)))"

abbreviation get_parent :: "'a rbtree \<Rightarrow> ptr \<Rightarrow> ptr option" where
  "get_parent t p \<equiv> map_option parent (deref t p)"

abbreviation get_left :: "'a rbtree \<Rightarrow> ptr \<Rightarrow> ptr option" where
  "get_left t p \<equiv> map_option left (deref t p)"

abbreviation get_right :: "'a rbtree \<Rightarrow> ptr \<Rightarrow> ptr option" where
  "get_right t p \<equiv> map_option right (deref t p)"

abbreviation get_key :: "'a rbtree \<Rightarrow> ptr \<Rightarrow> int option" where
  "get_key t p \<equiv> map_option key (deref t p)"

abbreviation get_color :: "'a rbtree \<Rightarrow> ptr \<Rightarrow> int option" where
  "get_color t p \<equiv> map_option color (deref t p)"

abbreviation set_parent :: "ptr \<Rightarrow> ptr \<Rightarrow> 'a rbtree \<Rightarrow> 'a rbtree option" where
  "set_parent p v \<equiv> store p (\<lambda>x. x\<lparr>parent := v\<rparr>)"

abbreviation set_left :: "ptr \<Rightarrow> ptr \<Rightarrow> 'a rbtree \<Rightarrow> 'a rbtree option" where
  "set_left p v \<equiv> store p (\<lambda>x. x\<lparr>left := v\<rparr>)"

abbreviation set_right :: "ptr \<Rightarrow> ptr \<Rightarrow> 'a rbtree \<Rightarrow> 'a rbtree option" where
  "set_right p v \<equiv> store p (\<lambda>x. x\<lparr>right := v\<rparr>)"

abbreviation set_color :: "ptr \<Rightarrow> int \<Rightarrow> 'a rbtree \<Rightarrow> 'a rbtree option" where
  "set_color p v \<equiv> store p (\<lambda>x. x\<lparr>color := v\<rparr>)"

definition util_rbt_black :: "ptr \<Rightarrow> 'a rbtree \<Rightarrow> 'a rbtree option" where
  "util_rbt_black p t = set_color p 1 t"

definition util_rbt_red :: "ptr \<Rightarrow> 'a rbtree \<Rightarrow> 'a rbtree option" where
  "util_rbt_red p t = set_color p 0 t"

definition util_rbt_isblack :: "'a rbtree \<Rightarrow> ptr \<Rightarrow> bool option" where
  "util_rbt_isblack t p = map_option (\<lambda>c. c = 1) (get_color t p)"

definition util_rbt_isred :: "'a rbtree \<Rightarrow> ptr \<Rightarrow> bool option" where
  "util_rbt_isred t p = map_option (\<lambda>c. c = 0) (get_color t p)"

definition rbt_clear_node :: "ptr \<Rightarrow> 'a rbtree \<Rightarrow> 'a rbtree option" where
  "rbt_clear_node p t = do {
     t1 \<leftarrow> set_left p Null t; t2 \<leftarrow> set_right p Null t1; set_parent p Null t2
   }"

definition util_rbtree_isempty :: "'a rbtree \<Rightarrow> bool" where
  "util_rbtree_isempty t \<longleftrightarrow> root t = Sentinel"

text \<open>\<open>malloc\<close> of a node at a free address and \<open>free\<close>, for the callers of the tree.\<close>

definition alloc_node :: "nat \<Rightarrow> 'a rbnode \<Rightarrow> 'a rbtree \<Rightarrow> 'a rbtree" where
  "alloc_node a x t = t\<lparr>heap := (heap t)(a \<mapsto> x)\<rparr>"

definition free_node :: "ptr \<Rightarrow> 'a rbtree \<Rightarrow> 'a rbtree option" where
  "free_node p t = (case p of
     Null \<Rightarrow> Some t
   | Sentinel \<Rightarrow> None
   | At n \<Rightarrow> (if heap t n = None then None else Some (t\<lparr>heap := (heap t)(n := None)\<rparr>)))"

section \<open>Construction, minimum, maximum\<close>

definition util_rbtree_init :: "'a rbtree \<Rightarrow> 'a rbtree" where
  "util_rbtree_init t = t\<lparr>null := (null t)\<lparr>color := 1\<rparr>, root := Sentinel, size := 0\<rparr>"

partial_function (option) rbt_leftmost :: "'a rbtree \<Rightarrow> ptr \<Rightarrow> ptr option" where
  "rbt_leftmost t p = do {
     l \<leftarrow> get_left t p;
     if l \<noteq> Sentinel then rbt_leftmost t l else Some p
   }"

partial_function (option) rbt_rightmost :: "'a rbtree \<Rightarrow> ptr \<Rightarrow> ptr option" where
  "rbt_rightmost t p = do {
     r \<leftarrow> get_right t p;
     if r \<noteq> Sentinel then rbt_rightmost t r else Some p
   }"

definition util_rbsubtree_min :: "'a rbtree \<Rightarrow> ptr \<Rightarrow> ptr option" where
  "util_rbsubtree_min t p = (if p = Sentinel then Some Null else rbt_leftmost t p)"

definition util_rbsubtree_max :: "'a rbtree \<Rightarrow> ptr \<Rightarrow> ptr option" where
  "util_rbsubtree_max t p = (if p = Sentinel then Some Null else rbt_rightmost t p)"

section \<open>Rotations\<close>

text \<open>The link from the parent (or the root) of a node to the node that takes its place.\<close>

definition replace_child :: "ptr \<Rightarrow> ptr \<Rightarrow> 'a rbtree \<Rightarrow> 'a rbtree option" where
  "replace_child node new t =
     (if node = root t then Some (t\<lparr>root := new\<rparr>)
      else do {
        p \<leftarrow> get_parent t node;
        pl \<leftarrow> get_left t p;
        if pl = node then set_left p new t else set_right p new t
      })"

definition rbtree_left_rotate :: "ptr \<Rightarrow> 'a rbtree \<Rightarrow> 'a rbtree option" where
  "rbtree_left_rotate node t = do {
     rc \<leftarrow> get_right t node;
     rclc \<leftarrow> get_left t rc;
     np \<leftarrow> get_parent t node;
     t1 \<leftarrow> set_parent rc np t;
     t2 \<leftarrow> replace_child node rc t1;
     t3 \<leftarrow> set_parent node rc t2;
     t4 \<leftarrow> set_left rc node t3;
     t5 \<leftarrow> set_right node rclc t4;
     if rclc \<noteq> Sentinel then set_parent rclc node t5 else Some t5
   }"

definition rbtree_right_rotate :: "ptr \<Rightarrow> 'a rbtree \<Rightarrow> 'a rbtree option" where
  "rbtree_right_rotate node t = do {
     lc \<leftarrow> get_left t node;
     lcrc \<leftarrow> get_right t lc;
     np \<leftarrow> get_parent t node;
     t1 \<leftarrow> set_parent lc np t;
     t2 \<leftarrow> replace_child node lc t1;
     t3 \<leftarrow> set_right lc node t2;
     t4 \<leftarrow> set_parent node lc t3;
     t5 \<leftarrow> set_left node lcrc t4;
     if lcrc \<noteq> Sentinel then set_parent lcrc node t5 else Some t5
   }"

section \<open>Insertion\<close>

text \<open>The branch of \<open>rbtree_insert_fixup\<close> for a red parent that is a left child (\<open>side\<close>) or a
  right child; the result is the next \<open>node\<close> of the loop.\<close>

definition fixup_recolor :: "ptr \<Rightarrow> ptr \<Rightarrow> 'a rbtree \<Rightarrow> (ptr \<times> 'a rbtree) option" where
  "fixup_recolor p u t = do {
     t1 \<leftarrow> util_rbt_black u t;
     t2 \<leftarrow> util_rbt_black p t1;
     g \<leftarrow> get_parent t2 p;
     t3 \<leftarrow> util_rbt_red g t2;
     g' \<leftarrow> get_parent t3 p;
     Some (g', t3)
   }"

definition fixup_left :: "ptr \<Rightarrow> ptr \<Rightarrow> ptr \<Rightarrow> 'a rbtree \<Rightarrow> (ptr \<times> 'a rbtree) option" where
  "fixup_left node p g t = do {
     u \<leftarrow> get_right t g;
     ured \<leftarrow> util_rbt_isred t u;
     if ured then fixup_recolor p u t
     else do {
       pr \<leftarrow> get_right t p;
       (node', p', t1) \<leftarrow>
         (if node = pr then do {
            t1 \<leftarrow> rbtree_left_rotate p t;
            p' \<leftarrow> get_parent t1 p;
            Some (p, p', t1)
          } else Some (node, p, t));
       t2 \<leftarrow> util_rbt_black p' t1;
       g1 \<leftarrow> get_parent t2 p';
       t3 \<leftarrow> util_rbt_red g1 t2;
       g2 \<leftarrow> get_parent t3 p';
       t4 \<leftarrow> rbtree_right_rotate g2 t3;
       Some (node', t4)
     }
   }"

definition fixup_right :: "ptr \<Rightarrow> ptr \<Rightarrow> ptr \<Rightarrow> 'a rbtree \<Rightarrow> (ptr \<times> 'a rbtree) option" where
  "fixup_right node p g t = do {
     u \<leftarrow> get_left t g;
     ured \<leftarrow> util_rbt_isred t u;
     if ured then fixup_recolor p u t
     else do {
       pl \<leftarrow> get_left t p;
       (node', p', t1) \<leftarrow>
         (if pl = node then do {
            t1 \<leftarrow> rbtree_right_rotate p t;
            p' \<leftarrow> get_parent t1 p;
            Some (p, p', t1)
          } else Some (node, p, t));
       t2 \<leftarrow> util_rbt_black p' t1;
       g1 \<leftarrow> get_parent t2 p';
       t3 \<leftarrow> util_rbt_red g1 t2;
       g2 \<leftarrow> get_parent t3 p';
       t4 \<leftarrow> rbtree_left_rotate g2 t3;
       Some (node', t4)
     }
   }"

partial_function (option) insert_fixup_loop :: "ptr \<Rightarrow> 'a rbtree \<Rightarrow> 'a rbtree option" where
  "insert_fixup_loop node t = do {
     p \<leftarrow> get_parent t node;
     pred \<leftarrow> util_rbt_isred t p;
     if \<not> pred then Some t
     else do {
       g \<leftarrow> get_parent t p;
       gl \<leftarrow> get_left t g;
       (node', t') \<leftarrow> (if p = gl then fixup_left node p g t else fixup_right node p g t);
       insert_fixup_loop node' t'
     }
   }"

definition rbtree_insert_fixup :: "ptr \<Rightarrow> 'a rbtree \<Rightarrow> 'a rbtree option" where
  "rbtree_insert_fixup node t = do {
     t' \<leftarrow> insert_fixup_loop node t;
     util_rbt_black (root t') t'
   }"

partial_function (option) find_insert_pos :: "'a rbtree \<Rightarrow> int \<Rightarrow> ptr \<Rightarrow> ptr \<Rightarrow> ptr option" where
  "find_insert_pos t k x y =
     (if x \<noteq> Sentinel
      then do {
        xk \<leftarrow> get_key t x;
        x' \<leftarrow> (if k < xk then get_left t x else get_right t x);
        find_insert_pos t k x' x
      }
      else Some y)"

definition util_rbtree_insert :: "ptr \<Rightarrow> 'a rbtree \<Rightarrow> 'a rbtree option" where
  "util_rbtree_insert node t =
     (if node = Null \<or> node = Sentinel then Some t
      else do {
        t1 \<leftarrow> (if root t = Sentinel
               then set_parent node Sentinel (t\<lparr>root := node\<rparr>)
               else do {
                 k \<leftarrow> get_key t node;
                 y \<leftarrow> find_insert_pos t k (root t) Null;
                 t1 \<leftarrow> set_parent node y t;
                 yk \<leftarrow> get_key t1 y;
                 if k < yk then set_left y node t1 else set_right y node t1
               });
        t2 \<leftarrow> set_left node Sentinel t1;
        t3 \<leftarrow> set_right node Sentinel t2;
        t4 \<leftarrow> util_rbt_red node t3;
        t5 \<leftarrow> rbtree_insert_fixup node t4;
        Some (t5\<lparr>size := size t5 + 1\<rparr>)
      })"

section \<open>Deletion\<close>

text \<open>One round of \<open>rbtree_delete_fixup\<close> for a node that is a left child, and its mirror. The
  result is the next \<open>node\<close>.\<close>

definition delete_fixup_left :: "ptr \<Rightarrow> 'a rbtree \<Rightarrow> (ptr \<times> 'a rbtree) option" where
  "delete_fixup_left node t = do {
     np \<leftarrow> get_parent t node;
     w0 \<leftarrow> get_right t np;
     wred \<leftarrow> util_rbt_isred t w0;
     (w, t1) \<leftarrow>
       (if wred then do {
          t1 \<leftarrow> util_rbt_black w0 t;
          p1 \<leftarrow> get_parent t1 node;
          t2 \<leftarrow> util_rbt_red p1 t1;
          p2 \<leftarrow> get_parent t2 node;
          t3 \<leftarrow> rbtree_left_rotate p2 t2;
          p3 \<leftarrow> get_parent t3 node;
          w1 \<leftarrow> get_right t3 p3;
          Some (w1, t3)
        } else Some (w0, t));
     wl \<leftarrow> get_left t1 w;
     lb \<leftarrow> util_rbt_isblack t1 wl;
     both \<leftarrow> (if lb then do { wr \<leftarrow> get_right t1 w; util_rbt_isblack t1 wr } else Some False);
     if both then do {
       t2 \<leftarrow> util_rbt_red w t1;
       p \<leftarrow> get_parent t2 node;
       Some (p, t2)
     }
     else do {
       wr \<leftarrow> get_right t1 w;
       rb \<leftarrow> util_rbt_isblack t1 wr;
       (w', t2) \<leftarrow>
         (if rb then do {
            wl' \<leftarrow> get_left t1 w;
            t2 \<leftarrow> util_rbt_black wl' t1;
            t3 \<leftarrow> util_rbt_red w t2;
            t4 \<leftarrow> rbtree_right_rotate w t3;
            p \<leftarrow> get_parent t4 node;
            w1 \<leftarrow> get_right t4 p;
            Some (w1, t4)
          } else Some (w, t1));
       p \<leftarrow> get_parent t2 node;
       pc \<leftarrow> get_color t2 p;
       t3 \<leftarrow> set_color w' pc t2;
       p' \<leftarrow> get_parent t3 node;
       t4 \<leftarrow> util_rbt_black p' t3;
       wr' \<leftarrow> get_right t4 w';
       t5 \<leftarrow> util_rbt_black wr' t4;
       p'' \<leftarrow> get_parent t5 node;
       t6 \<leftarrow> rbtree_left_rotate p'' t5;
       Some (root t6, t6)
     }
   }"

definition delete_fixup_right :: "ptr \<Rightarrow> 'a rbtree \<Rightarrow> (ptr \<times> 'a rbtree) option" where
  "delete_fixup_right node t = do {
     np \<leftarrow> get_parent t node;
     w0 \<leftarrow> get_left t np;
     wred \<leftarrow> util_rbt_isred t w0;
     (w, t1) \<leftarrow>
       (if wred then do {
          t1 \<leftarrow> util_rbt_black w0 t;
          p1 \<leftarrow> get_parent t1 node;
          t2 \<leftarrow> util_rbt_red p1 t1;
          p2 \<leftarrow> get_parent t2 node;
          t3 \<leftarrow> rbtree_right_rotate p2 t2;
          p3 \<leftarrow> get_parent t3 node;
          w1 \<leftarrow> get_left t3 p3;
          Some (w1, t3)
        } else Some (w0, t));
     wl \<leftarrow> get_left t1 w;
     lb \<leftarrow> util_rbt_isblack t1 wl;
     both \<leftarrow> (if lb then do { wr \<leftarrow> get_right t1 w; util_rbt_isblack t1 wr } else Some False);
     if both then do {
       t2 \<leftarrow> util_rbt_red w t1;
       p \<leftarrow> get_parent t2 node;
       Some (p, t2)
     }
     else do {
       wl' \<leftarrow> get_left t1 w;
       lb' \<leftarrow> util_rbt_isblack t1 wl';
       (w', t2) \<leftarrow>
         (if lb' then do {
            wr \<leftarrow> get_right t1 w;
            t2 \<leftarrow> util_rbt_black wr t1;
            t3 \<leftarrow> util_rbt_red w t2;
            t4 \<leftarrow> rbtree_left_rotate w t3;
            p \<leftarrow> get_parent t4 node;
            w1 \<leftarrow> get_left t4 p;
            Some (w1, t4)
          } else Some (w, t1));
       p \<leftarrow> get_parent t2 node;
       pc \<leftarrow> get_color t2 p;
       t3 \<leftarrow> set_color w' pc t2;
       p' \<leftarrow> get_parent t3 node;
       t4 \<leftarrow> util_rbt_black p' t3;
       wl'' \<leftarrow> get_left t4 w';
       t5 \<leftarrow> util_rbt_black wl'' t4;
       p'' \<leftarrow> get_parent t5 node;
       t6 \<leftarrow> rbtree_right_rotate p'' t5;
       Some (root t6, t6)
     }
   }"

partial_function (option) delete_fixup_loop :: "ptr \<Rightarrow> 'a rbtree \<Rightarrow> (ptr \<times> 'a rbtree) option" where
  "delete_fixup_loop node t = do {
     go \<leftarrow> (if node \<noteq> root t then util_rbt_isblack t node else Some False);
     if \<not> go then Some (node, t)
     else do {
       p \<leftarrow> get_parent t node;
       pl \<leftarrow> get_left t p;
       (node', t') \<leftarrow> (if node = pl then delete_fixup_left node t else delete_fixup_right node t);
       delete_fixup_loop node' t'
     }
   }"

definition rbtree_delete_fixup :: "ptr \<Rightarrow> 'a rbtree \<Rightarrow> 'a rbtree option" where
  "rbtree_delete_fixup node t = do {
     (node', t') \<leftarrow> delete_fixup_loop node t;
     util_rbt_black node' t'
   }"

text \<open>The removed position \<open>temp\<close> and the node \<open>subst\<close> that takes it.\<close>

definition delete_pos :: "ptr \<Rightarrow> 'a rbtree \<Rightarrow> (ptr \<times> ptr) option" where
  "delete_pos node t = do {
     l \<leftarrow> get_left t node;
     r \<leftarrow> get_right t node;
     if l = Sentinel then Some (node, r)
     else if r = Sentinel then Some (node, l)
     else do {
       temp \<leftarrow> util_rbsubtree_min t r;
       tl \<leftarrow> get_left t temp;
       if tl \<noteq> Sentinel then Some (temp, tl)
       else do { tr \<leftarrow> get_right t temp; Some (temp, tr) }
     }
   }"

text \<open>\<open>temp\<close> replaces \<open>node\<close> in the tree.\<close>

definition replace_node :: "ptr \<Rightarrow> ptr \<Rightarrow> 'a rbtree \<Rightarrow> 'a rbtree option" where
  "replace_node node temp t = do {
     np \<leftarrow> get_parent t node;
     t1 \<leftarrow> set_parent temp np t;
     t2 \<leftarrow> replace_child node temp t1;
     nr \<leftarrow> get_right t2 node;
     t3 \<leftarrow> set_right temp nr t2;
     nl \<leftarrow> get_left t3 node;
     t4 \<leftarrow> set_left temp nl t3;
     tl \<leftarrow> get_left t4 temp;
     t5 \<leftarrow> (if tl \<noteq> Sentinel then set_parent tl temp t4 else Some t4);
     tr \<leftarrow> get_right t5 temp;
     t6 \<leftarrow> (if tr \<noteq> Sentinel then set_parent tr temp t5 else Some t5);
     nc \<leftarrow> get_color t6 node;
     set_color temp nc t6
   }"

definition util_rbtree_delete :: "ptr \<Rightarrow> 'a rbtree \<Rightarrow> 'a rbtree option" where
  "util_rbtree_delete node t0 =
     (if node = Null \<or> node = Sentinel then Some t0
      else do {
        let t = t0\<lparr>size := size t0 - 1\<rparr>;
        (temp, subst) \<leftarrow> delete_pos node t;
        if temp = root t
        then do {
          t1 \<leftarrow> util_rbt_black subst (t\<lparr>root := subst\<rparr>);
          rbt_clear_node temp t1
        }
        else do {
          isblack \<leftarrow> util_rbt_isblack t temp;
          tp \<leftarrow> get_parent t temp;
          t1 \<leftarrow> set_parent subst (if tp = node then temp else tp) t;
          tp' \<leftarrow> get_parent t1 temp;
          tpl \<leftarrow> get_left t1 tp';
          t2 \<leftarrow> (if temp = tpl then set_left tp' subst t1 else set_right tp' subst t1);
          t3 \<leftarrow> (if temp \<noteq> node then replace_node node temp t2 else Some t2);
          t4 \<leftarrow> rbt_clear_node node t3;
          if isblack then rbtree_delete_fixup subst t4 else Some t4
        }
      })"

section \<open>Search\<close>

partial_function (option) search_loop :: "'a rbtree \<Rightarrow> int \<Rightarrow> ptr \<Rightarrow> ptr option" where
  "search_loop t k node =
     (if node = Sentinel then Some Null
      else do {
        nk \<leftarrow> get_key t node;
        if k < nk then do { l \<leftarrow> get_left t node; search_loop t k l }
        else if k > nk then do { r \<leftarrow> get_right t node; search_loop t k r }
        else Some node
      })"

definition util_rbtree_search :: "'a rbtree \<Rightarrow> int \<Rightarrow> ptr option" where
  "util_rbtree_search t k = search_loop t k (root t)"

partial_function (option) lookup_loop :: "'a rbtree \<Rightarrow> int \<Rightarrow> ptr \<Rightarrow> ptr \<Rightarrow> ptr option" where
  "lookup_loop t k node temp =
     (if temp = Sentinel then Some node
      else do {
        tk \<leftarrow> get_key t temp;
        if k \<le> tk then do { l \<leftarrow> get_left t temp; lookup_loop t k temp l }
        else do { r \<leftarrow> get_right t temp; lookup_loop t k node r }
      })"

definition util_rbtree_lookup :: "'a rbtree \<Rightarrow> int \<Rightarrow> ptr option" where
  "util_rbtree_lookup t k =
     (if \<not> util_rbtree_isempty t
      then do {
        node \<leftarrow> lookup_loop t k Null (root t);
        if node \<noteq> Null then Some node else util_rbsubtree_min t (root t)
      }
      else Some Null)"

section \<open>Traversal and the self check\<close>

text \<open>\<open>rbtree_mid_travel\<close> with a callback that updates \<open>data\<close>.\<close>

partial_function (option) rbtree_mid_travel ::
  "'a rbtree \<Rightarrow> ('a rbnode \<Rightarrow> 's \<Rightarrow> 's) \<Rightarrow> ptr \<Rightarrow> 's \<Rightarrow> 's option" where
  "rbtree_mid_travel t opera node s = do {
     l \<leftarrow> get_left t node;
     s1 \<leftarrow> (if l \<noteq> Sentinel then rbtree_mid_travel t opera l s else Some s);
     n \<leftarrow> deref t node;
     let s2 = opera n s1;
     r \<leftarrow> get_right t node;
     if r \<noteq> Sentinel then rbtree_mid_travel t opera r s2 else Some s2
   }"

definition util_rbtree_mid_travel ::
  "'a rbtree \<Rightarrow> ('a rbnode \<Rightarrow> 's \<Rightarrow> 's) \<Rightarrow> 's \<Rightarrow> 's option" where
  "util_rbtree_mid_travel t opera s =
     (if \<not> util_rbtree_isempty t then rbtree_mid_travel t opera (root t) s else Some s)"

record rbtree_check_t =
  rbh :: int
  maxd :: int
  fini :: int

text \<open>Storing an \<open>int\<close> in a \<open>short\<close>.\<close>

definition as_short :: "int \<Rightarrow> int" where
  "as_short i = sint (word_of_int i :: 16 word)"

definition check_rb_height :: "int \<Rightarrow> int \<Rightarrow> rbtree_check_t \<Rightarrow> rbtree_check_t" where
  \<comment> \<open>the label \<open>__check_rb_height\<close>\<close>
  "check_rb_height level curheight c =
     (let c1 = (if rbh c = 0 then c\<lparr>rbh := as_short curheight\<rparr> else c);
          c2 = (if maxd c1 < level then c1\<lparr>maxd := as_short level\<rparr> else c1)
      in if rbh c2 \<noteq> curheight then c2\<lparr>fini := 3\<rparr> else c2)"

definition check_child :: "'a rbtree \<Rightarrow> ptr \<Rightarrow> ptr \<Rightarrow> bool \<Rightarrow> int option" where
  \<comment> \<open>the tests made before descending into a child: 4, 5 or 0\<close>
  "check_child t node child is_left = do {
     nred \<leftarrow> util_rbt_isred t node;
     bad \<leftarrow> (if nred then util_rbt_isred t child else Some False);
     if bad then Some 4
     else do {
       nk \<leftarrow> get_key t node;
       ck \<leftarrow> get_key t child;
       Some (if (if is_left then nk < ck else nk > ck) then 5 else 0)
     }
   }"

partial_function (option) rbtree_check_subtree ::
  "'a rbtree \<Rightarrow> ptr \<Rightarrow> int \<Rightarrow> int \<Rightarrow> rbtree_check_t \<Rightarrow> rbtree_check_t option" where
  "rbtree_check_subtree t node level curheight0 c =
     (if fini c \<noteq> 0 then Some c
      else do {
        nblack \<leftarrow> util_rbt_isblack t node;
        nred \<leftarrow> util_rbt_isred t node;
        if \<not> nblack \<and> \<not> nred then Some (c\<lparr>fini := 2\<rparr>)
        else do {
          let curheight = (if nblack then curheight0 + 1 else curheight0);
          l \<leftarrow> get_left t node;
          if l = Sentinel then Some (check_rb_height level curheight c)
          else do {
            e \<leftarrow> check_child t node l True;
            if e \<noteq> 0 then Some (c\<lparr>fini := e\<rparr>)
            else do {
              c1 \<leftarrow> rbtree_check_subtree t l (level + 1) curheight c;
              r \<leftarrow> get_right t node;
              if r = Sentinel then Some (check_rb_height level curheight c1)
              else do {
                e' \<leftarrow> check_child t node r False;
                if e' \<noteq> 0 then Some (c1\<lparr>fini := e'\<rparr>)
                else rbtree_check_subtree t r (level + 1) curheight c1
              }
            }
          }
        }
      })"

definition util_rbtree_check :: "'a rbtree \<Rightarrow> (int \<times> int \<times> int) option" where
  \<comment> \<open>the return value and what is stored at \<open>blackheight\<close> and \<open>maxdepth\<close> (0 where nothing is)\<close>
  "util_rbtree_check t =
     (if root t = Sentinel then Some (0, 0, 0)
      else do {
        b \<leftarrow> util_rbt_isblack t (root t);
        if \<not> b then Some (1, 0, 0)
        else do {
          c \<leftarrow> rbtree_check_subtree t (root t) 1 0 \<lparr>rbh = 0, maxd = 0, fini = 0\<rparr>;
          Some (fini c, rbh c, maxd c)
        }
      })"

declare rbt_leftmost.simps [code] rbt_rightmost.simps [code] insert_fixup_loop.simps [code]
  find_insert_pos.simps [code] delete_fixup_loop.simps [code] search_loop.simps [code]
  lookup_loop.simps [code] rbtree_mid_travel.simps [code] rbtree_check_subtree.simps [code]

end
