(* ===== verification/RbRep.thy ===== *)
theory RbRep
  imports RbTree "HOL-Library.Multiset"
begin

text \<open>
  What a heap of libconhash's red-black tree represents: \<open>tstate t par T\<close> says that the pointers
  of \<open>t\<close> form exactly the tree \<open>T\<close> of cells (address, key, colour, data), with every parent link
  right and \<open>par\<close> in the root's parent field. A position in the tree is a tree with its list of
  frames up to the root; the reads, recolourings and rotations of the code are lemmas about the
  tree at a position.
\<close>

section \<open>Cells, frames\<close>

datatype 'a cell = Cell (addr: nat) (ckey: int) (ccol: int) (cdat: 'a)

fun paint_cell :: "int \<Rightarrow> 'a cell \<Rightarrow> 'a cell" where
  "paint_cell c (Cell a k _ d) = Cell a k c d"

lemma paint_cell_simps [simp]:
  "addr (paint_cell c x) = addr x" "ckey (paint_cell c x) = ckey x"
  "ccol (paint_cell c x) = c" "cdat (paint_cell c x) = cdat x"
  by (cases x; simp)+

datatype 'a ctree = Leaf | Node "'a ctree" "'a cell" "'a ctree"

fun cells :: "'a ctree \<Rightarrow> 'a cell list" where
  "cells Leaf = []"
| "cells (Node l x r) = cells l @ x # cells r"

fun tptr :: "'a ctree \<Rightarrow> ptr" where
  "tptr Leaf = Sentinel"
| "tptr (Node l x r) = At (addr x)"

definition taddrs :: "'a ctree \<Rightarrow> nat list" where
  "taddrs T = map addr (cells T)"

lemma taddrs_simps [simp]: "taddrs Leaf = []" "taddrs (Node l x r) = taddrs l @ addr x # taddrs r"
  by (simp_all add: taddrs_def)

lemma tptr_neq [simp]: "a \<notin> set (taddrs s) \<Longrightarrow> tptr s \<noteq> At a"
  by (cases s) auto

text \<open>One level of the path to the root: the focus is the left or the right child of the cell.\<close>

datatype 'a level = LeftOf "'a cell" "'a ctree" | RightOf "'a ctree" "'a cell"

fun lcell :: "'a level \<Rightarrow> 'a cell" where
  "lcell (LeftOf x _) = x"
| "lcell (RightOf _ x) = x"

fun sib :: "'a level \<Rightarrow> 'a ctree" where
  "sib (LeftOf _ t) = t"
| "sib (RightOf t _) = t"

fun plug :: "'a level list \<Rightarrow> 'a ctree \<Rightarrow> 'a ctree" where
  "plug [] t = t"
| "plug (LeftOf x r # fs) t = plug fs (Node t x r)"
| "plug (RightOf l x # fs) t = plug fs (Node l x t)"

fun fpar :: "ptr \<Rightarrow> 'a level list \<Rightarrow> ptr" where
  "fpar par [] = par"
| "fpar par (f # _) = At (addr (lcell f))"

definition faddrs :: "'a level list \<Rightarrow> nat list" where
  "faddrs fs = concat (map (\<lambda>f. addr (lcell f) # taddrs (sib f)) fs)"

lemma faddrs_simps [simp]: "faddrs [] = []" "faddrs (f # fs) = addr (lcell f) # taddrs (sib f) @ faddrs fs"
  by (simp_all add: faddrs_def)

lemma mset_taddrs_plug: "mset (taddrs (plug fs t)) = mset (faddrs fs) + mset (taddrs t)"
proof (induction fs arbitrary: t)
  case (Cons f fs)
  then show ?case by (cases f) (simp_all add: ac_simps)
qed simp

lemma distinct_plug: "distinct (taddrs (plug fs t)) \<longleftrightarrow> distinct (faddrs fs @ taddrs t)"
  by (metis mset_taddrs_plug mset_append mset_eq_imp_distinct_iff)

lemma set_taddrs_plug [simp]: "set (taddrs (plug fs t)) = set (faddrs fs) \<union> set (taddrs t)"
  using arg_cong [OF mset_taddrs_plug, of set_mset fs t] by simp

lemma tptr_plug: "tptr (plug (f # fs) t) = At (addr (lcell (last (f # fs))))"
proof (induction fs arbitrary: f t)
  case Nil
  then show ?case by (cases f) simp_all
next
  case (Cons g fs)
  from Cons [of g] show ?case by (cases f) simp_all
qed

lemma last_faddr: "fs \<noteq> [] \<Longrightarrow> addr (lcell (last fs)) \<in> set (faddrs fs)"
  by (induction fs) auto

section \<open>Representation\<close>

fun rep :: "(nat \<Rightarrow> 'a rbnode option) \<Rightarrow> ptr \<Rightarrow> 'a ctree \<Rightarrow> bool" where
  "rep h par Leaf \<longleftrightarrow> True"
| "rep h par (Node l x r) \<longleftrightarrow>
     h (addr x) = Some \<lparr>key = ckey x, parent = par, right = tptr r, left = tptr l, color = ccol x,
       data = cdat x\<rparr> \<and> rep h (At (addr x)) l \<and> rep h (At (addr x)) r"

fun repf :: "(nat \<Rightarrow> 'a rbnode option) \<Rightarrow> ptr \<Rightarrow> 'a level list \<Rightarrow> ptr \<Rightarrow> bool" where
  "repf h par [] p \<longleftrightarrow> True"
| "repf h par (LeftOf x r # fs) p \<longleftrightarrow>
     h (addr x) = Some \<lparr>key = ckey x, parent = fpar par fs, right = tptr r, left = p, color = ccol x,
       data = cdat x\<rparr> \<and> rep h (At (addr x)) r \<and> repf h par fs (At (addr x))"
| "repf h par (RightOf l x # fs) p \<longleftrightarrow>
     h (addr x) = Some \<lparr>key = ckey x, parent = fpar par fs, right = p, left = tptr l, color = ccol x,
       data = cdat x\<rparr> \<and> rep h (At (addr x)) l \<and> repf h par fs (At (addr x))"

lemma rep_plug: "rep h par (plug fs t) \<longleftrightarrow> repf h par fs (tptr t) \<and> rep h (fpar par fs) t"
proof (induction fs arbitrary: t)
  case (Cons f fs)
  then show ?case by (cases f) auto
qed simp

lemma rep_cong: "(\<And>a. a \<in> set (taddrs t) \<Longrightarrow> h' a = h a) \<Longrightarrow> rep h' par t = rep h par t"
  by (induction t arbitrary: par) auto

lemma repf_cong: "(\<And>a. a \<in> set (faddrs fs) \<Longrightarrow> h' a = h a) \<Longrightarrow> repf h' par fs p = repf h par fs p"
proof (induction fs arbitrary: p)
  case (Cons f fs)
  have "rep h' q (sib f) = rep h q (sib f)" for q
    using Cons.prems by (intro rep_cong) simp
  moreover have "repf h' par fs q = repf h par fs q" for q
    using Cons by simp
  ultimately show ?case using Cons.prems by (cases f) simp_all
qed simp

lemma rep_upd [simp]: "a \<notin> set (taddrs t) \<Longrightarrow> rep (h(a := v)) par t = rep h par t"
  by (rule rep_cong) auto

lemma repf_upd [simp]: "a \<notin> set (faddrs fs) \<Longrightarrow> repf (h(a := v)) par fs p = repf h par fs p"
  by (rule repf_cong) auto

definition tstate :: "'a rbtree \<Rightarrow> ptr \<Rightarrow> 'a ctree \<Rightarrow> bool" where
  "tstate t par T \<longleftrightarrow> root t = tptr T \<and> rep (heap t) par T \<and> distinct (taddrs T)"

text \<open>What an operation on a tree must leave alone: everything but the cells of the tree.\<close>

definition same_outside :: "nat set \<Rightarrow> 'a rbtree \<Rightarrow> 'a rbtree \<Rightarrow> bool" where
  "same_outside A t t' \<longleftrightarrow> null t' = null t \<and> size t' = size t \<and> (\<forall>a. a \<notin> A \<longrightarrow> heap t' a = heap t a)"

lemma same_outside_refl [simp]: "same_outside A t t"
  by (simp add: same_outside_def)

lemma same_outside_trans: "\<lbrakk>same_outside A t t'; same_outside A t' t''\<rbrakk> \<Longrightarrow> same_outside A t t''"
  by (simp add: same_outside_def)

section \<open>Reading and recolouring a position\<close>

lemma tstate_deref:
  assumes "tstate t par (plug fs (Node l x r))"
  shows "deref t (At (addr x)) = Some \<lparr>key = ckey x, parent = fpar par fs, right = tptr r,
    left = tptr l, color = ccol x, data = cdat x\<rparr>"
  using assms by (simp add: tstate_def rep_plug deref_def)

lemma tstate_level:
  assumes "tstate t par (plug (f # fs) s)"
  shows "deref t (At (addr (lcell f))) = Some \<lparr>key = ckey (lcell f), parent = fpar par fs,
    right = (case f of LeftOf _ r \<Rightarrow> tptr r | RightOf _ _ \<Rightarrow> tptr s),
    left = (case f of LeftOf _ _ \<Rightarrow> tptr s | RightOf l _ \<Rightarrow> tptr l),
    color = ccol (lcell f), data = cdat (lcell f)\<rparr>"
  using assms by (cases f) (auto simp: tstate_def rep_plug deref_def)

lemma tstate_paint:
  assumes "tstate t par (plug fs (Node l x r))"
  shows "\<exists>t'. set_color (At (addr x)) c t = Some t' \<and>
    tstate t' par (plug fs (Node l (paint_cell c x) r)) \<and>
    same_outside (set (taddrs (plug fs (Node l x r)))) t t'"
proof -
  let ?n = "\<lparr>key = ckey x, parent = fpar par fs, right = tptr r, left = tptr l, color = c,
    data = cdat x\<rparr>"
  have h: "heap t (addr x) = Some (?n\<lparr>color := ccol x\<rparr>)"
    using assms by (simp add: tstate_def rep_plug)
  have dist: "distinct (faddrs fs @ taddrs (Node l x r))"
    using assms by (simp add: tstate_def distinct_plug)
  let ?t = "t\<lparr>heap := (heap t)(addr x \<mapsto> ?n)\<rparr>"
  have "set_color (At (addr x)) c t = Some ?t" using h by (simp add: store_def)
  moreover have "root t = tptr (plug fs (Node l (paint_cell c x) r))"
    using assms by (cases fs) (auto simp: tstate_def tptr_plug simp del: plug.simps(2,3))
  then have "tstate ?t par (plug fs (Node l (paint_cell c x) r))"
    using assms dist by (auto simp: tstate_def rep_plug distinct_plug)
  moreover have "same_outside (set (taddrs (plug fs (Node l x r)))) t ?t"
    by (auto simp: same_outside_def)
  ultimately show ?thesis by blast
qed

section \<open>Rotations\<close>

lemma root_not_focus:
  assumes "tstate t par (plug (f # fs) s)" and "a \<in> set (taddrs s)"
  shows "root t \<noteq> At a"
proof -
  have "root t = At (addr (lcell (last (f # fs))))"
    using assms(1) by (simp only: tstate_def tptr_plug)
  moreover have "addr (lcell (last (f # fs))) \<in> set (faddrs (f # fs))" by (rule last_faddr) simp
  moreover have "distinct (faddrs (f # fs) @ taddrs s)"
    using assms(1) by (simp only: tstate_def distinct_plug)
  ultimately show ?thesis using assms(2) by auto
qed

definition yields :: "'b option \<Rightarrow> ('b \<Rightarrow> bool) \<Rightarrow> bool" where
  "yields m P \<longleftrightarrow> (\<exists>y. m = Some y \<and> P y)"

lemma yields_simps [simp]: "yields (Some y) P = P y" "yields None P = False"
  by (simp_all add: yields_def)

lemma yieldsE: "\<lbrakk>yields m P; \<And>y. m = Some y \<Longrightarrow> P y \<Longrightarrow> thesis\<rbrakk> \<Longrightarrow> thesis"
  by (auto simp: yields_def)

lemma root_plug_cong: "\<lbrakk>fs \<noteq> []; root t = tptr (plug fs s)\<rbrakk> \<Longrightarrow> root t = tptr (plug fs s')"
  by (cases fs) (simp_all add: tptr_plug del: plug.simps)

lemma taddrs_plug_cong: "taddrs s = taddrs s' \<Longrightarrow> taddrs (plug fs s) = taddrs (plug fs s')"
proof (induction fs arbitrary: s s')
  case (Cons f fs)
  then show ?case by (cases f) simp_all
qed simp

definition rotl :: "'a ctree \<Rightarrow> 'a ctree" where
  "rotl T = (case T of Node l x (Node rl y rr) \<Rightarrow> Node (Node l x rl) y rr | _ \<Rightarrow> T)"

definition rotr :: "'a ctree \<Rightarrow> 'a ctree" where
  "rotr T = (case T of Node (Node ll y lr) x r \<Rightarrow> Node ll y (Node lr x r) | _ \<Rightarrow> T)"

lemma rot_simps [simp]: "rotl (Node l x (Node rl y rr)) = Node (Node l x rl) y rr"
  "rotr (Node (Node ll y lr) x r) = Node ll y (Node lr x r)"
  by (simp_all add: rotl_def rotr_def)

text \<open>The rotation run on a heap where the three or four nodes it touches are known.\<close>

lemma left_rotate_run:
  assumes "heap t a = Some na" "heap t b = Some nb" "a \<noteq> b" "right na = At b" "left nb = c"
    and "c = Sentinel \<or> (\<exists>c' nc. c = At c' \<and> c' \<noteq> a \<and> c' \<noteq> b \<and> heap t c' = Some nc)"
    and "root t = At a \<or> (\<exists>z nz. root t \<noteq> At a \<and> parent na = At z \<and> z \<noteq> a \<and> z \<noteq> b \<and>
      c \<noteq> At z \<and> heap t z = Some nz)"
  shows "rbtree_left_rotate (At a) t = Some (
    let h0 = (heap t)(a \<mapsto> na\<lparr>parent := At b, right := c\<rparr>, b \<mapsto> nb\<lparr>parent := parent na, left := At a\<rparr>);
        h1 = (if root t = At a then h0 else (case parent na of At z \<Rightarrow> (case heap t z of Some nz \<Rightarrow>
          h0(z \<mapsto> (if left nz = At a then nz\<lparr>left := At b\<rparr> else nz\<lparr>right := At b\<rparr>)) | _ \<Rightarrow> h0) | _ \<Rightarrow> h0));
        h2 = (case c of At c' \<Rightarrow> h1(c' \<mapsto> (the (heap t c'))\<lparr>parent := At a\<rparr>) | _ \<Rightarrow> h1)
    in t\<lparr>root := (if root t = At a then At b else root t), heap := h2\<rparr>)"
proof -
  have ba: "b \<noteq> a" using assms(3) by simp
  note D = rbtree_left_rotate_def replace_child_def deref_def store_def assms(1-5) ba Let_def fun_upd_twist
  show ?thesis
    using assms(6,7) by (elim disjE exE conjE) (simp_all add: D)
qed

lemma right_rotate_run:
  assumes "heap t a = Some na" "heap t b = Some nb" "a \<noteq> b" "left na = At b" "right nb = c"
    and "c = Sentinel \<or> (\<exists>c' nc. c = At c' \<and> c' \<noteq> a \<and> c' \<noteq> b \<and> heap t c' = Some nc)"
    and "root t = At a \<or> (\<exists>z nz. root t \<noteq> At a \<and> parent na = At z \<and> z \<noteq> a \<and> z \<noteq> b \<and>
      c \<noteq> At z \<and> heap t z = Some nz)"
  shows "rbtree_right_rotate (At a) t = Some (
    let h0 = (heap t)(a \<mapsto> na\<lparr>parent := At b, left := c\<rparr>, b \<mapsto> nb\<lparr>parent := parent na, right := At a\<rparr>);
        h1 = (if root t = At a then h0 else (case parent na of At z \<Rightarrow> (case heap t z of Some nz \<Rightarrow>
          h0(z \<mapsto> (if left nz = At a then nz\<lparr>left := At b\<rparr> else nz\<lparr>right := At b\<rparr>)) | _ \<Rightarrow> h0) | _ \<Rightarrow> h0));
        h2 = (case c of At c' \<Rightarrow> h1(c' \<mapsto> (the (heap t c'))\<lparr>parent := At a\<rparr>) | _ \<Rightarrow> h1)
    in t\<lparr>root := (if root t = At a then At b else root t), heap := h2\<rparr>)"
proof -
  have ba: "b \<noteq> a" using assms(3) by simp
  note D = rbtree_right_rotate_def replace_child_def deref_def store_def assms(1-5) ba Let_def fun_upd_twist
  show ?thesis
    using assms(6,7) by (elim disjE exE conjE) (simp_all add: D)
qed

text \<open>The parent's link, and a subtree that gets a new parent.\<close>

definition relink :: "ptr \<Rightarrow> ptr \<Rightarrow> 'a level list \<Rightarrow> (nat \<Rightarrow> 'a rbnode option) \<Rightarrow> (nat \<Rightarrow> 'a rbnode option)" where
  "relink p q fs h = (case fs of [] \<Rightarrow> h | f # _ \<Rightarrow> (case h (addr (lcell f)) of None \<Rightarrow> h
     | Some nz \<Rightarrow> h(addr (lcell f) \<mapsto> (if left nz = p then nz\<lparr>left := q\<rparr> else nz\<lparr>right := q\<rparr>))))"

definition reparent :: "ptr \<Rightarrow> 'a ctree \<Rightarrow> (nat \<Rightarrow> 'a rbnode option) \<Rightarrow> (nat \<Rightarrow> 'a rbnode option)" where
  "reparent q s h = (case tptr s of At c \<Rightarrow> h(c \<mapsto> (the (h c))\<lparr>parent := q\<rparr>) | _ \<Rightarrow> h)"

lemma relink_other: "a \<notin> set (faddrs fs) \<Longrightarrow> relink p q fs h a = h a"
  by (cases fs) (auto simp: relink_def split: option.splits)

lemma reparent_other: "a \<notin> set (taddrs s) \<Longrightarrow> reparent q s h a = h a"
  by (cases s) (auto simp: reparent_def)

lemma repf_relink:
  assumes r: "repf h par fs p" and d: "distinct (faddrs fs)" and s: "fs \<noteq> [] \<Longrightarrow> tptr (sib (hd fs)) \<noteq> p"
  shows "repf (relink p q fs h) par fs q"
proof (cases fs)
  case (Cons f fs')
  have z: "addr (lcell f) \<notin> set (taddrs (sib f))" "addr (lcell f) \<notin> set (faddrs fs')"
    using d Cons by auto
  show ?thesis
  proof (cases f)
    case (LeftOf x s)
    then show ?thesis using r z Cons by (simp add: relink_def)
  next
    case (RightOf s x)
    then show ?thesis using r z s Cons by (simp add: relink_def)
  qed
qed simp

lemma rep_reparent: "\<lbrakk>rep h p s; distinct (taddrs s)\<rbrakk> \<Longrightarrow> rep (reparent q s h) q s"
  by (cases s) (simp_all add: reparent_def)

lemma sib_neq: "\<lbrakk>fs \<noteq> []; a \<notin> set (faddrs fs)\<rbrakk> \<Longrightarrow> tptr (sib (hd fs)) \<noteq> At a"
  by (cases fs) auto

lemma left_rotate_rep:
  assumes t: "tstate t par (plug fs (Node l x (Node rl y rr)))"
  shows "yields (rbtree_left_rotate (At (addr x)) t) (\<lambda>t'.
    tstate t' par (plug fs (Node (Node l x rl) y rr)) \<and>
    same_outside (set (taddrs (plug fs (Node l x (Node rl y rr))))) t t')"
proof -
  let ?a = "addr x" and ?b = "addr y"
  have dist: "distinct (faddrs fs @ taddrs (Node l x (Node rl y rr)))"
    using t by (simp add: tstate_def distinct_plug)
  have dist': "distinct (taddrs (plug fs (Node (Node l x rl) y rr)))"
    using t taddrs_plug_cong [of "Node l x (Node rl y rr)" "Node (Node l x rl) y rr" fs]
    by (simp add: tstate_def)
  have r: "repf (heap t) par fs (At (addr x))" "rep (heap t) (fpar par fs) (Node l x (Node rl y rr))"
    using t by (simp_all add: tstate_def rep_plug)
  define na nb where "na = \<lparr>key = ckey x, parent = fpar par fs, right = At ?b, left = tptr l,
      color = ccol x, data = cdat x\<rparr>"
    and "nb = \<lparr>key = ckey y, parent = At ?a, right = tptr rr, left = tptr rl, color = ccol y,
      data = cdat y\<rparr>"
  have h: "heap t ?a = Some na" "heap t ?b = Some nb" using r by (simp_all add: na_def nb_def)
  have N: "?b \<noteq> ?a" "?a \<notin> set (taddrs l)" "?a \<notin> set (taddrs rl)" "?a \<notin> set (taddrs rr)"
    "?b \<notin> set (taddrs l)" "?b \<notin> set (taddrs rl)" "?b \<notin> set (taddrs rr)"
    "?a \<notin> set (faddrs fs)" "?b \<notin> set (faddrs fs)" "distinct (faddrs fs)" "distinct (taddrs rl)"
    using dist by auto
  have D: "\<And>c. c \<in> set (taddrs l) \<union> set (taddrs rl) \<union> set (taddrs rr) \<Longrightarrow> c \<notin> set (faddrs fs)"
    "\<And>c. c \<in> set (taddrs l) \<union> set (taddrs rr) \<Longrightarrow> c \<notin> set (taddrs rl)"
    "\<And>c. c \<in> set (faddrs fs) \<Longrightarrow> c \<notin> set (taddrs rl)"
    using dist by auto
  have c: "tptr rl = Sentinel \<or> (\<exists>c' nc. tptr rl = At c' \<and> c' \<noteq> ?a \<and> c' \<noteq> ?b \<and> heap t c' = Some nc)"
    using r N by (cases rl) auto
  have rt: "if root t = At ?a then fs = [] else
      \<exists>f fs'. fs = f # fs' \<and> root t = tptr (plug fs (Node (Node l x rl) y rr))"
  proof (cases fs)
    case Nil
    then show ?thesis using t by (simp add: tstate_def)
  next
    case (Cons f fs')
    have "root t \<noteq> At ?a" using root_not_focus [OF t [unfolded Cons], of ?a] by simp
    moreover have "root t = tptr (plug fs (Node l x (Node rl y rr)))" using t by (simp add: tstate_def)
    then have "root t = tptr (plug fs (Node (Node l x rl) y rr))"
      by (rule root_plug_cong [rotated]) (simp add: Cons)
    ultimately show ?thesis using Cons by simp
  qed
  have pr: "root t = At ?a \<or> (\<exists>z nz. root t \<noteq> At ?a \<and> parent na = At z \<and> z \<noteq> ?a \<and> z \<noteq> ?b \<and>
      tptr rl \<noteq> At z \<and> heap t z = Some nz)"
  proof (cases fs)
    case Nil
    then show ?thesis using t by (simp add: tstate_def)
  next
    case (Cons f fs')
    have "tptr rl \<noteq> At (addr (lcell f))" using D(3) [of "addr (lcell f)"] Cons by simp
    moreover have "\<exists>nz. heap t (addr (lcell f)) = Some nz" using r Cons by (cases f) auto
    moreover have "root t \<noteq> At ?a" using root_not_focus [OF t [unfolded Cons], of ?a] by simp
    ultimately show ?thesis using Cons N by (simp add: na_def)
  qed
  define h0 where "h0 = (heap t)(?a \<mapsto> na\<lparr>parent := At ?b, right := tptr rl\<rparr>,
    ?b \<mapsto> nb\<lparr>parent := parent na, left := At ?a\<rparr>)"
  define h2 where "h2 = reparent (At ?a) rl (relink (At ?a) (At ?b) fs h0)"
  have run: "rbtree_left_rotate (At ?a) t =
      Some (t\<lparr>root := (if root t = At ?a then At ?b else root t), heap := h2\<rparr>)"
  proof -
    have nab: "right na = At ?b" "left nb = tptr rl" by (simp_all add: na_def nb_def)
    have rel: "(if root t = At ?a then h0 else (case parent na of At z \<Rightarrow> (case heap t z of Some nz \<Rightarrow>
          h0(z \<mapsto> (if left nz = At ?a then nz\<lparr>left := At ?b\<rparr> else nz\<lparr>right := At ?b\<rparr>)) | _ \<Rightarrow> h0)
          | _ \<Rightarrow> h0)) = relink (At ?a) (At ?b) fs h0"
    proof (cases fs)
      case Nil
      then show ?thesis using t by (simp add: relink_def tstate_def)
    next
      case (Cons f fs')
      then have "root t \<noteq> At ?a" "addr (lcell f) \<noteq> ?a" "addr (lcell f) \<noteq> ?b"
        using rt N by (auto split: if_splits)
      moreover from this(2,3) have "h0 (addr (lcell f)) = heap t (addr (lcell f))" by (simp add: h0_def)
      ultimately show ?thesis using Cons by (simp add: relink_def na_def)
    qed
    have rlc: "\<And>c. tptr rl = At c \<Longrightarrow> relink (At ?a) (At ?b) fs h0 c = heap t c"
    proof -
      fix c assume "tptr rl = At c"
      then have "c \<in> set (taddrs rl)" by (cases rl) auto
      then have "c \<notin> set (faddrs fs)" "c \<noteq> ?a" "c \<noteq> ?b" using D(1) N(3,6) by blast+
      then show "relink (At ?a) (At ?b) fs h0 c = heap t c" by (simp add: relink_other h0_def)
    qed
    show ?thesis
      unfolding left_rotate_run [OF h N(1) [symmetric] nab c pr] Let_def h0_def [symmetric] rel h2_def
        reparent_def
      using rlc by (cases "tptr rl") simp_all
  qed
  have h0: "h0 ?a = Some (na\<lparr>parent := At ?b, right := tptr rl\<rparr>)"
    "h0 ?b = Some (nb\<lparr>parent := parent na, left := At ?a\<rparr>)"
    "\<And>c. c \<noteq> ?a \<Longrightarrow> c \<noteq> ?b \<Longrightarrow> h0 c = heap t c"
    using N by (simp_all add: h0_def)
  have h2: "h2 ?a = h0 ?a" "h2 ?b = h0 ?b"
    using N by (simp_all add: h2_def reparent_other relink_other)
  have "repf h0 par fs (At ?a)" using r(1) N by (simp add: h0_def)
  then have "repf (relink (At ?a) (At ?b) fs h0) par fs (At ?b)"
    by (rule repf_relink) (use N sib_neq in \<open>auto\<close>)
  then have F: "repf h2 par fs (At ?b)"
    using repf_cong [of fs h2 "relink (At ?a) (At ?b) fs h0"] D(3)
    by (simp add: h2_def reparent_other)
  have same: "relink (At ?a) (At ?b) fs h0 c = heap t c"
    if "c \<notin> set (faddrs fs)" "c \<noteq> ?a" "c \<noteq> ?b" for c
    using that by (simp add: relink_other h0(3))
  have "rep (relink (At ?a) (At ?b) fs h0) (At ?b) rl = rep (heap t) (At ?b) rl"
  proof (rule rep_cong)
    fix c assume "c \<in> set (taddrs rl)"
    then show "relink (At ?a) (At ?b) fs h0 c = heap t c" using D(1) N(3,6) by (intro same) auto
  qed
  then have "rep (relink (At ?a) (At ?b) fs h0) (At ?b) rl" using r(2) by simp
  from rep_reparent [OF this N(11)] have RL: "rep h2 (At ?a) rl" by (simp add: h2_def)
  have same2: "h2 c = heap t c" if "c \<in> set (taddrs l) \<union> set (taddrs rr)" for c
  proof -
    have "c \<notin> set (taddrs rl)" "c \<notin> set (faddrs fs)" "c \<noteq> ?a" "c \<noteq> ?b"
      using that D(1,2) N(2,4,5,7) by blast+
    then show ?thesis by (simp add: h2_def reparent_other same)
  qed
  have "rep h2 (At ?b) rr = rep (heap t) (At ?b) rr" "rep h2 (At ?a) l = rep (heap t) (At ?a) l"
    by (rule rep_cong, simp add: same2)+
  then have RR: "rep h2 (At ?b) rr" "rep h2 (At ?a) l" using r(2) by simp_all
  let ?t = "t\<lparr>root := (if root t = At ?a then At ?b else root t), heap := h2\<rparr>"
  have "h2 c = heap t c" if "c \<notin> set (taddrs (plug fs (Node l x (Node rl y rr))))" for c
  proof -
    have "c \<notin> set (taddrs rl)" "c \<notin> set (faddrs fs)" "c \<noteq> ?a" "c \<noteq> ?b" using that by auto
    then show ?thesis by (simp add: h2_def reparent_other same)
  qed
  then have out: "same_outside (set (taddrs (plug fs (Node l x (Node rl y rr))))) t ?t"
    by (simp only: same_outside_def rbtree.simps) simp
  have "root ?t = tptr (plug fs (Node (Node l x rl) y rr))"
    using rt by (cases "root t = At ?a") auto
  moreover have "rep h2 (fpar par fs) (Node (Node l x rl) y rr)"
    using RL RR by (simp add: h2 h0 na_def nb_def)
  ultimately have "tstate ?t par (plug fs (Node (Node l x rl) y rr))"
    using dist' F by (simp add: tstate_def rep_plug)
  then show ?thesis using run out by simp
qed

lemma right_rotate_rep:
  assumes t: "tstate t par (plug fs (Node (Node ll y lr) x rx))"
  shows "yields (rbtree_right_rotate (At (addr x)) t) (\<lambda>t'.
    tstate t' par (plug fs (Node ll y (Node lr x rx))) \<and>
    same_outside (set (taddrs (plug fs (Node (Node ll y lr) x rx)))) t t')"
proof -
  let ?a = "addr x" and ?b = "addr y"
  have dist: "distinct (faddrs fs @ taddrs (Node (Node ll y lr) x rx))"
    using t by (simp add: tstate_def distinct_plug)
  have dist': "distinct (taddrs (plug fs (Node ll y (Node lr x rx))))"
    using t taddrs_plug_cong [of "Node (Node ll y lr) x rx" "Node ll y (Node lr x rx)" fs]
    by (simp add: tstate_def)
  have r: "repf (heap t) par fs (At (addr x))" "rep (heap t) (fpar par fs) (Node (Node ll y lr) x rx)"
    using t by (simp_all add: tstate_def rep_plug)
  define na nb where "na = \<lparr>key = ckey x, parent = fpar par fs, right = tptr rx, left = At ?b,
      color = ccol x, data = cdat x\<rparr>"
    and "nb = \<lparr>key = ckey y, parent = At ?a, right = tptr lr, left = tptr ll, color = ccol y,
      data = cdat y\<rparr>"
  have h: "heap t ?a = Some na" "heap t ?b = Some nb" using r by (simp_all add: na_def nb_def)
  have N: "?b \<noteq> ?a" "?a \<notin> set (taddrs rx)" "?a \<notin> set (taddrs lr)" "?a \<notin> set (taddrs ll)"
    "?b \<notin> set (taddrs rx)" "?b \<notin> set (taddrs lr)" "?b \<notin> set (taddrs ll)"
    "?a \<notin> set (faddrs fs)" "?b \<notin> set (faddrs fs)" "distinct (faddrs fs)" "distinct (taddrs lr)"
    using dist by auto
  have D: "\<And>c. c \<in> set (taddrs rx) \<union> set (taddrs lr) \<union> set (taddrs ll) \<Longrightarrow> c \<notin> set (faddrs fs)"
    "\<And>c. c \<in> set (taddrs rx) \<union> set (taddrs ll) \<Longrightarrow> c \<notin> set (taddrs lr)"
    "\<And>c. c \<in> set (faddrs fs) \<Longrightarrow> c \<notin> set (taddrs lr)"
    using dist by auto
  have c: "tptr lr = Sentinel \<or> (\<exists>c' nc. tptr lr = At c' \<and> c' \<noteq> ?a \<and> c' \<noteq> ?b \<and> heap t c' = Some nc)"
    using r N by (cases lr) auto
  have rt: "if root t = At ?a then fs = [] else
      \<exists>f fs'. fs = f # fs' \<and> root t = tptr (plug fs (Node ll y (Node lr x rx)))"
  proof (cases fs)
    case Nil
    then show ?thesis using t by (simp add: tstate_def)
  next
    case (Cons f fs')
    have "root t \<noteq> At ?a" using root_not_focus [OF t [unfolded Cons], of ?a] by simp
    moreover have "root t = tptr (plug fs (Node (Node ll y lr) x rx))" using t by (simp add: tstate_def)
    then have "root t = tptr (plug fs (Node ll y (Node lr x rx)))"
      by (rule root_plug_cong [rotated]) (simp add: Cons)
    ultimately show ?thesis using Cons by simp
  qed
  have pr: "root t = At ?a \<or> (\<exists>z nz. root t \<noteq> At ?a \<and> parent na = At z \<and> z \<noteq> ?a \<and> z \<noteq> ?b \<and>
      tptr lr \<noteq> At z \<and> heap t z = Some nz)"
  proof (cases fs)
    case Nil
    then show ?thesis using t by (simp add: tstate_def)
  next
    case (Cons f fs')
    have "tptr lr \<noteq> At (addr (lcell f))" using D(3) [of "addr (lcell f)"] Cons by simp
    moreover have "\<exists>nz. heap t (addr (lcell f)) = Some nz" using r Cons by (cases f) auto
    moreover have "root t \<noteq> At ?a" using root_not_focus [OF t [unfolded Cons], of ?a] by simp
    ultimately show ?thesis using Cons N by (simp add: na_def)
  qed
  define h0 where "h0 = (heap t)(?a \<mapsto> na\<lparr>parent := At ?b, left := tptr lr\<rparr>,
    ?b \<mapsto> nb\<lparr>parent := parent na, right := At ?a\<rparr>)"
  define h2 where "h2 = reparent (At ?a) lr (relink (At ?a) (At ?b) fs h0)"
  have run: "rbtree_right_rotate (At ?a) t =
      Some (t\<lparr>root := (if root t = At ?a then At ?b else root t), heap := h2\<rparr>)"
  proof -
    have nab: "left na = At ?b" "right nb = tptr lr" by (simp_all add: na_def nb_def)
    have rel: "(if root t = At ?a then h0 else (case parent na of At z \<Rightarrow> (case heap t z of Some nz \<Rightarrow>
          h0(z \<mapsto> (if left nz = At ?a then nz\<lparr>left := At ?b\<rparr> else nz\<lparr>right := At ?b\<rparr>)) | _ \<Rightarrow> h0)
          | _ \<Rightarrow> h0)) = relink (At ?a) (At ?b) fs h0"
    proof (cases fs)
      case Nil
      then show ?thesis using t by (simp add: relink_def tstate_def)
    next
      case (Cons f fs')
      then have "root t \<noteq> At ?a" "addr (lcell f) \<noteq> ?a" "addr (lcell f) \<noteq> ?b"
        using rt N by (auto split: if_splits)
      moreover from this(2,3) have "h0 (addr (lcell f)) = heap t (addr (lcell f))" by (simp add: h0_def)
      ultimately show ?thesis using Cons by (simp add: relink_def na_def)
    qed
    have rlc: "\<And>c. tptr lr = At c \<Longrightarrow> relink (At ?a) (At ?b) fs h0 c = heap t c"
    proof -
      fix c assume "tptr lr = At c"
      then have "c \<in> set (taddrs lr)" by (cases lr) auto
      then have "c \<notin> set (faddrs fs)" "c \<noteq> ?a" "c \<noteq> ?b" using D(1) N(3,6) by blast+
      then show "relink (At ?a) (At ?b) fs h0 c = heap t c" by (simp add: relink_other h0_def)
    qed
    show ?thesis
      unfolding right_rotate_run [OF h N(1) [symmetric] nab c pr] Let_def h0_def [symmetric] rel h2_def
        reparent_def
      using rlc by (cases "tptr lr") simp_all
  qed
  have h0: "h0 ?a = Some (na\<lparr>parent := At ?b, left := tptr lr\<rparr>)"
    "h0 ?b = Some (nb\<lparr>parent := parent na, right := At ?a\<rparr>)"
    "\<And>c. c \<noteq> ?a \<Longrightarrow> c \<noteq> ?b \<Longrightarrow> h0 c = heap t c"
    using N by (simp_all add: h0_def)
  have h2: "h2 ?a = h0 ?a" "h2 ?b = h0 ?b"
    using N by (simp_all add: h2_def reparent_other relink_other)
  have "repf h0 par fs (At ?a)" using r(1) N by (simp add: h0_def)
  then have "repf (relink (At ?a) (At ?b) fs h0) par fs (At ?b)"
    by (rule repf_relink) (use N sib_neq in \<open>auto\<close>)
  then have F: "repf h2 par fs (At ?b)"
    using repf_cong [of fs h2 "relink (At ?a) (At ?b) fs h0"] D(3)
    by (simp add: h2_def reparent_other)
  have same: "relink (At ?a) (At ?b) fs h0 c = heap t c"
    if "c \<notin> set (faddrs fs)" "c \<noteq> ?a" "c \<noteq> ?b" for c
    using that by (simp add: relink_other h0(3))
  have "rep (relink (At ?a) (At ?b) fs h0) (At ?b) lr = rep (heap t) (At ?b) lr"
  proof (rule rep_cong)
    fix c assume "c \<in> set (taddrs lr)"
    then show "relink (At ?a) (At ?b) fs h0 c = heap t c" using D(1) N(3,6) by (intro same) auto
  qed
  then have "rep (relink (At ?a) (At ?b) fs h0) (At ?b) lr" using r(2) by simp
  from rep_reparent [OF this N(11)] have RL: "rep h2 (At ?a) lr" by (simp add: h2_def)
  have same2: "h2 c = heap t c" if "c \<in> set (taddrs rx) \<union> set (taddrs ll)" for c
  proof -
    have "c \<notin> set (taddrs lr)" "c \<notin> set (faddrs fs)" "c \<noteq> ?a" "c \<noteq> ?b"
      using that D(1,2) N(2,4,5,7) by blast+
    then show ?thesis by (simp add: h2_def reparent_other same)
  qed
  have "rep h2 (At ?b) ll = rep (heap t) (At ?b) ll" "rep h2 (At ?a) rx = rep (heap t) (At ?a) rx"
    by (rule rep_cong, simp add: same2)+
  then have RR: "rep h2 (At ?b) ll" "rep h2 (At ?a) rx" using r(2) by simp_all
  let ?t = "t\<lparr>root := (if root t = At ?a then At ?b else root t), heap := h2\<rparr>"
  have "h2 c = heap t c" if "c \<notin> set (taddrs (plug fs (Node (Node ll y lr) x rx)))" for c
  proof -
    have "c \<notin> set (taddrs lr)" "c \<notin> set (faddrs fs)" "c \<noteq> ?a" "c \<noteq> ?b" using that by auto
    then show ?thesis by (simp add: h2_def reparent_other same)
  qed
  then have out: "same_outside (set (taddrs (plug fs (Node (Node ll y lr) x rx)))) t ?t"
    by (simp only: same_outside_def rbtree.simps) simp
  have "root ?t = tptr (plug fs (Node ll y (Node lr x rx)))"
    using rt by (cases "root t = At ?a") auto
  moreover have "rep h2 (fpar par fs) (Node ll y (Node lr x rx))"
    using RL RR by (simp add: h2 h0 na_def nb_def)
  ultimately have "tstate ?t par (plug fs (Node ll y (Node lr x rx)))"
    using dist' F by (simp add: tstate_def rep_plug)
  then show ?thesis using run out by simp
qed


end
