(* ===== verification/RbBalance.thy ===== *)
theory RbBalance
  imports RbInsert
begin

text \<open>
  The search order and the red-black balance of libconhash's tree: the invariants of the tree of
  cells, that the insertion of \<open>util_rbtree_insert\<close> keeps them and puts the new cell behind the
  cells of equal or smaller key, and the bound on the height that the balance gives.
\<close>

section \<open>Search order\<close>

definition bst :: "'a ctree \<Rightarrow> bool" where
  "bst T \<longleftrightarrow> sorted (map ckey (cells T))"

lemma ckey_content: "map ckey (cells T) = map (fst \<circ> snd) (content T)"
  by (simp add: content_def)

lemma bst_content: "content T = content T' \<Longrightarrow> bst T = bst T'"
  by (simp add: bst_def ckey_content)

lemma bst_Node: "bst (Node l x r) \<longleftrightarrow> bst l \<and> bst r \<and>
  (\<forall>y \<in> set (cells l). ckey y \<le> ckey x) \<and> (\<forall>y \<in> set (cells r). ckey x \<le> ckey y)"
  by (auto simp: bst_def sorted_append intro: order_trans)

definition keys_upto :: "int \<Rightarrow> (nat \<times> int \<times> 'a) list \<Rightarrow> (nat \<times> int \<times> 'a) list" where
  "keys_upto k ys = filter (\<lambda>y. fst (snd y) \<le> k) ys"

definition keys_beyond :: "int \<Rightarrow> (nat \<times> int \<times> 'a) list \<Rightarrow> (nat \<times> int \<times> 'a) list" where
  "keys_beyond k ys = filter (\<lambda>y. k < fst (snd y)) ys"

lemma keys_upto_append [simp]: "keys_upto k (xs @ ys) = keys_upto k xs @ keys_upto k ys" "keys_upto k [] = []"
    "keys_beyond k (xs @ ys) = keys_beyond k xs @ keys_beyond k ys" "keys_beyond k [] = []"
    "keys_upto k (y # ys) = (if fst (snd y) \<le> k then y # keys_upto k ys else keys_upto k ys)"
    "keys_beyond k (y # ys) = (if k < fst (snd y) then y # keys_beyond k ys else keys_beyond k ys)"
  by (simp_all add: keys_upto_def keys_beyond_def)

lemma keys_upto_all:
  "(\<forall>y \<in> set (cells T). ckey y \<le> k) \<Longrightarrow> keys_upto k (content T) = content T \<and> keys_beyond k (content T) = []"
  "(\<forall>y \<in> set (cells T). k < ckey y) \<Longrightarrow> keys_upto k (content T) = [] \<and> keys_beyond k (content T) = content T"
  by (auto simp: keys_upto_def keys_beyond_def content_def filter_empty_conv filter_id_conv)

lemma content_descend:
  assumes "bst T" "content (plug fs T) = us @ content T @ vs"
    and "\<And>N. content (plug fs N) = us @ content N @ vs"
  shows "content (plug (descend k fs T) N) =
    us @ keys_upto k (content T) @ content N @ keys_beyond k (content T) @ vs"
  using assms
proof (induction T arbitrary: fs us vs)
  case (Node l x r)
  have o: "bst l" "bst r" "\<forall>y \<in> set (cells l). ckey y \<le> ckey x" "\<forall>y \<in> set (cells r). ckey x \<le> ckey y"
    using Node.prems(1) by (auto simp: bst_Node)
  note p = Node.prems(3)
  show ?case
  proof (cases "k < ckey x")
    case True
    then have "keys_upto k (content r) = [] \<and> keys_beyond k (content r) = content r"
      using o(4) by (intro keys_upto_all) force
    then show ?thesis
      using True Node.IH(1) [OF o(1), of "LeftOf x r # fs" us "(addr x, ckey x, cdat x) # content r @ vs"] p
      by simp
  next
    case False
    then have "keys_upto k (content l) = content l \<and> keys_beyond k (content l) = []"
      using o(3) by (intro keys_upto_all) force
    then show ?thesis
      using False Node.IH(2) [OF o(2), of "RightOf l x # fs" "us @ content l @ [(addr x, ckey x, cdat x)]" vs] p
      by simp
  qed
qed simp

theorem content_rb_insert:
  assumes "bst T"
  shows "content (rb_insert x T) =
    keys_upto (ckey x) (content T) @ (addr x, ckey x, cdat x) # keys_beyond (ckey x) (content T)"
  using content_descend [OF assms, of "[]" "[]" "[]" "ckey x" "Node Leaf (paint_cell 0 x) Leaf"]
  by (simp add: rb_insert_def content_ins_fix)

lemma bst_rb_insert: "bst T \<Longrightarrow> bst (rb_insert x T)"
proof -
  assume T: "bst T"
  let ?k = "ckey x"
  let ?U = "keys_upto ?k (content T)" and ?V = "keys_beyond ?k (content T)"
  have s: "sorted (map (fst \<circ> snd) (content T))" using T by (simp add: bst_def ckey_content)
  have "sorted (map (fst \<circ> snd) ?U)" "sorted (map (fst \<circ> snd) ?V)"
    unfolding keys_upto_def keys_beyond_def using s by (simp_all add: sorted_filter)
  moreover have "\<forall>y \<in> set (map (fst \<circ> snd) ?U). y \<le> ?k" "\<forall>y \<in> set (map (fst \<circ> snd) ?V). ?k < y"
    by (auto simp: keys_upto_def keys_beyond_def)
  ultimately show ?thesis
    by (fastforce simp: bst_def ckey_content content_rb_insert [OF T] sorted_append)
qed

section \<open>Balance\<close>

fun invc :: "'a ctree \<Rightarrow> bool" where
  "invc Leaf \<longleftrightarrow> True"
| "invc (Node l x r) \<longleftrightarrow> (ccol x = 0 \<and> tcol l \<noteq> 0 \<and> tcol r \<noteq> 0 \<or> ccol x = 1) \<and> invc l \<and> invc r"

fun bheight :: "'a ctree \<Rightarrow> nat" where
  "bheight Leaf = 0"
| "bheight (Node l x r) = bheight l + (if ccol x = 0 then 0 else 1)"

fun invh :: "'a ctree \<Rightarrow> bool" where
  "invh Leaf \<longleftrightarrow> True"
| "invh (Node l x r) \<longleftrightarrow> bheight l = bheight r \<and> invh l \<and> invh r"

fun theight :: "'a ctree \<Rightarrow> nat" where
  "theight Leaf = 0"
| "theight (Node l x r) = Suc (max (theight l) (theight r))"

text \<open>A context into which any balanced tree of black height \<open>b\<close> fits.\<close>

definition not_red :: "'a level list \<Rightarrow> bool" where
  "not_red fs \<longleftrightarrow> (case fs of [] \<Rightarrow> True | f # _ \<Rightarrow> ccol (lcell f) \<noteq> 0)"

lemma not_red_simps [simp]: "not_red []" "not_red (f # fs) \<longleftrightarrow> ccol (lcell f) \<noteq> 0"
  by (simp_all add: not_red_def)

fun fits :: "'a level list \<Rightarrow> nat \<Rightarrow> bool" where
  "fits [] b \<longleftrightarrow> True"
| "fits (f # fs) b \<longleftrightarrow> invc (sib f) \<and> invh (sib f) \<and> bheight (sib f) = b \<and>
     (ccol (lcell f) = 0 \<and> tcol (sib f) \<noteq> 0 \<and> not_red fs \<or> ccol (lcell f) = 1) \<and>
     fits fs (b + (if ccol (lcell f) = 0 then 0 else 1))"

lemma balanced_plug:
  "\<lbrakk>fits fs (bheight T); invc T; invh T; tcol T = 0 \<longrightarrow> not_red fs\<rbrakk> \<Longrightarrow>
    invc (plug fs T) \<and> invh (plug fs T)"
proof (induction fs arbitrary: T)
  case (Cons f fs)
  show ?case
  proof (cases f)
    case (LeftOf x r)
    then show ?thesis using Cons.prems Cons.IH [of "Node T x r"] by (auto split: if_splits)
  next
    case (RightOf l x)
    then show ?thesis using Cons.prems Cons.IH [of "Node l x T"] by (auto split: if_splits)
  qed
qed simp

lemma plug_balanced:
  "\<lbrakk>invc (plug fs T); invh (plug fs T)\<rbrakk> \<Longrightarrow>
    fits fs (bheight T) \<and> invc T \<and> invh T \<and> (tcol T = 0 \<longrightarrow> not_red fs)"
proof (induction fs arbitrary: T)
  case (Cons f fs)
  show ?case
  proof (cases f)
    case (LeftOf x r)
    then show ?thesis using Cons.prems Cons.IH [of "Node T x r"] by (auto split: if_splits)
  next
    case (RightOf l x)
    then show ?thesis using Cons.prems Cons.IH [of "Node l x T"] by (auto split: if_splits)
  qed
qed simp

lemma paint_black:
  assumes "invc T" "invh T"
  shows "invc (paint 1 T)" "invh (paint 1 T)" "tcol (paint 1 T) = 1"
    "bheight (paint 1 T) = bheight T + (if tcol T = 0 then 1 else 0)"
  using assms by (cases T; auto)+

lemma fix_recolor_balanced:
  assumes "fits (f # g # fs) (bheight N)" "invc N" "invh N" "ccol (lcell f) = 0" "tcol (sib g) = 0"
  shows "fits fs (bheight (fix_recolor f g N))" "invc (fix_recolor f g N)" "invh (fix_recolor f g N)"
  using assms paint_black [of "sib g"]
  by (cases f; cases g; auto simp: fix_recolor_def split: if_splits)+

lemma fix_rotate_balanced:
  assumes "fits (f # g # fs) (bheight N)" "invc N" "invh N" "ccol (lcell f) = 0" "tcol (sib g) \<noteq> 0"
    and "N = Node nl n nr" "ccol n = 0"
  shows "fits fs (bheight (fix_rotate f g N)) \<and> invc (fix_rotate f g N) \<and> invh (fix_rotate f g N) \<and>
    tcol (fix_rotate f g N) = 1"
  using assms
  by (cases f; cases g; auto simp: fix_rotate_def split: if_splits)

lemma ins_fix_balanced:
  "\<lbrakk>fits fs (bheight N); invc N; invh N; tcol N = 0; red_root_free fs\<rbrakk> \<Longrightarrow>
    invc (ins_fix fs N) \<and> invh (ins_fix fs N)"
proof (induction fs N rule: ins_fix_induct)
  case (rounds f g fs N)
  then obtain nl n nr where N: "N = Node nl n nr" "ccol n = 0" by (cases N) auto
  show ?case
  proof (cases "ccol (lcell f) = 0")
    case False
    then show ?thesis using rounds balanced_plug [of "f # g # fs" N] by simp
  next
    case red: True
    show ?thesis
    proof (cases "tcol (sib g) = 0")
      case True
      have "tcol (fix_recolor f g N) = 0" using fix_recolor_Node [of f g N] by auto
      moreover have "red_root_free fs" using rounds.prems by (simp add: red_root_free_def split: if_splits)
      ultimately show ?thesis
        using rounds.IH [OF red True] fix_recolor_balanced [OF rounds.prems(1-3) red True] red True by simp
    next
      case False
      from fix_rotate_balanced [OF rounds.prems(1-3) red False N]
      show ?thesis using red False balanced_plug [of fs "fix_rotate f g N"] by simp
    qed
  qed
next
  case (one_frame f N)
  then show ?case using balanced_plug [of "[f]" N] by (simp add: red_root_free_def)
qed simp

theorem balanced_rb_insert:
  assumes "invc T" "invh T" "tcol T \<noteq> 0"
  shows "invc (rb_insert x T) \<and> invh (rb_insert x T) \<and> tcol (rb_insert x T) = 1"
proof -
  let ?fs = "descend (ckey x) [] T" and ?N = "Node Leaf (paint_cell 0 x) Leaf"
  have "fits ?fs 0" using plug_balanced [of ?fs Leaf] assms(1,2) by (simp add: plug_descend)
  then have "invc (ins_fix ?fs ?N) \<and> invh (ins_fix ?fs ?N)"
    using red_root_free_descend [OF assms(3)] by (intro ins_fix_balanced) simp_all
  then show ?thesis using paint_black [of "ins_fix ?fs ?N"] by (simp add: rb_insert_def)
qed

section \<open>Height\<close>

lemma bheight_size: "\<lbrakk>invh T; invc T\<rbrakk> \<Longrightarrow> 2 ^ bheight T \<le> Suc (length (cells T))"
proof (induction T)
  case (Node l x r)
  then have "2 ^ bheight l \<le> Suc (length (cells l))" "2 ^ bheight l \<le> Suc (length (cells r))" by simp_all
  then show ?case by simp
qed simp

lemma theight_bheight: "\<lbrakk>invh T; invc T\<rbrakk> \<Longrightarrow>
    theight T \<le> 2 * bheight T + (if tcol T = 0 then 1 else 0)"
proof (induction T)
  case (Node l x r)
  then have "theight l \<le> 2 * bheight l + (if tcol l = 0 then 1 else 0)"
    "theight r \<le> 2 * bheight l + (if tcol r = 0 then 1 else 0)" by simp_all
  then show ?case using Node.prems by (auto split: if_splits)
qed simp

theorem theight_bound:
  assumes "invh T" "invc T" "tcol T \<noteq> 0"
  shows "2 ^ theight T \<le> (Suc (length (cells T)))\<^sup>2"
proof -
  have "theight T \<le> 2 * bheight T" using theight_bheight [OF assms(1,2)] assms(3) by simp
  then have "(2::nat) ^ theight T \<le> 2 ^ (2 * bheight T)" by (simp add: power_increasing)
  also have "\<dots> = (2 ^ bheight T)\<^sup>2" by (simp add: power_mult [symmetric] mult.commute)
  also have "\<dots> \<le> (Suc (length (cells T)))\<^sup>2" using bheight_size [OF assms(1,2)] by (simp add: power_mono)
  finally show ?thesis .
qed

end
