(* ===== verification/RbQuery.thy ===== *)
theory RbQuery
  imports RbBalance
begin

text \<open>
  The reading operations of libconhash's tree on the tree of cells a heap represents: minimum,
  maximum, search, lookup (the first cell of key at least \<open>k\<close>, cyclically), the in-order traversal
  and the self check; and the state \<open>rb_ok\<close> in which every operation of the tree is correct (\<open>rb_at\<close>, with the parent link of the root).
\<close>

section \<open>Walks down the tree\<close>

lemma rbt_leftmost_rep:
  "\<lbrakk>tstate t par (plug fs T); T \<noteq> Leaf\<rbrakk> \<Longrightarrow> rbt_leftmost t (tptr T) = Some (At (fst (hd (content T))))"
proof (induction T arbitrary: fs)
  case (Node l x r)
  note d = tstate_deref [OF Node.prems(1)]
  show ?case
  proof (cases "l = Leaf")
    case True
    then show ?thesis using d by (subst rbt_leftmost.simps) simp
  next
    case False
    then have "tptr l \<noteq> Sentinel" "content l \<noteq> []" by (cases l; simp)+
    moreover have "tstate t par (plug (LeftOf x r # fs) l)" using Node.prems by simp
    ultimately show ?thesis using Node.IH(1) [of "LeftOf x r # fs"] False d by (subst rbt_leftmost.simps) simp
  qed
qed simp

lemma rbt_rightmost_rep:
  "\<lbrakk>tstate t par (plug fs T); T \<noteq> Leaf\<rbrakk> \<Longrightarrow> rbt_rightmost t (tptr T) = Some (At (fst (last (content T))))"
proof (induction T arbitrary: fs)
  case (Node l x r)
  note d = tstate_deref [OF Node.prems(1)]
  show ?case
  proof (cases "r = Leaf")
    case True
    then show ?thesis using d by (subst rbt_rightmost.simps) simp
  next
    case False
    then have "tptr r \<noteq> Sentinel" "content r \<noteq> []" by (cases r; simp)+
    moreover have "tstate t par (plug (RightOf l x # fs) r)" using Node.prems by simp
    ultimately show ?thesis using Node.IH(2) [of "RightOf l x # fs"] False d by (subst rbt_rightmost.simps) simp
  qed
qed simp

fun find_key :: "int \<Rightarrow> 'a ctree \<Rightarrow> 'a cell option" where
  "find_key k Leaf = None"
| "find_key k (Node l x r) =
     (if k < ckey x then find_key k l else if k > ckey x then find_key k r else Some x)"

definition to_ptr :: "nat option \<Rightarrow> ptr" where
  "to_ptr r = (case r of None \<Rightarrow> Null | Some a \<Rightarrow> At a)"

lemma to_ptr_simps [simp]: "to_ptr None = Null" "to_ptr (Some a) = At a"
  by (simp_all add: to_ptr_def)

lemma search_loop_rep:
  "tstate t par (plug fs T) \<Longrightarrow> search_loop t k (tptr T) = Some (to_ptr (map_option addr (find_key k T)))"
proof (induction T arbitrary: fs)
  case Leaf
  then show ?case by (subst search_loop.simps) simp
next
  case (Node l x r)
  note d = tstate_deref [OF Node.prems]
  have "tstate t par (plug (LeftOf x r # fs) l)" "tstate t par (plug (RightOf l x # fs) r)"
    using Node.prems by simp_all
  then show ?case using Node.IH(1) [of "LeftOf x r # fs"] Node.IH(2) [of "RightOf l x # fs"] d
    by (subst search_loop.simps) simp
qed

lemma find_key_bst: "bst T \<Longrightarrow> find_key k T = Some x \<Longrightarrow> x \<in> set (cells T) \<and> ckey x = k"
  by (induction T) (auto simp: bst_Node split: if_splits)

lemma find_key_None: "bst T \<Longrightarrow> find_key k T = None \<longleftrightarrow> (\<forall>y \<in> set (cells T). ckey y \<noteq> k)"
proof (induction T)
  case (Node l x r)
  have o: "bst l" "bst r" "\<forall>y \<in> set (cells l). ckey y \<le> ckey x" "\<forall>y \<in> set (cells r). ckey x \<le> ckey y"
    using Node.prems by (auto simp: bst_Node)
  consider "k < ckey x" | "ckey x < k" | "k = ckey x" by linarith
  then show ?case
  proof cases
    case 1
    then have "\<forall>y \<in> set (cells r). ckey y \<noteq> k" using o(4) by force
    then show ?thesis using 1 Node.IH(1) [OF o(1)] by auto
  next
    case 2
    then have "\<forall>y \<in> set (cells l). ckey y \<noteq> k" using o(3) by force
    then show ?thesis using 2 Node.IH(2) [OF o(2)] by auto
  qed simp
qed simp

text \<open>The first cell in order with a key of at least \<open>k\<close>.\<close>

definition ceiling_of :: "int \<Rightarrow> (nat \<times> int \<times> 'a) list \<Rightarrow> nat option" where
  "ceiling_of k ys = map_option fst (find (\<lambda>y. k \<le> fst (snd y)) ys)"

lemma find_append: "find P (xs @ ys) = (case find P xs of None \<Rightarrow> find P ys | Some x \<Rightarrow> Some x)"
  by (induction xs) auto

lemma find_None_all: "(\<forall>x \<in> set xs. \<not> P x) \<Longrightarrow> find P xs = None"
  by (induction xs) auto

lemma ceiling_simps [simp]: "ceiling_of k [] = None"
  "ceiling_of k (y # ys) = (if k \<le> fst (snd y) then Some (fst y) else ceiling_of k ys)"
  "ceiling_of k (xs @ ys) = (case ceiling_of k xs of None \<Rightarrow> ceiling_of k ys | Some x \<Rightarrow> Some x)"
  by (simp_all add: ceiling_of_def find_append split: option.split)

lemma ceiling_below: "(\<forall>y \<in> set (cells T). ckey y < k) \<Longrightarrow> ceiling_of k (content T) = None"
  by (fastforce simp: ceiling_of_def content_def intro!: find_None_all)

lemma lookup_loop_rep:
  "\<lbrakk>tstate t par (plug fs T); bst T\<rbrakk> \<Longrightarrow> lookup_loop t k node (tptr T) =
    Some (case ceiling_of k (content T) of None \<Rightarrow> node | Some a \<Rightarrow> At a)"
proof (induction T arbitrary: fs node)
  case Leaf
  then show ?case by (subst lookup_loop.simps) simp
next
  case (Node l x r)
  note d = tstate_deref [OF Node.prems(1)]
  have p: "tstate t par (plug (LeftOf x r # fs) l)" "tstate t par (plug (RightOf l x # fs) r)"
    using Node.prems by simp_all
  have o: "bst l" "bst r" "\<forall>y \<in> set (cells l). ckey y \<le> ckey x" using Node.prems(2) by (auto simp: bst_Node)
  show ?case
  proof (cases "k \<le> ckey x")
    case True
    then show ?thesis using d Node.IH(1) [OF p(1) o(1)]
      by (subst lookup_loop.simps) (simp split: option.split)
  next
    case False
    then have "ceiling_of k (content l) = None" using o(3) by (intro ceiling_below) force
    then show ?thesis using False d Node.IH(2) [OF p(2) o(2)] by (subst lookup_loop.simps) simp
  qed
qed

definition lookup_of :: "int \<Rightarrow> (nat \<times> int \<times> 'a) list \<Rightarrow> nat option" where
  "lookup_of k ys = (case ceiling_of k ys of
     Some a \<Rightarrow> Some a
   | None \<Rightarrow> (case ys of [] \<Rightarrow> None | y # _ \<Rightarrow> Some (fst y)))"

section \<open>Traversal\<close>

lemma mid_travel_rep:
  assumes "\<And>n s. opera n s = f (key n) (data n) s"
  shows "\<lbrakk>tstate t par (plug fs T); T \<noteq> Leaf\<rbrakk> \<Longrightarrow>
    rbtree_mid_travel t opera (tptr T) s = Some (fold (\<lambda>(_, k, d). f k d) (content T) s)"
proof (induction T arbitrary: fs s)
  case (Node l x r)
  have d: "deref t (At (addr x)) = Some \<lparr>key = ckey x, parent = fpar par fs, right = tptr r,
    left = tptr l, color = ccol x, data = cdat x\<rparr>" using tstate_deref [OF Node.prems(1)] .
  have p: "tstate t par (plug (LeftOf x r # fs) l)" "tstate t par (plug (RightOf l x # fs) r)"
    using Node.prems by simp_all
  have L: "(if tptr l \<noteq> Sentinel then rbtree_mid_travel t opera (tptr l) s else Some s) =
      Some (fold (\<lambda>(_, k, d). f k d) (content l) s)"
    using Node.IH(1) [OF p(1)] by (cases l) simp_all
  have R: "(if tptr r \<noteq> Sentinel then rbtree_mid_travel t opera (tptr r) s' else Some s') =
      Some (fold (\<lambda>(_, k, d). f k d) (content r) s')" for s'
    using Node.IH(2) [OF p(2)] by (cases r) simp_all
  show ?case
    by (subst rbtree_mid_travel.simps) (simp add: d L R assms del: map_option_eq_Some)
qed simp

section \<open>The self check\<close>

lemma as_short [simp]: "\<lbrakk>0 \<le> i; i < 32768\<rbrakk> \<Longrightarrow> as_short i = i"
  by (simp add: as_short_def sint_sbintrunc' signed_take_bit_int_eq_self)

lemma check_child_rep:
  assumes t: "tstate t par (plug fs (Node l x r))" and c: "c = (if left_side then l else r)" "c \<noteq> Leaf"
    and i: "invc (Node l x r)" and o: "bst (Node l x r)" and nb: "null_black t"
  shows "check_child t (At (addr x)) (tptr c) left_side = Some 0"
proof -
  obtain cl y cr where C: "c = Node cl y cr" using c(2) by (cases c) auto
  have tc: "\<exists>gs. tstate t par (plug gs (Node cl y cr))"
  proof (cases left_side)
    case True
    then have "tstate t par (plug (LeftOf x r # fs) c)" using t c(1) by simp
    then show ?thesis unfolding C by blast
  next
    case False
    then have "tstate t par (plug (RightOf l x # fs) c)" using t c(1) by simp
    then show ?thesis unfolding C by blast
  qed
  then obtain gs where "tstate t par (plug gs (Node cl y cr))" by blast
  note d = tstate_deref [OF t] tstate_deref [OF this]
  have "ccol x = 0 \<Longrightarrow> ccol y \<noteq> 0" using i c(1) C by (auto split: if_splits)
  moreover have "if left_side then \<not> ckey x < ckey y else \<not> ckey x > ckey y"
    using o c(1) C by (auto simp: bst_Node split: if_splits)
  ultimately show ?thesis using d by (simp add: check_child_def util_rbt_isred_def C)
qed

lemma rbtree_check_subtree_rep:
  "\<lbrakk>tstate t par (plug fs T); T \<noteq> Leaf; null_black t; invc T; invh T; bst T; fini c = 0;
    rbh c = 0 \<or> rbh c = h + int (bheight T); 0 \<le> h; h + int (bheight T) < 32768\<rbrakk> \<Longrightarrow>
   \<exists>c'. rbtree_check_subtree t (tptr T) level h c = Some c' \<and> fini c' = 0 \<and> rbh c' = h + int (bheight T)"
proof (induction T arbitrary: fs level h c)
  case (Node l x r)
  define hx where "hx = (if ccol x = 1 then h + 1 else h)"
  note d = tstate_deref [OF Node.prems(1)]
  have p: "tstate t par (plug (LeftOf x r # fs) l)" "tstate t par (plug (RightOf l x # fs) r)"
    using Node.prems by simp_all
  have o: "bst l" "bst r" "invc l" "invc r" "invh l" "invh r" "bheight r = bheight l"
    and col: "ccol x = 0 \<or> ccol x = 1"
    using Node.prems by (auto simp: bst_Node)
  have hh: "h + int (bheight (Node l x r)) = hx + int (bheight l)" using col by (auto simp: hx_def)
  have hx: "0 \<le> hx" "hx + int (bheight l) < 32768" "hx < 32768"
    using Node.prems(9,10) unfolding hh by (auto simp: hx_def)
  have chk: "fini (check_rb_height level hx c1) = 0 \<and> rbh (check_rb_height level hx c1) = hx"
    if "fini c1 = 0" "rbh c1 = 0 \<or> rbh c1 = hx" for c1
    using that hx by (auto simp: check_rb_height_def Let_def)
  have start: "rbtree_check_subtree t (At (addr x)) level h c =
     (if l = Leaf then Some (check_rb_height level hx c)
      else do {
        c1 \<leftarrow> rbtree_check_subtree t (tptr l) (level + 1) hx c;
        if r = Leaf then Some (check_rb_height level hx c1)
        else rbtree_check_subtree t (tptr r) (level + 1) hx c1
      })"
    using d Node.prems(7) col
      check_child_rep [OF Node.prems(1) _ _ Node.prems(4,6,3), of l True]
      check_child_rep [OF Node.prems(1) _ _ Node.prems(4,6,3), of r False]
    by (subst rbtree_check_subtree.simps)
      (cases l; cases r; auto simp: util_rbt_isblack_def util_rbt_isred_def hx_def Let_def)
  show ?case
  proof (cases "l = Leaf")
    case True
    then show ?thesis using start chk [of c] Node.prems(7,8) hh by simp
  next
    case False
    have "rbh c = 0 \<or> rbh c = hx + int (bheight l)" using Node.prems(8) unfolding hh .
    from Node.IH(1) [OF p(1) False Node.prems(3) o(3,5,1) Node.prems(7) this hx(1,2), of "level + 1"]
    obtain c1 where c1: "rbtree_check_subtree t (tptr l) (level + 1) hx c = Some c1"
      "fini c1 = 0" "rbh c1 = hx + int (bheight l)" by blast
    show ?thesis
    proof (cases "r = Leaf")
      case True
      then have "bheight l = 0" using o(7) by simp
      then show ?thesis using start c1 chk [of c1] False True hh by simp
    next
      case rne: False
      have "rbh c1 = 0 \<or> rbh c1 = hx + int (bheight r)" using c1(3) o(7) by simp
      from Node.IH(2) [OF p(2) rne Node.prems(3) o(4,6,2) c1(2) this hx(1) hx(2) [folded o(7)], of "level + 1"]
      show ?thesis unfolding hh using start c1(1) False rne o(7) by simp
    qed
  qed
qed simp

section \<open>The state of a correct tree\<close>

definition rb_at :: "'a rbtree \<Rightarrow> ptr \<Rightarrow> 'a ctree \<Rightarrow> bool" where
  "rb_at t par T \<longleftrightarrow> tstate t par T \<and> null_black t \<and> tcol T \<noteq> 0 \<and> invc T \<and> invh T \<and> bst T"

abbreviation rb_ok :: "'a rbtree \<Rightarrow> 'a ctree \<Rightarrow> bool" where
  "rb_ok t T \<equiv> rb_at t Sentinel T"

lemma rb_ok_init: "rb_ok (util_rbtree_init t) Leaf"
  by (simp add: rb_at_def util_rbtree_init_def tstate_def null_black_def bst_def)

lemma rb_at_alloc: "\<lbrakk>rb_at t par T; a \<notin> set (taddrs T)\<rbrakk> \<Longrightarrow> rb_at (alloc_node a n t) par T"
  by (simp add: rb_at_def alloc_node_def tstate_def null_black_def)

lemma search_rep: "rb_at t par T \<Longrightarrow> util_rbtree_search t k = Some (to_ptr (map_option addr (find_key k T)))"
  using search_loop_rep [of t par "[]" T k] by (simp add: rb_at_def util_rbtree_search_def tstate_def)

lemma lookup_rep: "rb_at t par T \<Longrightarrow> util_rbtree_lookup t k = Some (to_ptr (lookup_of k (content T)))"
proof -
  assume "rb_at t par T"
  then have t: "tstate t par (plug [] T)" "bst T" "root t = tptr T"
    by (simp_all add: rb_at_def tstate_def)
  note lk = lookup_loop_rep [OF t(1,2), of k Null] and mn = rbt_leftmost_rep [OF t(1)]
  show ?thesis
  proof (cases T)
    case Leaf
    then show ?thesis using t(3) by (simp add: util_rbtree_lookup_def util_rbtree_isempty_def lookup_of_def)
  next
    case (Node l x r)
    then obtain y ys where ys: "content T = y # ys" by (cases "content T") auto
    have "tptr T \<noteq> Sentinel" using Node by simp
    then show ?thesis
      using lk mn t(3) Node ys
      by (auto simp: util_rbtree_lookup_def util_rbtree_isempty_def util_rbsubtree_min_def lookup_of_def
        simp del: content_simps split: option.splits)
  qed
qed

lemma insert_ok:
  assumes "rb_ok t T" "heap t a = Some nd" "a \<notin> set (taddrs T)"
  shows "\<exists>t' T'. util_rbtree_insert (At a) t = Some t' \<and> rb_ok t' T' \<and> size t' = size t + 1 \<and>
    content T' = keys_upto (key nd) (content T) @ (a, key nd, data nd) # keys_beyond (key nd) (content T) \<and>
    (\<forall>b. b \<noteq> a \<longrightarrow> b \<notin> set (taddrs T) \<longrightarrow> heap t' b = heap t b)"
proof -
  let ?x = "Cell a (key nd) 0 (data nd)"
  have t: "tstate t Sentinel T" "null_black t" "tcol T \<noteq> 0" "invc T" "invh T" "bst T"
    using assms(1) by (simp_all add: rb_at_def)
  from util_rbtree_insert_rep [OF t(1-3) assms(2,3) refl] obtain t' where
    1: "util_rbtree_insert (At a) t = Some t'" "tstate t' Sentinel (rb_insert ?x T)"
      "size t' = size t + 1" "only_touches (insert a (set (taddrs T))) t t'"
    unfolding yields_def by blast
  have "rb_ok t' (rb_insert ?x T)"
    using 1(2,4) t balanced_rb_insert [OF t(4,5,3), of ?x] bst_rb_insert [OF t(6), of ?x]
    by (simp add: rb_at_def null_black_def only_touches_def)
  then show ?thesis
    using 1 content_rb_insert [OF t(6), of ?x] by (auto simp: only_touches_def)
qed

lemma search_ok:
  assumes "rb_at t par T"
  shows "\<exists>r. util_rbtree_search t k = Some r \<and> (r = Null \<longleftrightarrow> k \<notin> (fst \<circ> snd) ` set (content T)) \<and>
    (\<forall>a. r = At a \<longrightarrow> (\<exists>d. (a, k, d) \<in> set (content T))) \<and> r \<noteq> Sentinel"
proof -
  have b: "bst T" using assms by (simp add: rb_at_def)
  have k: "(\<forall>y \<in> set (cells T). ckey y \<noteq> k) \<longleftrightarrow> k \<notin> (fst \<circ> snd) ` set (content T)"
    by (auto simp: content_def image_iff)
  show ?thesis
  proof (cases "find_key k T")
    case None
    then show ?thesis using search_rep [OF assms, of k] find_key_None [OF b, of k] k by simp
  next
    case (Some x)
    from find_key_bst [OF b this] have x: "x \<in> set (cells T)" "ckey x = k" by auto
    then have "(addr x, k, cdat x) \<in> set (content T)" by (auto simp: content_def)
    then show ?thesis using search_rep [OF assms, of k] Some x(2) by (auto intro!: image_eqI)
  qed
qed

section \<open>Properties\<close>

text \<open>C23: \<open>util_rbtree_insert\<close> of an allocated node that is not in the tree succeeds (no null or
  dangling access, the fix-up loop ends), links the node behind the nodes of equal or smaller key
  and before the larger ones, keeps the red-black invariants, counts the node, and writes no heap
  cell outside the tree.\<close>

theorem rbtree_insert_correct:
  assumes "rb_ok t T" "heap t a = Some nd" "a \<notin> set (taddrs T)"
  shows "\<exists>t' T'. util_rbtree_insert (At a) t = Some t' \<and> rb_ok t' T' \<and> size t' = size t + 1 \<and>
    content T' = keys_upto (key nd) (content T) @ (a, key nd, data nd) # keys_beyond (key nd) (content T) \<and>
    (\<forall>b. b \<noteq> a \<longrightarrow> b \<notin> set (taddrs T) \<longrightarrow> heap t' b = heap t b)"
  using assms by (rule insert_ok)

definition new_node :: "int \<Rightarrow> 'a \<Rightarrow> 'a rbnode" where
  "new_node k d = \<lparr>key = k, parent = Null, right = Null, left = Null, color = 0, data = d\<rparr>"

definition example_tree :: "nat rbtree" where
  "example_tree = util_rbtree_init \<lparr>root = Null, null = new_node 0 0, size = 7, heap = Map.empty\<rparr>"

theorem rbtree_insert_correct_witness:
  "\<exists>t' T'. util_rbtree_insert (At 4) (alloc_node 4 (new_node 30 9) example_tree) = Some t' \<and> rb_ok t' T' \<and>
    content T' = [(4, 30, 9)]"
proof -
  have "rb_ok (alloc_node 4 (new_node 30 9) example_tree) Leaf"
    unfolding example_tree_def by (rule rb_at_alloc [OF rb_ok_init]) simp
  from rbtree_insert_correct [OF this, of 4 "new_node 30 9"]
  show ?thesis by (auto simp: alloc_node_def new_node_def)
qed

text \<open>C24: \<open>util_rbtree_lookup\<close> ends and returns the first node in key order whose key is at least
  \<open>k\<close>, the node of smallest key when there is none, and the null pointer on an empty tree.\<close>

theorem rbtree_lookup_correct:
  assumes "rb_at t par T"
  shows "util_rbtree_lookup t k = Some (to_ptr (lookup_of k (content T)))"
  using assms by (rule lookup_rep)

theorem rbtree_lookup_correct_witness:
  "do { t \<leftarrow> util_rbtree_insert (At 4) (alloc_node 4 (new_node 30 9) example_tree); util_rbtree_lookup t 5 } = Some (At 4) \<and>
   do { t \<leftarrow> util_rbtree_insert (At 4) (alloc_node 4 (new_node 30 9) example_tree); util_rbtree_lookup t 31 } = Some (At 4) \<and>
   util_rbtree_lookup example_tree 5 = Some Null"
proof -
  have "rb_ok (alloc_node 4 (new_node 30 9) example_tree) Leaf"
    unfolding example_tree_def by (rule rb_at_alloc [OF rb_ok_init]) simp
  from insert_ok [OF this, of 4 "new_node 30 9"] obtain t T where
    t: "util_rbtree_insert (At 4) (alloc_node 4 (new_node 30 9) example_tree) = Some t" "rb_ok t T"
      "content T = [(4, 30, 9)]" by (auto simp: alloc_node_def new_node_def)
  have "rb_ok example_tree Leaf" unfolding example_tree_def by (rule rb_ok_init)
  from rbtree_lookup_correct [OF this, of 5] rbtree_lookup_correct [OF t(2)] show ?thesis
    using t(1,3) by (simp add: lookup_of_def ceiling_of_def)
qed

text \<open>\<open>util_rbtree_search\<close> ends; it returns the null pointer exactly when no node has the key,
  and otherwise a node of the tree with that key.\<close>

theorem rbtree_search_correct:
  assumes "rb_at t par T"
  shows "\<exists>r. util_rbtree_search t k = Some r \<and> (r = Null \<longleftrightarrow> k \<notin> (fst \<circ> snd) ` set (content T)) \<and>
    (\<forall>a. r = At a \<longrightarrow> (\<exists>d. (a, k, d) \<in> set (content T))) \<and> r \<noteq> Sentinel"
  using assms by (rule search_ok)

theorem rbtree_search_correct_witness:
  "\<exists>r. util_rbtree_search (util_rbtree_init example_tree) 5 = Some r \<and> r = Null"
  using rbtree_search_correct [OF rb_ok_init, of example_tree 5] by simp

text \<open>A balanced, sorted tree passes \<open>util_rbtree_check\<close>: it returns 0 and reports the tree's
  black height (which the code keeps in a \<open>short\<close>).\<close>

theorem rbtree_check_accepts:
  assumes "rb_at t par T" "bheight T < 32768"
  shows "\<exists>d. util_rbtree_check t = Some (0, int (bheight T), d)"
proof (cases "T = Leaf")
  case True
  then show ?thesis using assms(1) by (simp add: util_rbtree_check_def rb_at_def tstate_def)
next
  case False
  then obtain l x r where T: "T = Node l x r" by (cases T) auto
  have t: "tstate t par (plug [] T)" "null_black t" "invc T" "invh T" "bst T" "root t = tptr T"
    "ccol x = 1"
    using assms(1) by (auto simp: rb_at_def tstate_def T)
  from rbtree_check_subtree_rep [OF t(1) False t(2-5), of "\<lparr>rbh = 0, maxd = 0, fini = 0\<rparr>" 0 1] assms(2)
  obtain c' where "rbtree_check_subtree t (tptr T) 1 0 \<lparr>rbh = 0, maxd = 0, fini = 0\<rparr> = Some c'"
    "fini c' = 0" "rbh c' = int (bheight T)" by auto
  then show ?thesis
    using t(6,7) color_at [of t par "[]" l x r] t(1)
    by (simp add: util_rbtree_check_def T util_rbt_isblack_def del: map_option_eq_Some)
qed

theorem rbtree_check_accepts_witness:
  "\<exists>d. util_rbtree_check (util_rbtree_init example_tree) = Some (0, 0, d)"
  using rbtree_check_accepts [OF rb_ok_init, of example_tree] by simp

text \<open>The check is not complete, although the header promises to decide "whether a tree is a rb tree": below a node without
  left child it never looks at the right child, so a tree that is neither sorted nor balanced and
  has a red-red pair passes.\<close>

theorem rbtree_check_incomplete:
  "\<exists>t T. tstate (t :: nat rbtree) Sentinel T \<and> null_black t \<and> \<not> bst T \<and> \<not> invc T \<and> \<not> invh T \<and>
    util_rbtree_check t = Some (0, 1, 1)"
proof -
  let ?T = "Node Leaf (Cell 1 10 1 0) (Node Leaf (Cell 2 5 0 0) (Node Leaf (Cell 3 1 0 0) (Node Leaf (Cell 4 0 1 0) Leaf)))"
  let ?n = "\<lambda>k p r c. \<lparr>key = k, parent = p, right = r, left = Sentinel, color = c, data = 0\<rparr>"
  define t :: "nat rbtree" where "t = \<lparr>root = At 1, null = \<lparr>key = 0, parent = Null, right = Null, left = Null, color = 1, data = 0\<rparr>,
    size = 4, heap = [1 \<mapsto> ?n 10 Sentinel (At 2) 1, 2 \<mapsto> ?n 5 (At 1) (At 3) 0, 3 \<mapsto> ?n 1 (At 2) (At 4) 0,
      4 \<mapsto> ?n 0 (At 3) Sentinel 1]\<rparr>"
  have "tstate t Sentinel ?T" by (simp add: tstate_def t_def)
  moreover have "util_rbtree_check t = Some (0, 1, 1)"
    by (subst util_rbtree_check_def, subst rbtree_check_subtree.simps)
      (simp add: t_def deref_def util_rbt_isblack_def util_rbt_isred_def check_rb_height_def)
  moreover have "null_black t" by (simp add: null_black_def t_def)
  moreover have "\<not> bst ?T" "\<not> invc ?T" "\<not> invh ?T" by (simp_all add: bst_def)
  ultimately show ?thesis by blast
qed

text \<open>\<open>malloc\<close> and insert, delete and \<open>free\<close>, as the consistent hash calls them.\<close>

definition rb_new :: "nat \<Rightarrow> int \<Rightarrow> 'a \<Rightarrow> 'a rbtree \<Rightarrow> 'a rbtree option" where
  "rb_new a k d t = util_rbtree_insert (At a) (alloc_node a (new_node k d) t)"

definition rb_drop :: "nat \<Rightarrow> 'a rbtree \<Rightarrow> 'a rbtree option" where
  "rb_drop a t = do { t1 \<leftarrow> util_rbtree_delete (At a) t; free_node (At a) t1 }"

end
