(* ===== verification/RbDelete.thy ===== *)
theory RbDelete
  imports RbQuery
begin

text \<open>
  Correctness of \<open>util_rbtree_delete\<close>: the pointer program computes the functional deletion
  \<open>rb_delete\<close> on the tree the heap represents, the fix-up loop ends, and the invariants are kept.
  The root's parent link is followed exactly: it changes only when the root is deleted with at most
  one child, and then it is left on the deleted node.
\<close>

declare map_option_eq_Some [simp del]

section \<open>Functional fix-up\<close>

text \<open>One round at the level \<open>f\<close> whose sibling is black: the new subtree, and whether the loop goes on
  at the parent.\<close>

fun black_sib :: "'a level \<Rightarrow> 'a ctree \<Rightarrow> bool \<times> 'a ctree" where
  "black_sib (LeftOf p (Node wl w wr)) T =
     (if tcol wl = 1 \<and> tcol wr = 1 then (True, Node T p (Node wl (paint_cell 0 w) wr))
      else (False, (case (if tcol wr = 1 then rotr (Node (paint 1 wl) (paint_cell 0 w) wr) else Node wl w wr) of
        Node vl v vr \<Rightarrow> Node (Node T (paint_cell 1 p) vl) (paint_cell (ccol p) v) (paint 1 vr) | Leaf \<Rightarrow> Leaf)))"
| "black_sib (RightOf (Node wl w wr) p) T =
     (if tcol wl = 1 \<and> tcol wr = 1 then (True, Node (Node wl (paint_cell 0 w) wr) p T)
      else (False, (case (if tcol wl = 1 then rotl (Node wl (paint_cell 0 w) (paint 1 wr)) else Node wl w wr) of
        Node vl v vr \<Rightarrow> Node (paint 1 vl) (paint_cell (ccol p) v) (Node vr (paint_cell 1 p) T) | Leaf \<Rightarrow> Leaf)))"
| "black_sib _ T = (False, T)"

text \<open>A red sibling is first rotated above the parent.\<close>

fun red_sib :: "'a level \<Rightarrow> 'a level list" where
  "red_sib (LeftOf p (Node wl w wr)) =
     (if ccol w = 0 then [LeftOf (paint_cell 0 p) wl, LeftOf (paint_cell 1 w) wr] else [LeftOf p (Node wl w wr)])"
| "red_sib (RightOf (Node wl w wr) p) =
     (if ccol w = 0 then [RightOf wr (paint_cell 0 p), RightOf wl (paint_cell 1 w)] else [RightOf (Node wl w wr) p])"
| "red_sib f = [f]"

fun del_fix :: "'a level list \<Rightarrow> 'a ctree \<Rightarrow> 'a ctree" where
  "del_fix [] T = paint 1 T"
| "del_fix (f # fs) T =
     (if tcol T = 1
      then (case red_sib f of
          [f'] \<Rightarrow> (case black_sib f' T of (True, S) \<Rightarrow> del_fix fs S | (False, S) \<Rightarrow> paint 1 (plug fs S))
        | f' # gs \<Rightarrow> (case black_sib f' T of (True, S) \<Rightarrow> plug (gs @ fs) (paint 1 S)
            | (False, S) \<Rightarrow> paint 1 (plug (gs @ fs) S))
        | [] \<Rightarrow> T)
      else plug (f # fs) (paint 1 T))"

section \<open>The state of the fix-up loop\<close>

definition dstate :: "'a rbtree \<Rightarrow> ptr \<Rightarrow> 'a level list \<Rightarrow> 'a ctree \<Rightarrow> bool" where
  "dstate t par fs T \<longleftrightarrow> tstate t par (plug fs T) \<and> null_black t \<and> get_parent t (tptr T) = Some (fpar par fs)"

lemma dstate_Node:
  "tstate t par (plug fs (Node l x r)) \<Longrightarrow> null_black t \<Longrightarrow> dstate t par fs (Node l x r)"
  using tstate_deref [of t par fs l x r] by (simp add: dstate_def)

lemma dstate_step:
  assumes d: "dstate t par fs T" and t': "tstate t' par (plug fs' T)" and s: "same_outside A t t'"
    and p: "fpar par fs' = fpar par fs"
  shows "dstate t' par fs' T"
proof (cases T)
  case Leaf
  then show ?thesis using d t' s p null_black_same [OF s]
    by (simp add: dstate_def deref_def same_outside_def)
next
  case (Node l x r)
  have "null_black t'" using d null_black_same [OF s] by (simp add: dstate_def)
  then show ?thesis using t' dstate_Node [of t' par fs' l x r] by (simp add: Node)
qed

text \<open>The loop body in two halves: the red sibling, and the rest.\<close>

definition dl_red :: "ptr \<Rightarrow> 'a rbtree \<Rightarrow> (ptr \<times> 'a rbtree) option" where
  "dl_red node t = do {
     np \<leftarrow> get_parent t node;
     w0 \<leftarrow> get_right t np;
     wred \<leftarrow> util_rbt_isred t w0;
     if wred then do {
       t1 \<leftarrow> util_rbt_black w0 t;
       p1 \<leftarrow> get_parent t1 node;
       t2 \<leftarrow> util_rbt_red p1 t1;
       p2 \<leftarrow> get_parent t2 node;
       t3 \<leftarrow> rbtree_left_rotate p2 t2;
       p3 \<leftarrow> get_parent t3 node;
       w1 \<leftarrow> get_right t3 p3;
       Some (w1, t3)
     } else Some (w0, t)
   }"

definition dl_near :: "ptr \<Rightarrow> ptr \<Rightarrow> 'a rbtree \<Rightarrow> (ptr \<times> 'a rbtree) option" where
  "dl_near node w t1 = do {
     wr \<leftarrow> get_right t1 w;
     rb \<leftarrow> util_rbt_isblack t1 wr;
     if rb then do {
       wl' \<leftarrow> get_left t1 w;
       t2 \<leftarrow> util_rbt_black wl' t1;
       t3 \<leftarrow> util_rbt_red w t2;
       t4 \<leftarrow> rbtree_right_rotate w t3;
       p \<leftarrow> get_parent t4 node;
       w1 \<leftarrow> get_right t4 p;
       Some (w1, t4)
     } else Some (w, t1)
   }"

definition dl_far :: "ptr \<Rightarrow> ptr \<Rightarrow> 'a rbtree \<Rightarrow> (ptr \<times> 'a rbtree) option" where
  "dl_far node w' t2 = do {
     p \<leftarrow> get_parent t2 node;
     pc \<leftarrow> get_color t2 p;
     t3 \<leftarrow> set_color w' pc t2;
     p' \<leftarrow> get_parent t3 node;
     t4 \<leftarrow> util_rbt_black p' t3;
     wr' \<leftarrow> get_right t4 w';
     t5 \<leftarrow> util_rbt_black wr' t4;
     p'' \<leftarrow> get_parent t5 node;
     t6 \<leftarrow> rbtree_left_rotate p'' t5;
     Some (root t6, t6)
   }"

definition dl_both :: "ptr \<Rightarrow> 'a rbtree \<Rightarrow> bool option" where
  "dl_both w t1 = do {
     wl \<leftarrow> get_left t1 w;
     lb \<leftarrow> util_rbt_isblack t1 wl;
     if lb then do { wr \<leftarrow> get_right t1 w; util_rbt_isblack t1 wr } else Some False
   }"

definition dl_rest :: "ptr \<Rightarrow> ptr \<Rightarrow> 'a rbtree \<Rightarrow> (ptr \<times> 'a rbtree) option" where
  "dl_rest node w t1 = do {
     both \<leftarrow> dl_both w t1;
     if both then do { t2 \<leftarrow> util_rbt_red w t1; p \<leftarrow> get_parent t2 node; Some (p, t2) }
     else do { (w', t2) \<leftarrow> dl_near node w t1; dl_far node w' t2 }
   }"

lemma delete_fixup_left_halves:
  "delete_fixup_left node t = do { (w, t1) \<leftarrow> dl_red node t; dl_rest node w t1 }"
  unfolding delete_fixup_left_def dl_red_def dl_rest_def dl_near_def dl_far_def dl_both_def
  by (simp add: case_prod_unfold cong: if_cong)

lemma isblack_sub:
  assumes "tstate t par (plug fs T)" "null_black t"
  shows "util_rbt_isblack t (tptr T) = Some (tcol T = 1)"
  using color_sub [OF assms] by (simp add: util_rbt_isblack_def)

lemma dl_red_rep:
  assumes d: "dstate t par (LeftOf p (Node wl w wr) # fs) T"
  shows "yields (dl_red (tptr T) t) (\<lambda>(q, t'). same_outside (set (taddrs (plug (LeftOf p (Node wl w wr) # fs) T))) t t' \<and>
    (if ccol w = 0 then q = tptr wl \<and> dstate t' par (LeftOf (paint_cell 0 p) wl # LeftOf (paint_cell 1 w) wr # fs) T
     else q = At (addr w) \<and> t' = t))"
proof -
  let ?A = "set (taddrs (plug (LeftOf p (Node wl w wr) # fs) T))"
  have t: "tstate t par (plug (LeftOf p (Node wl w wr) # fs) T)" and nb: "null_black t"
    using d by (simp_all add: dstate_def)
  have np: "get_parent t' (tptr T) = Some (At (addr p))"
    if "dstate t' par (LeftOf (paint_cell c p) W # gs) T" for t' c W gs using that by (simp add: dstate_def)
  have np0: "get_parent t (tptr T) = Some (At (addr p))" using d by (simp add: dstate_def)
  have w0: "get_right t (At (addr p)) = Some (At (addr w))" using tstate_level [OF t] by simp
  have tw: "tstate t par (plug (RightOf T p # fs) (Node wl w wr))" using t by simp
  from isred_sub [OF tw nb] have red: "util_rbt_isred t (At (addr w)) = Some (ccol w = 0)" by simp
  show ?thesis
  proof (cases "ccol w = 0")
    case False
    then show ?thesis using np0 w0 red by (simp add: dl_red_def)
  next
    case True
    from tstate_paint [OF tw, of 1] obtain t1 where 1: "set_color (At (addr w)) 1 t = Some t1"
      "tstate t1 par (plug fs (Node T p (Node wl (paint_cell 1 w) wr)))" "same_outside ?A t t1" by auto
    have d1: "dstate t1 par (LeftOf p (Node wl (paint_cell 1 w) wr) # fs) T"
      by (rule dstate_step [OF d _ 1(3)]) (use 1(2) in simp_all)
    from tstate_paint [OF 1(2), of 0] obtain t2 where 2: "set_color (At (addr p)) 0 t1 = Some t2"
      "tstate t2 par (plug fs (Node T (paint_cell 0 p) (Node wl (paint_cell 1 w) wr)))" "same_outside ?A t1 t2"
      by auto
    have d2: "dstate t2 par (LeftOf (paint_cell 0 p) (Node wl (paint_cell 1 w) wr) # fs) T"
      by (rule dstate_step [OF d1 _ 2(3)]) (use 2(2) in simp_all)
    from left_rotate_rep [OF 2(2)] obtain t3 where 3: "rbtree_left_rotate (At (addr p)) t2 = Some t3"
      "tstate t3 par (plug fs (Node (Node T (paint_cell 0 p) wl) (paint_cell 1 w) wr))" "same_outside ?A t2 t3"
      unfolding yields_def by auto
    have d3: "dstate t3 par (LeftOf (paint_cell 0 p) wl # LeftOf (paint_cell 1 w) wr # fs) T"
      by (rule dstate_step [OF d2 _ 3(3)]) (use 3(2) in simp_all)
    have "get_right t3 (At (addr p)) = Some (tptr wl)"
      using tstate_level [of t3 par "LeftOf (paint_cell 0 p) wl" "LeftOf (paint_cell 1 w) wr # fs" T] d3 by (simp add: dstate_def)
    moreover have "get_parent t1 (tptr T) = Some (At (addr p))" "get_parent t2 (tptr T) = Some (At (addr p))"
      "get_parent t3 (tptr T) = Some (At (addr p))" using d1 d2 d3 by (simp_all add: dstate_def)
    ultimately have "dl_red (tptr T) t = Some (tptr wl, t3)"
      using np0 w0 red True 1(1) 2(1) 3(1)
      by (simp add: dl_red_def util_rbt_black_def util_rbt_red_def)
    then show ?thesis using True d3 same_outside_trans [OF same_outside_trans [OF 1(3) 2(3)] 3(3)] by simp
  qed
qed

lemma dl_both_rep:
  assumes t: "tstate t par (plug gs (Node wl w wr))" and nb: "null_black t"
  shows "dl_both (At (addr w)) t = Some (tcol wl = 1 \<and> tcol wr = 1)"
    "get_left t (At (addr w)) = Some (tptr wl)" "get_right t (At (addr w)) = Some (tptr wr)"
    "util_rbt_isblack t (tptr wl) = Some (tcol wl = 1)" "util_rbt_isblack t (tptr wr) = Some (tcol wr = 1)"
proof -
  show c: "get_left t (At (addr w)) = Some (tptr wl)" "get_right t (At (addr w)) = Some (tptr wr)"
    using tstate_deref [OF t] by simp_all
  have "tstate t par (plug (LeftOf w wr # gs) wl)" "tstate t par (plug (RightOf wl w # gs) wr)"
    using t by simp_all
  from this [THEN isblack_sub [OF _ nb]]
  show b: "util_rbt_isblack t (tptr wl) = Some (tcol wl = 1)" "util_rbt_isblack t (tptr wr) = Some (tcol wr = 1)" .
  show "dl_both (At (addr w)) t = Some (tcol wl = 1 \<and> tcol wr = 1)"
    using b c by (simp add: dl_both_def)
qed

lemma dl_near_rep:
  assumes d: "dstate t par (LeftOf p (Node wl w wr) # fs) T" and n: "tcol wr = 1 \<Longrightarrow> wl \<noteq> Leaf"
  shows "\<exists>vl v vr. (if tcol wr = 1 then rotr (Node (paint 1 wl) (paint_cell 0 w) wr) else Node wl w wr) = Node vl v vr \<and>
    yields (dl_near (tptr T) (At (addr w)) t) (\<lambda>(q, t').
      same_outside (set (taddrs (plug (LeftOf p (Node wl w wr) # fs) T))) t t' \<and>
      q = At (addr v) \<and> dstate t' par (LeftOf p (Node vl v vr) # fs) T)"
proof (cases "tcol wr = 1")
  case False
  have "tstate t par (plug (RightOf T p # fs) (Node wl w wr))" "null_black t" using d by (simp_all add: dstate_def)
  from dl_both_rep [OF this] show ?thesis using False d by (simp add: dl_near_def)
next
  case True
  let ?A = "set (taddrs (plug (LeftOf p (Node wl w wr) # fs) T))"
  obtain vl v vr where wl: "wl = Node vl v vr" using n [OF True] by (cases wl) auto
  have tw: "tstate t par (plug (RightOf T p # fs) (Node wl w wr))" and nb: "null_black t"
    using d by (simp_all add: dstate_def)
  note r = dl_both_rep [OF tw nb]
  have "tstate t par (plug (LeftOf w wr # RightOf T p # fs) (Node vl v vr))" using tw wl by simp
  from tstate_paint [OF this, of 1] obtain t2 where 2: "set_color (At (addr v)) 1 t = Some t2"
    "tstate t2 par (plug (RightOf T p # fs) (Node (Node vl (paint_cell 1 v) vr) w wr))" "same_outside ?A t t2"
    by (auto simp: wl)
  from tstate_paint [OF 2(2), of 0] obtain t3 where 3: "set_color (At (addr w)) 0 t2 = Some t3"
    "tstate t3 par (plug (RightOf T p # fs) (Node (Node vl (paint_cell 1 v) vr) (paint_cell 0 w) wr))"
    "same_outside ?A t2 t3" by (auto simp: wl)
  from right_rotate_rep [OF 3(2)] obtain t4 where 4: "rbtree_right_rotate (At (addr w)) t3 = Some t4"
    "tstate t4 par (plug (RightOf T p # fs) (Node vl (paint_cell 1 v) (Node vr (paint_cell 0 w) wr)))"
    "same_outside ?A t3 t4" unfolding yields_def by (auto simp: wl)
  have so: "same_outside ?A t t4" using same_outside_trans [OF same_outside_trans [OF 2(3) 3(3)] 4(3)] .
  have d4: "dstate t4 par (LeftOf p (Node vl (paint_cell 1 v) (Node vr (paint_cell 0 w) wr)) # fs) T"
    by (rule dstate_step [OF d _ so]) (use 4(2) in simp_all)
  have "get_parent t4 (tptr T) = Some (At (addr p))" "get_right t4 (At (addr p)) = Some (At (addr v))"
    using d4 tstate_level [of t4 par "LeftOf p (Node vl (paint_cell 1 v) (Node vr (paint_cell 0 w) wr))" fs T]
    by (simp_all add: dstate_def)
  then have "dl_near (tptr T) (At (addr w)) t = Some (At (addr v), t4)"
    using r True 2(1) 3(1) 4(1) by (simp add: dl_near_def util_rbt_black_def util_rbt_red_def wl)
  then show ?thesis using True d4 so by (simp add: wl)
qed

lemma dl_far_rep:
  assumes d: "dstate t par (LeftOf p (Node vl v vr) # fs) T" and vr: "vr \<noteq> Leaf"
  shows "yields (dl_far (tptr T) (At (addr v)) t) (\<lambda>(q, t').
    same_outside (set (taddrs (plug (LeftOf p (Node vl v vr) # fs) T))) t t' \<and> q = root t' \<and>
    tstate t' par (plug fs (Node (Node T (paint_cell 1 p) vl) (paint_cell (ccol p) v) (paint 1 vr))))"
proof -
  let ?A = "set (taddrs (plug (LeftOf p (Node vl v vr) # fs) T))"
  let ?v = "paint_cell (ccol p) v" and ?p = "paint_cell 1 p"
  obtain rl r rr where vr: "vr = Node rl r rr" using vr by (cases vr) auto
  have t: "tstate t par (plug (RightOf T p # fs) (Node vl v vr))" using d by (simp add: dstate_def)
  from tstate_paint [OF t, of "ccol p"] obtain t3 where 3: "set_color (At (addr v)) (ccol p) t = Some t3"
    "tstate t3 par (plug fs (Node T p (Node vl ?v vr)))" "same_outside ?A t t3" by auto
  have d3: "dstate t3 par (LeftOf p (Node vl ?v vr) # fs) T"
    by (rule dstate_step [OF d _ 3(3)]) (use 3(2) in simp_all)
  from tstate_paint [OF 3(2), of 1] obtain t4 where 4: "set_color (At (addr p)) 1 t3 = Some t4"
    "tstate t4 par (plug (RightOf T ?p # fs) (Node vl ?v vr))" "same_outside ?A t3 t4" by auto
  have d4: "dstate t4 par (LeftOf ?p (Node vl ?v vr) # fs) T"
    by (rule dstate_step [OF d3 _ 4(3)]) (use 4(2) in simp_all)
  have "tstate t4 par (plug (RightOf vl ?v # RightOf T ?p # fs) (Node rl r rr))" using 4(2) vr by simp
  from tstate_paint [OF this, of 1] obtain t5 where 5: "set_color (At (addr r)) 1 t4 = Some t5"
    "tstate t5 par (plug fs (Node T ?p (Node vl ?v (paint 1 vr))))" "same_outside ?A t4 t5" by (auto simp: vr)
  have d5: "dstate t5 par (LeftOf ?p (Node vl ?v (paint 1 vr)) # fs) T"
    by (rule dstate_step [OF d4 _ 5(3)]) (use 5(2) in simp_all)
  from left_rotate_rep [OF 5(2)] obtain t6 where 6: "rbtree_left_rotate (At (addr p)) t5 = Some t6"
    "tstate t6 par (plug fs (Node (Node T ?p vl) ?v (paint 1 vr)))" "same_outside ?A t5 t6"
    unfolding yields_def by (auto simp: vr)
  have so: "same_outside ?A t t6"
    using 3(3) 4(3) 5(3) 6(3) same_outside_trans by blast
  have "get_parent t (tptr T) = Some (At (addr p))" "get_parent t3 (tptr T) = Some (At (addr p))"
    "get_parent t5 (tptr T) = Some (At (addr p))"
    using d d3 d5 by (simp_all add: dstate_def)
  moreover have "get_color t (At (addr p)) = Some (ccol p)"
    using tstate_level [of t par "LeftOf p (Node vl v vr)" fs T] d by (simp add: dstate_def)
  moreover have "get_right t4 (At (addr v)) = Some (tptr vr)" using tstate_deref [OF 4(2)] by simp
  ultimately have "dl_far (tptr T) (At (addr v)) t = Some (root t6, t6)"
    using 3(1) 4(1) 5(1) 6(1) by (simp add: dl_far_def util_rbt_black_def util_rbt_red_def vr)
  then show ?thesis using so 6(2) by simp
qed

text \<open>A round with a black sibling.\<close>

definition up_or_done :: "'a rbtree \<Rightarrow> ptr \<Rightarrow> 'a level \<Rightarrow> 'a level list \<Rightarrow> 'a ctree \<Rightarrow> ptr \<times> 'a rbtree \<Rightarrow> bool" where
  "up_or_done t par f fs T = (\<lambda>(q, t'). same_outside (set (taddrs (plug (f # fs) T))) t t' \<and>
     (case black_sib f T of
        (True, S) \<Rightarrow> q = At (addr (lcell f)) \<and> tstate t' par (plug fs S)
      | (False, S) \<Rightarrow> q = root t' \<and> tstate t' par (plug fs S)))"

lemma tcol_invc: "invc T \<Longrightarrow> tcol T = 0 \<or> tcol T = 1"
  by (cases T) auto

lemma tcol_not_black: "\<lbrakk>invc T; tcol T \<noteq> 1\<rbrakk> \<Longrightarrow> T \<noteq> Leaf"
  by (cases T) auto

lemma near_shape:
  assumes "(if tcol wr = 1 then rotr (Node (paint 1 wl) (paint_cell 0 w) wr) else Node wl w wr) = Node vl v vr"
  shows "taddrs (Node vl v vr) = taddrs (Node wl w wr)"
    "\<lbrakk>tcol wr \<noteq> 1 \<Longrightarrow> wr \<noteq> Leaf; tcol wr = 1 \<Longrightarrow> wl \<noteq> Leaf\<rbrakk> \<Longrightarrow> vr \<noteq> Leaf"
proof -
  have "taddrs (if tcol wr = 1 then rotr (Node (paint 1 wl) (paint_cell 0 w) wr) else Node wl w wr) = taddrs (Node wl w wr)"
    by (cases wl) (simp_all add: rotr_def)
  then show "taddrs (Node vl v vr) = taddrs (Node wl w wr)" by (simp only: assms)
  show "\<lbrakk>tcol wr \<noteq> 1 \<Longrightarrow> wr \<noteq> Leaf; tcol wr = 1 \<Longrightarrow> wl \<noteq> Leaf\<rbrakk> \<Longrightarrow> vr \<noteq> Leaf"
    using assms by (cases wl) (auto split: if_splits)
qed

lemma dl_rest_rep:
  assumes d: "dstate t par (LeftOf p (Node wl w wr) # fs) T" and i: "invc wl" "invc wr"
  shows "yields (dl_rest (tptr T) (At (addr w)) t) (up_or_done t par (LeftOf p (Node wl w wr)) fs T)"
proof -
  let ?A = "set (taddrs (plug (LeftOf p (Node wl w wr) # fs) T))"
  have tw: "tstate t par (plug (RightOf T p # fs) (Node wl w wr))" and nb: "null_black t"
    using d by (simp_all add: dstate_def)
  note r = dl_both_rep [OF tw nb]
  show ?thesis
  proof (cases "tcol wl = 1 \<and> tcol wr = 1")
    case True
    from tstate_paint [OF tw, of 0] obtain t2 where 2: "set_color (At (addr w)) 0 t = Some t2"
      "tstate t2 par (plug fs (Node T p (Node wl (paint_cell 0 w) wr)))" "same_outside ?A t t2" by auto
    have "dstate t2 par (LeftOf p (Node wl (paint_cell 0 w) wr) # fs) T"
      by (rule dstate_step [OF d _ 2(3)]) (use 2(2) in simp_all)
    then have "get_parent t2 (tptr T) = Some (At (addr p))" by (simp add: dstate_def)
    then have "dl_rest (tptr T) (At (addr w)) t = Some (At (addr p), t2)"
      using True r 2(1) by (simp add: dl_rest_def util_rbt_red_def)
    then show ?thesis using True 2(2,3) by (simp add: up_or_done_def)
  next
    case False
    then have "tcol wr = 1 \<Longrightarrow> wl \<noteq> Leaf" using tcol_not_black [OF i(1)] by blast
    from dl_near_rep [OF d this] obtain vl v vr t2 where 2:
      "(if tcol wr = 1 then rotr (Node (paint 1 wl) (paint_cell 0 w) wr) else Node wl w wr) = Node vl v vr"
      "dl_near (tptr T) (At (addr w)) t = Some (At (addr v), t2)" "same_outside ?A t t2"
      "dstate t2 par (LeftOf p (Node vl v vr) # fs) T" unfolding yields_def by auto
    have A: "set (taddrs (plug (LeftOf p (Node vl v vr) # fs) T)) = ?A"
      by (simp only: set_taddrs_plug faddrs_simps sib.simps lcell.simps near_shape(1) [OF 2(1)] set_append list.set)
    have "vr \<noteq> Leaf"
      by (rule near_shape(2) [OF 2(1)]) (use tcol_not_black [OF i(2)] tcol_not_black [OF i(1)] False in blast)+
    from dl_far_rep [OF 2(4) this] obtain t6 where 6: "dl_far (tptr T) (At (addr v)) t2 = Some (root t6, t6)"
      "same_outside ?A t2 t6"
      "tstate t6 par (plug fs (Node (Node T (paint_cell 1 p) vl) (paint_cell (ccol p) v) (paint 1 vr)))"
      unfolding A yields_def by auto
    have "dl_rest (tptr T) (At (addr w)) t = Some (root t6, t6)"
      using False r 2(2) 6(1) by (auto simp: dl_rest_def)
    then show ?thesis using False 2(1) 6(2,3) same_outside_trans [OF 2(3) 6(2)] by (auto simp: up_or_done_def)
  qed
qed

lemma delete_fixup_left_rep:
  assumes d: "dstate t par (LeftOf p W # fs) T" and W: "W = Node wl w wr"
    and i: "invc W" and red: "ccol w = 0 \<Longrightarrow> wl = Node wll z wlr"
  shows "yields (delete_fixup_left (tptr T) t) (\<lambda>(q, t'). same_outside (set (taddrs (plug (LeftOf p W # fs) T))) t t' \<and>
    (\<exists>f gs. red_sib (LeftOf p W) = f # gs \<and> (case black_sib f T of
        (True, S) \<Rightarrow> q = At (addr p) \<and> tstate t' par (plug (gs @ fs) S)
      | (False, S) \<Rightarrow> q = root t' \<and> tstate t' par (plug (gs @ fs) S))))"
proof (cases "ccol w = 0")
  case False
  from dl_red_rep [OF d [unfolded W]] False have "dl_red (tptr T) t = Some (At (addr w), t)"
    unfolding yields_def by auto
  moreover from dl_rest_rep [OF d [unfolded W]] i W have
    "yields (dl_rest (tptr T) (At (addr w)) t) (up_or_done t par (LeftOf p W) fs T)" by simp
  ultimately show ?thesis using False
    by (auto simp: delete_fixup_left_halves up_or_done_def W yields_def)
next
  case True
  let ?A = "set (taddrs (plug (LeftOf p W # fs) T))"
  let ?f = "LeftOf (paint_cell 0 p) wl" and ?g = "LeftOf (paint_cell 1 w) wr"
  note wl = red [OF True]
  from dl_red_rep [OF d [unfolded W]] True obtain t1 where 1: "dl_red (tptr T) t = Some (At (addr z), t1)"
    "same_outside ?A t t1" "dstate t1 par (?f # ?g # fs) T" unfolding yields_def by (auto simp: W wl)
  have A: "set (taddrs (plug (?f # ?g # fs) T)) = ?A" by (auto simp: W)
  have "invc wll" "invc wlr" using i by (simp_all add: W wl)
  from dl_rest_rep [OF 1(3) [unfolded wl] this] obtain q t6 where
    "dl_rest (tptr T) (At (addr z)) t1 = Some (q, t6)" "up_or_done t1 par ?f (?g # fs) T (q, t6)"
    unfolding yields_def wl by auto
  moreover from this(2) have "same_outside ?A t t6"
    using same_outside_trans [OF 1(2), of t6] unfolding up_or_done_def A by simp
  ultimately show ?thesis
    using True 1(1)
    by (auto simp: delete_fixup_left_halves up_or_done_def W simp del: set_taddrs_plug split: prod.splits bool.splits)
qed

text \<open>The mirror image: the node is a right child.\<close>

definition dr_red :: "ptr \<Rightarrow> 'a rbtree \<Rightarrow> (ptr \<times> 'a rbtree) option" where
  "dr_red node t = do {
     np \<leftarrow> get_parent t node;
     w0 \<leftarrow> get_left t np;
     wred \<leftarrow> util_rbt_isred t w0;
     if wred then do {
       t1 \<leftarrow> util_rbt_black w0 t;
       p1 \<leftarrow> get_parent t1 node;
       t2 \<leftarrow> util_rbt_red p1 t1;
       p2 \<leftarrow> get_parent t2 node;
       t3 \<leftarrow> rbtree_right_rotate p2 t2;
       p3 \<leftarrow> get_parent t3 node;
       w1 \<leftarrow> get_left t3 p3;
       Some (w1, t3)
     } else Some (w0, t)
   }"

definition dr_near :: "ptr \<Rightarrow> ptr \<Rightarrow> 'a rbtree \<Rightarrow> (ptr \<times> 'a rbtree) option" where
  "dr_near node w t1 = do {
     wl \<leftarrow> get_left t1 w;
     rb \<leftarrow> util_rbt_isblack t1 wl;
     if rb then do {
       wr' \<leftarrow> get_right t1 w;
       t2 \<leftarrow> util_rbt_black wr' t1;
       t3 \<leftarrow> util_rbt_red w t2;
       t4 \<leftarrow> rbtree_left_rotate w t3;
       p \<leftarrow> get_parent t4 node;
       w1 \<leftarrow> get_left t4 p;
       Some (w1, t4)
     } else Some (w, t1)
   }"

definition dr_far :: "ptr \<Rightarrow> ptr \<Rightarrow> 'a rbtree \<Rightarrow> (ptr \<times> 'a rbtree) option" where
  "dr_far node w' t2 = do {
     p \<leftarrow> get_parent t2 node;
     pc \<leftarrow> get_color t2 p;
     t3 \<leftarrow> set_color w' pc t2;
     p' \<leftarrow> get_parent t3 node;
     t4 \<leftarrow> util_rbt_black p' t3;
     wl' \<leftarrow> get_left t4 w';
     t5 \<leftarrow> util_rbt_black wl' t4;
     p'' \<leftarrow> get_parent t5 node;
     t6 \<leftarrow> rbtree_right_rotate p'' t5;
     Some (root t6, t6)
   }"

definition dr_rest :: "ptr \<Rightarrow> ptr \<Rightarrow> 'a rbtree \<Rightarrow> (ptr \<times> 'a rbtree) option" where
  "dr_rest node w t1 = do {
     both \<leftarrow> dl_both w t1;
     if both then do { t2 \<leftarrow> util_rbt_red w t1; p \<leftarrow> get_parent t2 node; Some (p, t2) }
     else do { (w', t2) \<leftarrow> dr_near node w t1; dr_far node w' t2 }
   }"

lemma delete_fixup_right_halves:
  "delete_fixup_right node t = do { (w, t1) \<leftarrow> dr_red node t; dr_rest node w t1 }"
  unfolding delete_fixup_right_def dr_red_def dr_rest_def dr_near_def dr_far_def dl_both_def
  by (simp add: case_prod_unfold cong: if_cong)

lemma dr_red_rep:
  assumes d: "dstate t par (RightOf (Node wl w wr) p # fs) T"
  shows "yields (dr_red (tptr T) t) (\<lambda>(q, t'). same_outside (set (taddrs (plug (RightOf (Node wl w wr) p # fs) T))) t t' \<and>
    (if ccol w = 0 then q = tptr wr \<and> dstate t' par (RightOf wr (paint_cell 0 p) # RightOf wl (paint_cell 1 w) # fs) T
     else q = At (addr w) \<and> t' = t))"
proof -
  let ?A = "set (taddrs (plug (RightOf (Node wl w wr) p # fs) T))"
  have t: "tstate t par (plug (RightOf (Node wl w wr) p # fs) T)" and nb: "null_black t"
    using d by (simp_all add: dstate_def)
  have np: "get_parent t' (tptr T) = Some (At (addr p))"
    if "dstate t' par (RightOf W (paint_cell c p) # gs) T" for t' c W gs using that by (simp add: dstate_def)
  have np0: "get_parent t (tptr T) = Some (At (addr p))" using d by (simp add: dstate_def)
  have w0: "get_left t (At (addr p)) = Some (At (addr w))" using tstate_level [OF t] by simp
  have tw: "tstate t par (plug (LeftOf p T # fs) (Node wl w wr))" using t by simp
  from isred_sub [OF tw nb] have red: "util_rbt_isred t (At (addr w)) = Some (ccol w = 0)" by simp
  show ?thesis
  proof (cases "ccol w = 0")
    case False
    then show ?thesis using np0 w0 red by (simp add: dr_red_def)
  next
    case True
    from tstate_paint [OF tw, of 1] obtain t1 where 1: "set_color (At (addr w)) 1 t = Some t1"
      "tstate t1 par (plug fs (Node (Node wl (paint_cell 1 w) wr) p T))" "same_outside ?A t t1" by auto
    have d1: "dstate t1 par (RightOf (Node wl (paint_cell 1 w) wr) p # fs) T"
      by (rule dstate_step [OF d _ 1(3)]) (use 1(2) in simp_all)
    from tstate_paint [OF 1(2), of 0] obtain t2 where 2: "set_color (At (addr p)) 0 t1 = Some t2"
      "tstate t2 par (plug fs (Node (Node wl (paint_cell 1 w) wr) (paint_cell 0 p) T))" "same_outside ?A t1 t2"
      by auto
    have d2: "dstate t2 par (RightOf (Node wl (paint_cell 1 w) wr) (paint_cell 0 p) # fs) T"
      by (rule dstate_step [OF d1 _ 2(3)]) (use 2(2) in simp_all)
    from right_rotate_rep [OF 2(2)] obtain t3 where 3: "rbtree_right_rotate (At (addr p)) t2 = Some t3"
      "tstate t3 par (plug fs (Node wl (paint_cell 1 w) (Node wr (paint_cell 0 p) T)))" "same_outside ?A t2 t3"
      unfolding yields_def by auto
    have d3: "dstate t3 par (RightOf wr (paint_cell 0 p) # RightOf wl (paint_cell 1 w) # fs) T"
      by (rule dstate_step [OF d2 _ 3(3)]) (use 3(2) in simp_all)
    have "get_left t3 (At (addr p)) = Some (tptr wr)"
      using tstate_level [of t3 par "RightOf wr (paint_cell 0 p)" "RightOf wl (paint_cell 1 w) # fs" T] d3 by (simp add: dstate_def)
    moreover have "get_parent t1 (tptr T) = Some (At (addr p))" "get_parent t2 (tptr T) = Some (At (addr p))"
      "get_parent t3 (tptr T) = Some (At (addr p))" using d1 d2 d3 by (simp_all add: dstate_def)
    ultimately have "dr_red (tptr T) t = Some (tptr wr, t3)"
      using np0 w0 red True 1(1) 2(1) 3(1)
      by (simp add: dr_red_def util_rbt_black_def util_rbt_red_def)
    then show ?thesis using True d3 same_outside_trans [OF same_outside_trans [OF 1(3) 2(3)] 3(3)] by simp
  qed
qed

lemma dr_near_rep:
  assumes d: "dstate t par (RightOf (Node wl w wr) p # fs) T" and n: "tcol wl = 1 \<Longrightarrow> wr \<noteq> Leaf"
  shows "\<exists>vr v vl. (if tcol wl = 1 then rotl (Node wl (paint_cell 0 w) (paint 1 wr)) else Node wl w wr) = Node vl v vr \<and>
    yields (dr_near (tptr T) (At (addr w)) t) (\<lambda>(q, t').
      same_outside (set (taddrs (plug (RightOf (Node wl w wr) p # fs) T))) t t' \<and>
      q = At (addr v) \<and> dstate t' par (RightOf (Node vl v vr) p # fs) T)"
proof (cases "tcol wl = 1")
  case False
  have "tstate t par (plug (LeftOf p T # fs) (Node wl w wr))" "null_black t" using d by (simp_all add: dstate_def)
  from dl_both_rep [OF this] show ?thesis using False d by (simp add: dr_near_def)
next
  case True
  let ?A = "set (taddrs (plug (RightOf (Node wl w wr) p # fs) T))"
  obtain vr v vl where wr: "wr = Node vl v vr" using n [OF True] by (cases wr) auto
  have tw: "tstate t par (plug (LeftOf p T # fs) (Node wl w wr))" and nb: "null_black t"
    using d by (simp_all add: dstate_def)
  note r = dl_both_rep [OF tw nb]
  have "tstate t par (plug (RightOf wl w # LeftOf p T # fs) (Node vl v vr))" using tw wr by simp
  from tstate_paint [OF this, of 1] obtain t2 where 2: "set_color (At (addr v)) 1 t = Some t2"
    "tstate t2 par (plug (LeftOf p T # fs) (Node wl w (Node vl (paint_cell 1 v) vr)))" "same_outside ?A t t2"
    by (auto simp: wr)
  from tstate_paint [OF 2(2), of 0] obtain t3 where 3: "set_color (At (addr w)) 0 t2 = Some t3"
    "tstate t3 par (plug (LeftOf p T # fs) (Node wl (paint_cell 0 w) (Node vl (paint_cell 1 v) vr)))"
    "same_outside ?A t2 t3" by (auto simp: wr)
  from left_rotate_rep [OF 3(2)] obtain t4 where 4: "rbtree_left_rotate (At (addr w)) t3 = Some t4"
    "tstate t4 par (plug (LeftOf p T # fs) (Node (Node wl (paint_cell 0 w) vl) (paint_cell 1 v) vr))"
    "same_outside ?A t3 t4" unfolding yields_def by (auto simp: wr)
  have so: "same_outside ?A t t4" using same_outside_trans [OF same_outside_trans [OF 2(3) 3(3)] 4(3)] .
  have d4: "dstate t4 par (RightOf (Node (Node wl (paint_cell 0 w) vl) (paint_cell 1 v) vr) p # fs) T"
    by (rule dstate_step [OF d _ so]) (use 4(2) in simp_all)
  have "get_parent t4 (tptr T) = Some (At (addr p))" "get_left t4 (At (addr p)) = Some (At (addr v))"
    using d4 tstate_level [of t4 par "RightOf (Node (Node wl (paint_cell 0 w) vl) (paint_cell 1 v) vr) p" fs T]
    by (simp_all add: dstate_def)
  then have "dr_near (tptr T) (At (addr w)) t = Some (At (addr v), t4)"
    using r True 2(1) 3(1) 4(1) by (simp add: dr_near_def util_rbt_black_def util_rbt_red_def wr)
  then show ?thesis using True d4 so by (simp add: wr)
qed

lemma dr_far_rep:
  assumes d: "dstate t par (RightOf (Node vl v vr) p # fs) T" and vl: "vl \<noteq> Leaf"
  shows "yields (dr_far (tptr T) (At (addr v)) t) (\<lambda>(q, t').
    same_outside (set (taddrs (plug (RightOf (Node vl v vr) p # fs) T))) t t' \<and> q = root t' \<and>
    tstate t' par (plug fs (Node (paint 1 vl) (paint_cell (ccol p) v) (Node vr (paint_cell 1 p) T))))"
proof -
  let ?A = "set (taddrs (plug (RightOf (Node vl v vr) p # fs) T))"
  let ?v = "paint_cell (ccol p) v" and ?p = "paint_cell 1 p"
  obtain rr r rl where vl: "vl = Node rl r rr" using vl by (cases vl) auto
  have t: "tstate t par (plug (LeftOf p T # fs) (Node vl v vr))" using d by (simp add: dstate_def)
  from tstate_paint [OF t, of "ccol p"] obtain t3 where 3: "set_color (At (addr v)) (ccol p) t = Some t3"
    "tstate t3 par (plug fs (Node (Node vl ?v vr) p T))" "same_outside ?A t t3" by auto
  have d3: "dstate t3 par (RightOf (Node vl ?v vr) p # fs) T"
    by (rule dstate_step [OF d _ 3(3)]) (use 3(2) in simp_all)
  from tstate_paint [OF 3(2), of 1] obtain t4 where 4: "set_color (At (addr p)) 1 t3 = Some t4"
    "tstate t4 par (plug (LeftOf ?p T # fs) (Node vl ?v vr))" "same_outside ?A t3 t4" by auto
  have d4: "dstate t4 par (RightOf (Node vl ?v vr) ?p # fs) T"
    by (rule dstate_step [OF d3 _ 4(3)]) (use 4(2) in simp_all)
  have "tstate t4 par (plug (LeftOf ?v vr # LeftOf ?p T # fs) (Node rl r rr))" using 4(2) vl by simp
  from tstate_paint [OF this, of 1] obtain t5 where 5: "set_color (At (addr r)) 1 t4 = Some t5"
    "tstate t5 par (plug fs (Node (Node (paint 1 vl) ?v vr) ?p T))" "same_outside ?A t4 t5" by (auto simp: vl)
  have d5: "dstate t5 par (RightOf (Node (paint 1 vl) ?v vr) ?p # fs) T"
    by (rule dstate_step [OF d4 _ 5(3)]) (use 5(2) in simp_all)
  from right_rotate_rep [OF 5(2)] obtain t6 where 6: "rbtree_right_rotate (At (addr p)) t5 = Some t6"
    "tstate t6 par (plug fs (Node (paint 1 vl) ?v (Node vr ?p T)))" "same_outside ?A t5 t6"
    unfolding yields_def by (auto simp: vl)
  have so: "same_outside ?A t t6"
    using 3(3) 4(3) 5(3) 6(3) same_outside_trans by blast
  have "get_parent t (tptr T) = Some (At (addr p))" "get_parent t3 (tptr T) = Some (At (addr p))"
    "get_parent t5 (tptr T) = Some (At (addr p))"
    using d d3 d5 by (simp_all add: dstate_def)
  moreover have "get_color t (At (addr p)) = Some (ccol p)"
    using tstate_level [of t par "RightOf (Node vl v vr) p" fs T] d by (simp add: dstate_def)
  moreover have "get_left t4 (At (addr v)) = Some (tptr vl)" using tstate_deref [OF 4(2)] by simp
  ultimately have "dr_far (tptr T) (At (addr v)) t = Some (root t6, t6)"
    using 3(1) 4(1) 5(1) 6(1) by (simp add: dr_far_def util_rbt_black_def util_rbt_red_def vl)
  then show ?thesis using so 6(2) by simp
qed

lemma near_shape_right:
  assumes "(if tcol wl = 1 then rotl (Node wl (paint_cell 0 w) (paint 1 wr)) else Node wl w wr) = Node vl v vr"
  shows "taddrs (Node vl v vr) = taddrs (Node wl w wr)"
    "\<lbrakk>tcol wl \<noteq> 1 \<Longrightarrow> wl \<noteq> Leaf; tcol wl = 1 \<Longrightarrow> wr \<noteq> Leaf\<rbrakk> \<Longrightarrow> vl \<noteq> Leaf"
proof -
  have "taddrs (if tcol wl = 1 then rotl (Node wl (paint_cell 0 w) (paint 1 wr)) else Node wl w wr) = taddrs (Node wl w wr)"
    by (cases wr) (simp_all add: rotl_def)
  then show "taddrs (Node vl v vr) = taddrs (Node wl w wr)" by (simp only: assms)
  show "\<lbrakk>tcol wl \<noteq> 1 \<Longrightarrow> wl \<noteq> Leaf; tcol wl = 1 \<Longrightarrow> wr \<noteq> Leaf\<rbrakk> \<Longrightarrow> vl \<noteq> Leaf"
    using assms by (cases wr) (auto split: if_splits)
qed

lemma dr_rest_rep:
  assumes d: "dstate t par (RightOf (Node wl w wr) p # fs) T" and i: "invc wr" "invc wl"
  shows "yields (dr_rest (tptr T) (At (addr w)) t) (up_or_done t par (RightOf (Node wl w wr) p) fs T)"
proof -
  let ?A = "set (taddrs (plug (RightOf (Node wl w wr) p # fs) T))"
  have tw: "tstate t par (plug (LeftOf p T # fs) (Node wl w wr))" and nb: "null_black t"
    using d by (simp_all add: dstate_def)
  note r = dl_both_rep [OF tw nb]
  show ?thesis
  proof (cases "tcol wr = 1 \<and> tcol wl = 1")
    case True
    from tstate_paint [OF tw, of 0] obtain t2 where 2: "set_color (At (addr w)) 0 t = Some t2"
      "tstate t2 par (plug fs (Node (Node wl (paint_cell 0 w) wr) p T))" "same_outside ?A t t2" by auto
    have "dstate t2 par (RightOf (Node wl (paint_cell 0 w) wr) p # fs) T"
      by (rule dstate_step [OF d _ 2(3)]) (use 2(2) in simp_all)
    then have "get_parent t2 (tptr T) = Some (At (addr p))" by (simp add: dstate_def)
    then have "dr_rest (tptr T) (At (addr w)) t = Some (At (addr p), t2)"
      using True r 2(1) by (simp add: dr_rest_def util_rbt_red_def)
    then show ?thesis using True 2(2,3) by (simp add: up_or_done_def)
  next
    case False
    then have "tcol wl = 1 \<Longrightarrow> wr \<noteq> Leaf" using tcol_not_black [OF i(1)] by blast
    from dr_near_rep [OF d this] obtain vr v vl t2 where 2:
      "(if tcol wl = 1 then rotl (Node wl (paint_cell 0 w) (paint 1 wr)) else Node wl w wr) = Node vl v vr"
      "dr_near (tptr T) (At (addr w)) t = Some (At (addr v), t2)" "same_outside ?A t t2"
      "dstate t2 par (RightOf (Node vl v vr) p # fs) T" unfolding yields_def by auto
    have A: "set (taddrs (plug (RightOf (Node vl v vr) p # fs) T)) = ?A"
      by (simp only: set_taddrs_plug faddrs_simps sib.simps lcell.simps near_shape_right(1) [OF 2(1)] set_append list.set)
    have "vl \<noteq> Leaf"
      by (rule near_shape_right(2) [OF 2(1)]) (use tcol_not_black [OF i(2)] tcol_not_black [OF i(1)] False in blast)+
    from dr_far_rep [OF 2(4) this] obtain t6 where 6: "dr_far (tptr T) (At (addr v)) t2 = Some (root t6, t6)"
      "same_outside ?A t2 t6"
      "tstate t6 par (plug fs (Node (paint 1 vl) (paint_cell (ccol p) v) (Node vr (paint_cell 1 p) T)))"
      unfolding A yields_def by auto
    have "dr_rest (tptr T) (At (addr w)) t = Some (root t6, t6)"
      using False r 2(2) 6(1) by (auto simp: dr_rest_def)
    then show ?thesis using False 2(1) 6(2,3) same_outside_trans [OF 2(3) 6(2)] by (auto simp: up_or_done_def)
  qed
qed

lemma delete_fixup_right_rep:
  assumes d: "dstate t par (RightOf W p # fs) T" and W: "W = Node wl w wr"
    and i: "invc W" and red: "ccol w = 0 \<Longrightarrow> wr = Node wrl z wrr"
  shows "yields (delete_fixup_right (tptr T) t) (\<lambda>(q, t'). same_outside (set (taddrs (plug (RightOf W p # fs) T))) t t' \<and>
    (\<exists>f gs. red_sib (RightOf W p) = f # gs \<and> (case black_sib f T of
        (True, S) \<Rightarrow> q = At (addr p) \<and> tstate t' par (plug (gs @ fs) S)
      | (False, S) \<Rightarrow> q = root t' \<and> tstate t' par (plug (gs @ fs) S))))"
proof (cases "ccol w = 0")
  case False
  from dr_red_rep [OF d [unfolded W]] False have "dr_red (tptr T) t = Some (At (addr w), t)"
    unfolding yields_def by auto
  moreover from dr_rest_rep [OF d [unfolded W]] i W have
    "yields (dr_rest (tptr T) (At (addr w)) t) (up_or_done t par (RightOf W p) fs T)" by simp
  ultimately show ?thesis using False
    by (auto simp: delete_fixup_right_halves up_or_done_def W yields_def)
next
  case True
  let ?A = "set (taddrs (plug (RightOf W p # fs) T))"
  let ?f = "RightOf wr (paint_cell 0 p)" and ?g = "RightOf wl (paint_cell 1 w)"
  note wr = red [OF True]
  from dr_red_rep [OF d [unfolded W]] True obtain t1 where 1: "dr_red (tptr T) t = Some (At (addr z), t1)"
    "same_outside ?A t t1" "dstate t1 par (?f # ?g # fs) T" unfolding yields_def by (auto simp: W wr)
  have A: "set (taddrs (plug (?f # ?g # fs) T)) = ?A" by (auto simp: W)
  have "invc wrr" "invc wrl" using i by (simp_all add: W wr)
  from dr_rest_rep [OF 1(3) [unfolded wr] this] obtain q t6 where
    "dr_rest (tptr T) (At (addr z)) t1 = Some (q, t6)" "up_or_done t1 par ?f (?g # fs) T (q, t6)"
    unfolding yields_def wr by auto
  moreover from this(2) have "same_outside ?A t t6"
    using same_outside_trans [OF 1(2), of t6] unfolding up_or_done_def A by simp
  ultimately show ?thesis
    using True 1(1)
    by (auto simp: delete_fixup_right_halves up_or_done_def W simp del: set_taddrs_plug split: prod.splits bool.splits)
qed

section \<open>Balance through a round\<close>

text \<open>The focus lacks one black node against its context.\<close>

definition lacking :: "'a level list \<Rightarrow> 'a ctree \<Rightarrow> bool" where
  "lacking fs T \<longleftrightarrow> fits fs (Suc (bheight T)) \<and> invc (paint 1 T) \<and> invh T \<and> (tcol T = 0 \<or> tcol T = 1)"

lemma lacking_sib: "lacking (f # fs) T \<Longrightarrow> \<exists>wl w wr. sib f = Node wl w wr"
  by (cases "sib f") (auto simp: lacking_def)

lemma lacking_black: "\<lbrakk>lacking fs T; tcol T = 1\<rbrakk> \<Longrightarrow> invc T"
  by (cases T) (auto simp: lacking_def)

lemma black_sib_up:
  assumes "lacking (f # fs) T" "tcol T = 1" "tcol (sib f) = 1" "black_sib f T = (True, S)"
  shows "lacking fs S" "tcol S = ccol (lcell f)" "tptr S = At (addr (lcell f))"
    "content S = content (plug [f] T)"
proof -
  obtain wl w wr where W: "sib f = Node wl w wr" using lacking_sib [OF assms(1)] by blast
  have T: "invc T" using lacking_black [OF assms(1,2)] .
  show "lacking fs S" "tcol S = ccol (lcell f)" "tptr S = At (addr (lcell f))" "content S = content (plug [f] T)"
    using assms W T by (cases f; auto simp: lacking_def split: if_splits)+
qed

lemma black_sib_done:
  assumes "lacking (f # fs) T" "tcol T = 1" "tcol (sib f) = 1" "black_sib f T = (False, S)"
  shows "fits fs (bheight S)" "invc S" "invh S" "tcol S = ccol (lcell f)"
    "content S = content (plug [f] T)" "S \<noteq> Leaf"
proof -
  obtain wl w wr where W: "sib f = Node wl w wr" using lacking_sib [OF assms(1)] by blast
  have T: "invc T" "invh T" using lacking_black [OF assms(1,2)] assms(1) by (simp_all add: lacking_def)
  have "fits fs (bheight S) \<and> invc S \<and> invh S \<and> tcol S = ccol (lcell f) \<and>
    content S = content (plug [f] T) \<and> S \<noteq> Leaf"
  proof (cases f)
    case (LeftOf p u)
    show ?thesis
    proof (cases "tcol wr = 1")
      case True
      then obtain vl v vr where "wl = Node vl v vr" "ccol v = 0"
        using assms W LeftOf by (cases wl) (auto simp: lacking_def)
      then show ?thesis using assms W T LeftOf True by (auto simp: lacking_def)
    next
      case False
      then obtain vl v vr where "wr = Node vl v vr" "ccol v = 0"
        using assms W LeftOf by (cases wr) (auto simp: lacking_def)
      then show ?thesis using assms W T LeftOf False by (auto simp: lacking_def)
    qed
  next
    case (RightOf u p)
    show ?thesis
    proof (cases "tcol wl = 1")
      case True
      then obtain vl v vr where "wr = Node vl v vr" "ccol v = 0"
        using assms W RightOf by (cases wr) (auto simp: lacking_def)
      then show ?thesis using assms W T RightOf True by (auto simp: lacking_def)
    next
      case False
      then obtain vl v vr where "wl = Node vl v vr" "ccol v = 0"
        using assms W RightOf by (cases wl) (auto simp: lacking_def)
      then show ?thesis using assms W T RightOf False by (auto simp: lacking_def)
    qed
  qed
  then show "fits fs (bheight S)" "invc S" "invh S" "tcol S = ccol (lcell f)"
    "content S = content (plug [f] T)" "S \<noteq> Leaf" by simp_all
qed

lemma red_sib_black: "\<lbrakk>sib f = Node wl w wr; ccol w \<noteq> 0\<rbrakk> \<Longrightarrow> red_sib f = [f]"
  by (cases f) auto

lemma red_sib_red:
  assumes "lacking (f # fs) T" "tcol T = 1" "tcol (sib f) = 0"
  shows "\<exists>f' g. red_sib f = [f', g] \<and> lacking (f' # g # fs) T \<and> tcol (sib f') = 1 \<and> ccol (lcell f') = 0 \<and>
    ccol (lcell g) = 1 \<and> addr (lcell f') = addr (lcell f) \<and>
    (\<forall>S. content S = content (plug [f'] T) \<longrightarrow> content (plug [g] S) = content (plug [f] T))"
proof -
  obtain wl w wr where W: "sib f = Node wl w wr" using lacking_sib [OF assms(1)] by blast
  show ?thesis
  proof (cases f)
    case (LeftOf p u)
    then have "tcol wl = 1" using assms W tcol_invc [of wl] by (auto simp: lacking_def)
    then show ?thesis using assms W LeftOf by (auto simp: lacking_def)
  next
    case (RightOf u p)
    then have "tcol wr = 1" using assms W tcol_invc [of wr] by (auto simp: lacking_def)
    then show ?thesis using assms W RightOf by (auto simp: lacking_def)
  qed
qed

section \<open>The loop\<close>

text \<open>Either side, with the functional round.\<close>

lemma delete_round_rep:
  assumes d: "dstate t par (f # fs) T" and l: "lacking (f # fs) T" and b: "tcol T = 1"
  shows "yields (do { p \<leftarrow> get_parent t (tptr T); pl \<leftarrow> get_left t p;
      if tptr T = pl then delete_fixup_left (tptr T) t else delete_fixup_right (tptr T) t })
    (\<lambda>(q, t'). same_outside (set (taddrs (plug (f # fs) T))) t t' \<and>
      (\<exists>f' gs. red_sib f = f' # gs \<and> (case black_sib f' T of
          (True, S) \<Rightarrow> q = At (addr (lcell f)) \<and> tstate t' par (plug (gs @ fs) S)
        | (False, S) \<Rightarrow> q = root t' \<and> tstate t' par (plug (gs @ fs) S))))"
proof -
  obtain wl w wr where W: "sib f = Node wl w wr" using lacking_sib [OF l] by blast
  have i: "invc (sib f)" "bheight (sib f) = Suc (bheight T)" "bheight wl = bheight wr"
    using l W by (auto simp: lacking_def)
  have t: "tstate t par (plug (f # fs) T)" using d by (simp add: dstate_def)
  have par: "get_parent t (tptr T) = Some (At (addr (lcell f)))" using d by (simp add: dstate_def)
  show ?thesis
  proof (cases f)
    case (LeftOf p u)
    then have u: "u = Node wl w wr" using W by simp
    have gl: "get_left t (At (addr p)) = Some (tptr T)"
      using tstate_level [OF t] by (simp add: LeftOf)
    have "\<exists>wll z wlr. wl = Node wll z wlr" if "ccol w = 0"
      using that i W by (cases wl) auto
    then obtain wll z wlr where z: "ccol w = 0 \<Longrightarrow> wl = Node wll z wlr" by blast
    from delete_fixup_left_rep [OF d [unfolded LeftOf] u _ z] i(1)
    show ?thesis unfolding LeftOf lcell.simps using par [unfolded LeftOf] gl by simp
  next
    case (RightOf u p)
    then have u: "u = Node wl w wr" using W by simp
    have gl: "get_left t (At (addr p)) = Some (tptr u)"
      using tstate_level [OF t] by (simp add: RightOf)
    have "distinct (taddrs (plug (f # fs) T))" using t by (simp add: tstate_def)
    then have "addr w \<notin> set (taddrs T)" by (auto simp: distinct_plug RightOf u)
    then have ne: "tptr T \<noteq> tptr u" by (cases T) (auto simp: u)
    have "\<exists>wrl z wrr. wr = Node wrl z wrr" if "ccol w = 0"
      using that i W by (cases wr) auto
    then obtain wrl z wrr where z: "ccol w = 0 \<Longrightarrow> wr = Node wrl z wrr" by blast
    from delete_fixup_right_rep [OF d [unfolded RightOf] u _ z] i(1)
    show ?thesis unfolding RightOf lcell.simps using par [unfolded RightOf] gl ne by simp
  qed
qed

lemma root_not_tptr:
  assumes "tstate t par (plug (f # fs) T)"
  shows "tptr T \<noteq> root t"
proof (cases T)
  case Leaf
  have "root t = At (addr (lcell (last (f # fs))))" using assms by (simp only: tstate_def tptr_plug)
  then show ?thesis using Leaf by simp
next
  case (Node l x r)
  then show ?thesis using root_not_focus [OF assms, of "addr x"] by auto
qed

lemma delete_loop_stop:
  assumes "q = root t \<or> util_rbt_isblack t q = Some False"
  shows "delete_fixup_loop q t = Some (q, t)"
  using assms by (subst delete_fixup_loop.simps) auto

text \<open>What the loop leaves: only the colour of the node it returns is still to be set.\<close>

definition del_end :: "ptr \<Rightarrow> 'a ctree \<Rightarrow> ptr \<times> 'a rbtree \<Rightarrow> bool" where
  "del_end par R = (\<lambda>(q, t'). \<exists>gs S. q = tptr S \<and> tstate t' par (plug gs S) \<and> plug gs (paint 1 S) = R)"

lemma taddrs_black_sib:
  "content S = content (plug [f] T) \<Longrightarrow> set (taddrs (plug fs S)) = set (taddrs (plug (f # fs) T))"
proof -
  assume "content S = content (plug [f] T)"
  then have "taddrs S = taddrs (plug [f] T)" by (simp only: taddrs_content)
  then show ?thesis by (cases f) auto
qed

lemma del_end_root: "\<lbrakk>q = root t'; tstate t' par S\<rbrakk> \<Longrightarrow> del_end par (paint 1 S) (q, t')"
proof -
  assume q: "q = root t'" and t: "tstate t' par S"
  then have "q = tptr S" by (simp add: tstate_def)
  moreover have "plug [] S = S" "plug [] (paint 1 S) = paint 1 S" by simp_all
  ultimately show ?thesis using t unfolding del_end_def prod.case by metis
qed

lemma delete_fixup_loop_rep:
  assumes "dstate t par fs T" "lacking fs T"
  shows "yields (delete_fixup_loop (tptr T) t) (\<lambda>(q, t').
    del_end par (del_fix fs T) (q, t') \<and> same_outside (set (taddrs (plug fs T))) t t')"
  using assms
proof (induction fs arbitrary: T t)
  case Nil
  then have "tptr T = root t" by (simp add: dstate_def tstate_def)
  then show ?case using Nil del_end_root [of "tptr T" t par T] delete_loop_stop [of "tptr T" t]
    by (simp add: dstate_def)
next
  case (Cons f fs)
  let ?A = "set (taddrs (plug (f # fs) T))"
  have t: "tstate t par (plug (f # fs) T)" and nb: "null_black t" using Cons.prems by (simp_all add: dstate_def)
  note ib = isblack_sub [OF t nb]
  show ?case
  proof (cases "tcol T = 1")
    case False
    have "del_end par (plug (f # fs) (paint 1 T)) (tptr T, t)"
      unfolding del_end_def using t by blast
    then show ?thesis using delete_loop_stop [of "tptr T" t] ib False by simp
  next
    case b: True
    from delete_round_rep [OF Cons.prems b] obtain q t1 f' gs where
      r: "do { p \<leftarrow> get_parent t (tptr T); pl \<leftarrow> get_left t p;
        if tptr T = pl then delete_fixup_left (tptr T) t else delete_fixup_right (tptr T) t } = Some (q, t1)"
      and so: "same_outside ?A t t1" and rs: "red_sib f = f' # gs"
      and o: "case black_sib f' T of
          (True, S) \<Rightarrow> q = At (addr (lcell f)) \<and> tstate t1 par (plug (gs @ fs) S)
        | (False, S) \<Rightarrow> q = root t1 \<and> tstate t1 par (plug (gs @ fs) S)"
      unfolding yields_def split_paired_Ex prod.case by (elim exE conjE) (rule that, assumption+)
    have nb1: "null_black t1" using null_black_same [OF so nb] .
    have step: "delete_fixup_loop (tptr T) t = delete_fixup_loop q t1"
    proof -
      obtain p pl where "get_parent t (tptr T) = Some p" "get_left t p = Some pl"
        "(if tptr T = pl then delete_fixup_left (tptr T) t else delete_fixup_right (tptr T) t) = Some (q, t1)"
        using r by (auto simp: bind_eq_Some_conv)
      then show ?thesis using root_not_tptr [OF t] ib b by (subst delete_fixup_loop.simps) simp
    qed
    obtain up S where S: "black_sib f' T = (up, S)" by (cases "black_sib f' T")
    show ?thesis
    proof (cases "tcol (sib f) = 0")
      case False
      obtain wl w wr where W: "sib f = Node wl w wr" using lacking_sib [OF Cons.prems(2)] by blast
      then have f': "f' = f" "gs = []" using red_sib_black [OF W] rs False by auto
      have sb: "tcol (sib f) = 1" using False Cons.prems(2) W by (auto simp: lacking_def)
      show ?thesis
      proof (cases up)
        case True
        note u = black_sib_up [OF Cons.prems(2) b sb, of S]
        have u1: "lacking fs S" "tptr S = At (addr (lcell f))" "content S = content (plug [f] T)"
          using u S True f' by simp_all
        obtain sl y sr where Sn: "S = Node sl y sr" using u1(2) by (cases S) auto
        have "tstate t1 par (plug fs S)" "q = tptr S" using o S True f' u1(2) by simp_all
        then have "dstate t1 par fs S" using dstate_Node [of t1 par fs sl y sr] nb1 by (simp add: Sn)
        from Cons.IH [OF this u1(1)] show ?thesis
          using \<open>q = tptr S\<close> step so same_outside_trans [OF so] b rs f' S True taddrs_black_sib [OF u1(3), of fs]
          by (auto simp: yields_def simp del: set_taddrs_plug)
      next
        case False
        then have "del_end par (paint 1 (plug fs S)) (q, t1)" "q = root t1"
          using o S f' by (auto intro!: del_end_root)
        then show ?thesis using step delete_loop_stop [of q t1] so b rs f' S False by simp
      qed
    next
      case True
      from red_sib_red [OF Cons.prems(2) b True] rs obtain g where g: "gs = [g]"
        "lacking (f' # g # fs) T" "tcol (sib f') = 1" "ccol (lcell f') = 0" "addr (lcell f') = addr (lcell f)"
        by auto
      show ?thesis
      proof (cases up)
        case True
        note u = black_sib_up [OF g(2) b g(3), of S]
        have u1: "tcol S = 0" "tptr S = At (addr (lcell f))" using u S True g(4,5) by simp_all
        have t1: "tstate t1 par (plug (g # fs) S)" "q = tptr S" using o S True g(1) u1(2) by simp_all
        have "delete_fixup_loop q t1 = Some (q, t1)"
          using isblack_sub [OF t1(1) nb1] u1(1) t1(2) by (intro delete_loop_stop) simp
        moreover have "del_end par (plug (g # fs) (paint 1 S)) (q, t1)"
          unfolding del_end_def using t1 by blast
        ultimately show ?thesis using step so b rs g(1) S True by simp
      next
        case False
        then have "del_end par (paint 1 (plug (g # fs) S)) (q, t1)" "q = root t1"
          using o S g(1) by (auto intro!: del_end_root)
        then show ?thesis using step delete_loop_stop [of q t1] so b rs g(1) S False by simp
      qed
    qed
  qed
qed

end
