(* ===== verification/OrderedIndex.thy ===== *)
theory OrderedIndex
  imports RbQuery
begin

text \<open>
  The interface through which the consistent hash uses its tree: an index of entries (address, key,
  data) in key order, with search, cyclic lookup, insertion and deletion. The client lemmas say what
  one insertion or deletion does to the entry that owns a key.
\<close>

section \<open>Owners on the entry list\<close>

definition owner_of :: "int \<Rightarrow> (nat \<times> int \<times> 'a) list \<Rightarrow> 'a option" where
  "owner_of k ys = (case find (\<lambda>y. k \<le> fst (snd y)) ys of
     Some y \<Rightarrow> Some (snd (snd y))
   | None \<Rightarrow> (case ys of [] \<Rightarrow> None | y # _ \<Rightarrow> Some (snd (snd y))))"

definition keys_of :: "(nat \<times> int \<times> 'a) list \<Rightarrow> int list" where
  "keys_of ys = map (fst \<circ> snd) ys"

lemma keys_of_simps [simp]: "keys_of [] = []" "keys_of (y # ys) = fst (snd y) # keys_of ys"
    "keys_of (xs @ ys) = keys_of xs @ keys_of ys"
  by (simp_all add: keys_of_def)

lemma set_keys_of: "set (keys_of ys) = (fst \<circ> snd) ` set ys"
  by (simp add: keys_of_def)

definition insert_entry :: "nat \<Rightarrow> int \<Rightarrow> 'a \<Rightarrow> (nat \<times> int \<times> 'a) list \<Rightarrow> (nat \<times> int \<times> 'a) list" where
  "insert_entry a k d ys = keys_upto k ys @ (a, k, d) # keys_beyond k ys"

lemma find_filter: "find P (filter Q ys) = find (\<lambda>y. Q y \<and> P y) ys"
  by (induction ys) auto

lemma owner_insert_entry:
  assumes s: "sorted (keys_of ys)"
  shows "owner_of k (insert_entry a k' d ys) \<in> {owner_of k ys, Some d}"
proof -
  have split: "ys = keys_upto k' ys @ keys_beyond k' ys"
    using s
  proof (induction ys)
    case (Cons y ys)
    show ?case
    proof (cases "fst (snd y) \<le> k'")
      case True
      then show ?thesis using Cons by simp
    next
      case False
      then have "\<forall>z \<in> set ys. k' < fst (snd z)" using Cons.prems by (force simp: set_keys_of)
      then have "keys_upto k' ys = []" "keys_beyond k' ys = ys"
        by (auto simp: keys_upto_def keys_beyond_def filter_empty_conv filter_id_conv)
      then show ?thesis using False by simp
    qed
  qed simp
  let ?U = "keys_upto k' ys" and ?V = "keys_beyond k' ys"
  have U: "owner_of k ys = owner_of k (?U @ ?V)" by (subst split) (rule refl)
  show ?thesis
  proof (cases "find (\<lambda>y. k \<le> fst (snd y)) ?U")
    case (Some y)
    then show ?thesis unfolding U by (simp add: owner_of_def insert_entry_def find_append)
  next
    case None
    show ?thesis
    proof (cases "k \<le> k'")
      case True
      then show ?thesis using None by (simp add: owner_of_def insert_entry_def find_append)
    next
      case False
      then show ?thesis using None unfolding U
        by (cases ?U) (auto simp: owner_of_def insert_entry_def find_append split: option.split)
    qed
  qed
qed

lemma owner_delete_entry:
  assumes "owner_of k ys = Some d" "\<And>y. y \<in> set ys \<Longrightarrow> fst y = a \<Longrightarrow> snd (snd y) \<noteq> d"
  shows "owner_of k (filter (\<lambda>y. fst y \<noteq> a) ys) = Some d"
proof (cases "find (\<lambda>y. k \<le> fst (snd y)) ys")
  case (Some y)
  then have "y \<in> set ys" by (auto simp: find_Some_iff)
  moreover have "snd (snd y) = d" using assms(1) Some by (simp add: owner_of_def)
  ultimately have y: "y \<in> set ys" "snd (snd y) = d" by simp_all
  then have "fst y \<noteq> a" using assms(2) by blast
  then have "find (\<lambda>y. fst y \<noteq> a \<and> k \<le> fst (snd y)) ys = Some y"
    using Some by (induction ys) (auto split: if_splits)
  then show ?thesis using y by (simp add: owner_of_def find_filter)
next
  case None
  then obtain y zs where ys: "ys = y # zs" "snd (snd y) = d"
    using assms(1) by (cases ys) (auto simp: owner_of_def)
  then have "fst y \<noteq> a" using assms(2) [of y] by auto
  moreover have "find (\<lambda>y. fst y \<noteq> a \<and> k \<le> fst (snd y)) ys = None"
    using None by (auto simp: find_None_iff)
  ultimately show ?thesis using ys by (simp add: owner_of_def find_filter split: if_splits)
qed

section \<open>The interface\<close>

text \<open>\<open>sound m ys\<close>: \<open>m\<close> holds exactly the entries \<open>ys\<close>. \<open>clean m ys\<close>: it also accepts insertions.\<close>

locale ordered_index =
  fixes sound :: "'m \<Rightarrow> (nat \<times> int \<times> 'a) list \<Rightarrow> bool"
    and clean :: "'m \<Rightarrow> (nat \<times> int \<times> 'a) list \<Rightarrow> bool"
    and search :: "'m \<Rightarrow> int \<Rightarrow> ptr option"
    and lookup :: "'m \<Rightarrow> int \<Rightarrow> ptr option"
    and fetch :: "'m \<Rightarrow> ptr \<Rightarrow> (int \<times> 'a) option"
    and holds :: "'m \<Rightarrow> nat \<Rightarrow> int \<Rightarrow> 'a \<Rightarrow> bool"
    and enter :: "nat \<Rightarrow> 'm \<Rightarrow> 'm option"
    and remove :: "nat \<Rightarrow> 'm \<Rightarrow> 'm option"
  assumes clean_sound: "clean m ys \<Longrightarrow> sound m ys"
    and sound_sorted: "sound m ys \<Longrightarrow> sorted (keys_of ys) \<and> distinct (map fst ys)"
    and search_law: "sound m ys \<Longrightarrow> \<exists>r. search m k = Some r \<and> r \<noteq> Sentinel \<and>
      (r = Null \<longleftrightarrow> k \<notin> set (keys_of ys)) \<and> (\<forall>a. r = At a \<longrightarrow> (\<exists>d. (a, k, d) \<in> set ys))"
    and lookup_law: "sound m ys \<Longrightarrow> lookup m k = Some (to_ptr (lookup_of k ys))"
    and fetch_law: "\<lbrakk>sound m ys; (a, k, d) \<in> set ys\<rbrakk> \<Longrightarrow> fetch m (At a) = Some (k, d)"
    and enter_law: "\<lbrakk>clean m ys; holds m a k d; a \<notin> fst ` set ys\<rbrakk> \<Longrightarrow>
      \<exists>m'. enter a m = Some m' \<and> clean m' (insert_entry a k d ys)"
    and remove_law: "\<lbrakk>sound m ys; a \<in> fst ` set ys\<rbrakk> \<Longrightarrow>
      \<exists>m'. remove a m = Some m' \<and> sound m' (filter (\<lambda>y. fst y \<noteq> a) ys) \<and>
        (clean m ys \<longrightarrow> 2 < length ys \<longrightarrow> clean m' (filter (\<lambda>y. fst y \<noteq> a) ys))"
begin

text \<open>The data of the entry that owns a key, as the client computes it.\<close>

definition owner :: "'m \<Rightarrow> int \<Rightarrow> 'a option option" where
  "owner m k = do {
     p \<leftarrow> lookup m k;
     if p = Null then Some None else do { e \<leftarrow> fetch m p; Some (Some (snd e)) }
   }"

lemma owner_eq: "sound m ys \<Longrightarrow> owner m k = Some (owner_of k ys)"
proof -
  assume s: "sound m ys"
  have f: "fetch m (At (fst y)) = Some (snd y)" if "y \<in> set ys" for y
    using fetch_law [OF s, of "fst y" "fst (snd y)" "snd (snd y)"] that by simp
  show ?thesis
  proof (cases "find (\<lambda>y. k \<le> fst (snd y)) ys")
    case (Some y)
    then have "y \<in> set ys" by (auto simp: find_Some_iff)
    then show ?thesis using Some f
      by (simp add: owner_def lookup_law [OF s] lookup_of_def ceiling_of_def owner_of_def)
  next
    case None
    then show ?thesis using f
      by (cases ys) (simp_all add: owner_def lookup_law [OF s] lookup_of_def ceiling_of_def owner_of_def)
  qed
qed

lemma enter_moves:
  assumes "clean m ys" "holds m a k' d" "a \<notin> fst ` set ys"
  shows "\<exists>m'. enter a m = Some m' \<and> clean m' (insert_entry a k' d ys) \<and>
    owner m' k \<in> {owner m k, Some (Some d)}"
proof -
  from enter_law [OF assms] obtain m' where 1: "enter a m = Some m'" "clean m' (insert_entry a k' d ys)" by blast
  have "owner m' k = Some (owner_of k (insert_entry a k' d ys))" using owner_eq [OF clean_sound [OF 1(2)]] .
  moreover have "owner m k = Some (owner_of k ys)" using owner_eq [OF clean_sound [OF assms(1)]] .
  moreover have "sorted (keys_of ys)" using sound_sorted [OF clean_sound [OF assms(1)]] by simp
  ultimately show ?thesis using 1 owner_insert_entry [of ys k a k' d] by auto
qed

lemma remove_keeps:
  assumes "sound m ys" "a \<in> fst ` set ys"
    and "owner m k = Some (Some d)" "\<And>k' d'. (a, k', d') \<in> set ys \<Longrightarrow> d' \<noteq> d"
  shows "\<exists>m'. remove a m = Some m' \<and> sound m' (filter (\<lambda>y. fst y \<noteq> a) ys) \<and> owner m' k = owner m k"
proof -
  from remove_law [OF assms(1,2)] obtain m' where 1: "remove a m = Some m'"
    "sound m' (filter (\<lambda>y. fst y \<noteq> a) ys)" by blast
  have "owner_of k ys = Some d" using owner_eq [OF assms(1), of k] assms(3) by simp
  moreover have "snd (snd y) \<noteq> d" if "y \<in> set ys" "fst y = a" for y
    using assms(4) [of "fst (snd y)" "snd (snd y)"] that by auto
  ultimately have "owner_of k (filter (\<lambda>y. fst y \<noteq> a) ys) = Some d" by (intro owner_delete_entry) auto
  then show ?thesis using 1 owner_eq [OF 1(2), of k] assms(3) by simp
qed

end

end
