(* ===== verification/RbRemove.thy ===== *)
theory RbRemove
  imports RbDelete OrderedIndex
begin

text \<open>
  Correctness of \<open>util_rbtree_delete\<close>, second part: unlinking the removed position, putting its
  node in the place of the deleted one, and the whole operation with its invariants.
\<close>

declare map_option_eq_Some [simp del]

section \<open>Frames\<close>

text \<open>Deletion also writes the parent field of the sentinel.\<close>

definition frame :: "nat set \<Rightarrow> 'a rbtree \<Rightarrow> 'a rbtree \<Rightarrow> bool" where
  "frame A t t' \<longleftrightarrow> color (null t') = color (null t) \<and> size t' = size t \<and> (\<forall>b. b \<notin> A \<longrightarrow> heap t' b = heap t b)"

lemma frame_refl [simp]: "frame A t t"
  by (simp add: frame_def)

lemma frame_trans: "\<lbrakk>frame A t t'; frame A t' t''\<rbrakk> \<Longrightarrow> frame A t t''"
  by (simp add: frame_def)

lemma frame_same: "same_outside A t t' \<Longrightarrow> frame A t t'"
  by (simp add: frame_def same_outside_def)

section \<open>The fix-up as a whole\<close>

lemma content_del_fix: "lacking fs T \<Longrightarrow> content (del_fix fs T) = content (plug fs T)"
proof (induction fs arbitrary: T)
  case (Cons f fs)
  show ?case
  proof (cases "tcol T = 1")
    case False
    then show ?thesis using content_plug_cong [of "paint 1 T" T "f # fs"] by simp
  next
    case b: True
    obtain wl w wr where W: "sib f = Node wl w wr" using lacking_sib [OF Cons.prems] by blast
    have plug1: "content S = content (plug [f] T) \<Longrightarrow> content (plug fs S) = content (plug (f # fs) T)" for S
      using content_plug_cong [of S "plug [f] T" fs] by (cases f) simp_all
    show ?thesis
    proof (cases "ccol w = 0")
      case False
      then have rs: "red_sib f = [f]" and sb: "tcol (sib f) = 1"
        using red_sib_black [OF W] W Cons.prems by (auto simp: lacking_def)
      obtain up S where S: "black_sib f T = (up, S)" by (cases "black_sib f T")
      show ?thesis
      proof (cases up)
        case True
        with black_sib_up [OF Cons.prems b sb, of S] S plug1 [of S] Cons.IH [of S] b rs show ?thesis by simp
      next
        case False
        with black_sib_done [OF Cons.prems b sb, of S] S plug1 [of S] b rs show ?thesis by simp
      qed
    next
      case True
      then have "tcol (sib f) = 0" using W by simp
      from red_sib_red [OF Cons.prems b this] obtain f' g where g: "red_sib f = [f', g]"
        "lacking (f' # g # fs) T" "tcol (sib f') = 1"
        "\<And>S. content S = content (plug [f'] T) \<Longrightarrow> content (plug [g] S) = content (plug [f] T)" by blast
      obtain up S where S: "black_sib f' T = (up, S)" by (cases "black_sib f' T")
      have "content S = content (plug [f'] T)"
        using black_sib_up(4) [OF g(2) b g(3), of S] black_sib_done(5) [OF g(2) b g(3), of S] S by (cases up) simp_all
      from plug1 [OF g(4) [OF this]] have "content (plug (g # fs) S) = content (plug (f # fs) T)"
        by (cases g) simp_all
      then show ?thesis using content_plug_cong [of "paint 1 S" S "g # fs"] S b g(1) by (cases up) simp_all
    qed
  qed
qed simp

lemma rbtree_delete_fixup_rep:
  assumes d: "dstate t par fs T" and l: "lacking fs T"
  shows "yields (rbtree_delete_fixup (tptr T) t) (\<lambda>t'. tstate t' par (del_fix fs T) \<and>
    same_outside (set (taddrs (plug fs T))) t t')"
proof -
  let ?A = "set (taddrs (plug fs T))"
  from delete_fixup_loop_rep [OF d l] obtain q t1 where 1: "delete_fixup_loop (tptr T) t = Some (q, t1)"
    "del_end par (del_fix fs T) (q, t1)" "same_outside ?A t t1"
    unfolding yields_def split_paired_Ex prod.case by blast
  then obtain gs S where S: "q = tptr S" "tstate t1 par (plug gs S)" "plug gs (paint 1 S) = del_fix fs T"
    unfolding del_end_def by auto
  have nb: "null_black t1" using null_black_same [OF 1(3)] d by (simp add: dstate_def)
  have fin: "taddrs (del_fix fs T) = taddrs (plug gs S)"
    using taddrs_plug_cong [of "paint 1 S" S gs] S(3) by simp
  show ?thesis
  proof (cases S)
    case Leaf
    have "t1\<lparr>null := (null t1)\<lparr>color := 1\<rparr>\<rparr> = t1" using nb by (cases t1) (simp add: null_black_def)
    then show ?thesis using 1 S Leaf
      by (simp add: rbtree_delete_fixup_def util_rbt_black_def store_def)
  next
    case (Node sl y sr)
    from paint_sub [OF S(2), of 1] obtain t2 where 2: "set_color (tptr S) 1 t1 = Some t2"
      "tstate t2 par (del_fix fs T)" "same_outside (set (taddrs (plug gs S))) t1 t2"
      unfolding yields_def S(3) by (auto simp: Node)
    have "taddrs (plug gs S) = taddrs (plug fs T)"
      using fin content_del_fix [OF l] by (simp add: taddrs_content)
    then have "set (taddrs (plug gs S)) = ?A" by simp
    then show ?thesis using 1(1,3) 2 S(1) same_outside_trans [OF 1(3), of t2]
      by (simp add: rbtree_delete_fixup_def util_rbt_black_def)
  qed
qed

section \<open>Unlinking a node with at most one child\<close>

definition unlink :: "ptr \<Rightarrow> ptr \<Rightarrow> ptr \<Rightarrow> 'a rbtree \<Rightarrow> 'a rbtree option" where
  "unlink temp subst p' t = do {
     t1 \<leftarrow> set_parent subst p' t;
     tp' \<leftarrow> get_parent t1 temp;
     tpl \<leftarrow> get_left t1 tp';
     if temp = tpl then set_left tp' subst t1 else set_right tp' subst t1
   }"

lemma unlink_rep:
  assumes t: "tstate t par (plug (f # fs) (Node a x b))" and S: "a = Leaf \<and> S = b \<or> b = Leaf \<and> S = a"
  shows "yields (unlink (At (addr x)) (tptr S) p' t) (\<lambda>t2. root t2 = root t \<and>
    repf (heap t2) par (f # fs) (tptr S) \<and> rep (heap t2) p' S \<and> heap t2 (addr x) = heap t (addr x) \<and>
    frame (set (taddrs S) \<union> {addr (lcell f)}) t t2 \<and> get_parent t2 (tptr S) = Some p')"
proof -
  let ?z = "addr (lcell f)" and ?x = "addr x"
  have d: "distinct (faddrs (f # fs) @ taddrs (Node a x b))"
    using t by (simp only: tstate_def distinct_plug)
  have dS: "distinct (taddrs S)" "?x \<notin> set (taddrs S)" "?z \<notin> set (taddrs S)" "?x \<noteq> ?z"
    "\<And>c. c \<in> set (faddrs (f # fs)) \<Longrightarrow> c \<notin> set (taddrs S)" "?x \<notin> set (faddrs (f # fs))"
    using d S by auto
  have r: "repf (heap t) par (f # fs) (At ?x)" "rep (heap t) (At ?x) S"
    using t S by (auto simp: tstate_def rep_plug simp del: plug.simps repf.simps)
  obtain nz where nz: "heap t ?z = Some nz" using r(1) by (cases f) auto
  define t1 where "t1 = (case tptr S of Sentinel \<Rightarrow> t\<lparr>null := (null t)\<lparr>parent := p'\<rparr>\<rparr>
    | _ \<Rightarrow> t\<lparr>heap := reparent p' S (heap t)\<rparr>)"
  have h1: "heap t1 = reparent p' S (heap t)" "root t1 = root t"
    by (cases S; simp add: t1_def reparent_def)+
  have s1: "set_parent (tptr S) p' t = Some t1"
    using r(2) by (cases S) (simp_all add: t1_def reparent_def store_def)
  have same: "heap t1 c = heap t c" if "c \<notin> set (taddrs S)" for c
    using that by (simp add: h1 reparent_other)
  have nz1: "heap t1 ?z = Some nz" using nz same dS(3) by simp
  have px: "get_parent t1 (At ?x) = Some (At ?z)"
    using tstate_deref [OF t] same [OF dS(2)] by (simp add: deref_def)
  have F1: "repf (heap t1) par (f # fs) (At ?x)"
    using r(1) repf_cong [of "f # fs" "heap t1" "heap t"] same dS(5) by (simp del: repf.simps)
  define t2 where "t2 = t1\<lparr>heap := (heap t1)(?z \<mapsto> set_side f (tptr S) nz)\<rparr>"
  have side: "(At ?x = left nz) = (case f of LeftOf _ _ \<Rightarrow> True | RightOf _ _ \<Rightarrow> False)"
  proof (cases f)
    case (LeftOf y u)
    then show ?thesis using F1 nz1 by auto
  next
    case (RightOf u y)
    have "tptr u \<noteq> At ?x" using dS(6) RightOf by simp
    then show ?thesis using F1 nz1 RightOf by auto
  qed
  have gl: "get_left t1 (At ?z) = Some (left nz)" using nz1 by (simp add: deref_def)
  have "unlink (At ?x) (tptr S) p' t =
      (if At ?x = left nz then set_left (At ?z) (tptr S) t1 else set_right (At ?z) (tptr S) t1)"
    by (simp add: unlink_def s1 px gl)
  then have "unlink (At ?x) (tptr S) p' t = Some t2"
    unfolding side using nz1 by (cases f) (simp_all add: store_def t2_def)
  moreover have "repf (heap t2) par (f # fs) (tptr S)"
    using repf_attach [OF F1 _ nz1] d by (auto simp: t2_def simp del: repf.simps)
  moreover have "rep (heap t2) p' S"
    using rep_reparent [OF r(2) dS(1)] dS(3) by (simp add: t2_def h1)
  moreover have "heap t2 ?x = heap t ?x" using same [OF dS(2)] dS(4) by (simp add: t2_def)
  moreover have "frame (set (taddrs S) \<union> {?z}) t t2"
    using same by (cases S) (auto simp: frame_def t2_def t1_def reparent_def)
  moreover have "get_parent t2 (tptr S) = Some p'"
    using rep_reparent [OF r(2) dS(1), of p'] dS(3)
    by (cases S) (auto simp: t2_def deref_def h1, simp add: t1_def)
  moreover have "root t2 = root t" by (simp add: t2_def h1)
  ultimately show ?thesis by simp
qed

section \<open>One node in the place of another\<close>

lemma replace_child_run:
  assumes F: "repf (heap t) par fs (At a)" and a: "heap t a = Some na" "parent na = fpar par fs"
    and r: "root t = At a \<longleftrightarrow> fs = []"
  shows "replace_child (At a) new t =
    Some (t\<lparr>root := (if fs = [] then new else root t), heap := relink (At a) new fs (heap t)\<rparr>)"
proof (cases fs)
  case Nil
  then show ?thesis using r by (simp add: replace_child_def relink_def)
next
  case (Cons f gs)
  obtain nz where nz: "heap t (addr (lcell f)) = Some nz" using F Cons by (cases f) auto
  have "get_parent t (At a) = Some (At (addr (lcell f)))" using a Cons by (simp add: deref_def)
  moreover have "get_left t (At (addr (lcell f))) = Some (left nz)" using nz by (simp add: deref_def)
  moreover have "root t \<noteq> At a" using r Cons by simp
  ultimately show ?thesis using nz Cons by (auto simp: replace_child_def relink_def store_def)
qed

lemma set_parent_tree:
  assumes "rep (heap t) p S"
  shows "(if tptr S \<noteq> Sentinel then set_parent (tptr S) q t else Some t) =
    Some (t\<lparr>heap := reparent q S (heap t)\<rparr>)"
  using assms by (cases S) (simp_all add: reparent_def store_def)

lemma store_At: "heap t n = Some x \<Longrightarrow> store (At n) f t = Some (t\<lparr>heap := (heap t)(n \<mapsto> f x)\<rparr>)"
  by (simp add: store_def)

lemma replace_node_rep:
  assumes F: "repf (heap t) par fs (At (addr x))" and r: "root t = tptr (plug fs (Node l x R))"
    and a: "heap t (addr x) = Some \<lparr>key = ckey x, parent = fpar par fs, right = tptr R, left = tptr l,
      color = ccol x, data = cdat x\<rparr>"
    and L: "rep (heap t) (At (addr x)) l" and R: "rep (heap t) q R"
    and m: "heap t m = Some nm" "m \<notin> set (faddrs fs @ taddrs (Node l x R))"
    and d: "distinct (faddrs fs @ taddrs (Node l x R))"
  shows "yields (replace_node (At (addr x)) (At m) t) (\<lambda>t'.
    tstate t' par (plug fs (Node l (Cell m (key nm) (ccol x) (data nm)) R)) \<and>
    same_outside (insert m (set (taddrs (plug fs (Node l x R))))) t t' \<and> heap t' (addr x) = heap t (addr x))"
proof -
  let ?a = "addr x" and ?h = "heap t"
  let ?n1 = "nm\<lparr>parent := fpar par fs\<rparr>"
  let ?n3 = "?n1\<lparr>right := tptr R\<rparr>"
  let ?n4 = "?n3\<lparr>left := tptr l\<rparr>"
  let ?n7 = "?n4\<lparr>color := ccol x\<rparr>"
  have am: "m \<noteq> ?a" "m \<notin> set (faddrs fs)" "m \<notin> set (taddrs l)" "m \<notin> set (taddrs R)" using m(2) by auto
  have aa: "?a \<notin> set (faddrs fs)" "?a \<notin> set (taddrs l)" "?a \<notin> set (taddrs R)" using d by auto
  have lR: "\<And>c. c \<in> set (taddrs l) \<Longrightarrow> c \<notin> set (faddrs fs) \<and> c \<notin> set (taddrs R)"
    "\<And>c. c \<in> set (taddrs R) \<Longrightarrow> c \<notin> set (faddrs fs) \<and> c \<notin> set (taddrs l)"
    "\<And>c. c \<in> set (faddrs fs) \<Longrightarrow> c \<notin> set (taddrs l) \<and> c \<notin> set (taddrs R)"
    "distinct (taddrs l)" "distinct (taddrs R)" "distinct (faddrs fs)" using d by auto
  define h1 where "h1 = ?h(m \<mapsto> ?n1)"
  define h2 where "h2 = relink (At ?a) (At m) fs h1"
  define h4 where "h4 = h2(m \<mapsto> ?n4)"
  define h5 where "h5 = reparent (At m) l h4"
  define h6 where "h6 = reparent (At m) R h5"
  define h7 where "h7 = h6(m \<mapsto> ?n7)"
  let ?rt = "if fs = [] then At m else root t"
  let ?t = "\<lambda>h. t\<lparr>root := ?rt, heap := h\<rparr>"
  have h2: "h2 c = h1 c" if "c \<notin> set (faddrs fs)" for c using that by (simp add: h2_def relink_other)
  have h4: "h4 c = ?h c" if "c \<notin> set (faddrs fs)" "c \<noteq> m" for c using that h2 by (simp add: h4_def h1_def)
  have h5: "h5 c = h4 c" if "c \<notin> set (taddrs l)" for c using that by (simp add: h5_def reparent_other)
  have h6: "h6 c = h5 c" if "c \<notin> set (taddrs R)" for c using that by (simp add: h6_def reparent_other)
  have a2: "h2 ?a = ?h ?a" "h4 ?a = ?h ?a" "h6 ?a = ?h ?a" using h2 h4 h5 h6 aa am by (simp_all add: h1_def)
  have m2: "h2 m = Some ?n1" "h4 m = Some ?n4" "h5 m = Some ?n4" "h6 m = Some ?n4"
    using h2 h5 h6 am by (simp_all add: h1_def h4_def)
  have rtf: "root t = At ?a \<longleftrightarrow> fs = []"
  proof (cases fs)
    case (Cons f gs)
    have "addr (lcell (last fs)) \<in> set (faddrs fs)" using Cons by (intro last_faddr) simp
    then have "addr (lcell (last fs)) \<noteq> ?a" using aa by auto
    then show ?thesis using r Cons by (simp add: tptr_plug del: plug.simps)
  qed (use r in simp)
  have F1: "repf h1 par fs (At ?a)" using F am by (simp add: h1_def)
  have L4: "rep h4 (At ?a) l" using L rep_cong [of l h4 ?h] h4 lR am(3) by (metis (no_types))
  have R5: "rep h5 q R" using R rep_cong [of R h5 ?h] h4 h5 lR am(4) by (metis (no_types))
  have np: "get_parent t (At ?a) = Some (fpar par fs)" using a by (simp add: deref_def)
  have rc: "replace_child (At ?a) (At m) (t\<lparr>heap := h1\<rparr>) = Some (?t h2)"
    using replace_child_run [of "t\<lparr>heap := h1\<rparr>" par fs ?a _ "At m"] F1 a rtf am
    by (simp add: h1_def h2_def)
  have steps: "set_parent (At m) (fpar par fs) t = Some (t\<lparr>heap := h1\<rparr>)"
    "set_right (At m) (tptr R) (?t h2) = Some (?t (h2(m \<mapsto> ?n3)))"
    "set_left (At m) (tptr l) (?t (h2(m \<mapsto> ?n3))) = Some (?t h4)"
    "set_color (At m) (ccol x) (?t h6) = Some (?t h7)"
    using m m2 by (simp_all add: store_At h1_def h4_def h7_def)
  have reads: "get_right (?t h2) (At ?a) = Some (tptr R)" "get_left (?t (h2(m \<mapsto> ?n3))) (At ?a) = Some (tptr l)"
    "get_left (?t h4) (At m) = Some (tptr l)" "get_right (?t h5) (At m) = Some (tptr R)"
    "get_color (?t h6) (At ?a) = Some (ccol x)"
    using a a2 m2 am(1) by (simp_all add: deref_def)
  have trees: "(if tptr l \<noteq> Sentinel then set_parent (tptr l) (At m) (?t h4) else Some (?t h4)) = Some (?t h5)"
    "(if tptr R \<noteq> Sentinel then set_parent (tptr R) (At m) (?t h5) else Some (?t h5)) = Some (?t h6)"
    using set_parent_tree [of "?t h4" "At ?a" l "At m"] set_parent_tree [of "?t h5" q R "At m"] L4 R5
    by (simp_all add: h5_def h6_def)
  have run: "replace_node (At ?a) (At m) t = Some (?t h7)"
    unfolding replace_node_def np steps(1) rc reads steps(2-4) trees Option.bind.bind_lunit by simp
  have Fin: "repf h7 par fs (At m)"
  proof -
    have "repf h2 par fs (At m)"
      unfolding h2_def by (rule repf_relink [OF F1 lR(6) sib_neq [OF _ aa(1)]])
    moreover have "h7 c = h2 c" if "c \<in> set (faddrs fs)" for c
      using that lR(3) [OF that] am(2) h5 h6 by (auto simp: h7_def h4_def)
    ultimately show ?thesis using repf_cong [of fs h7 h2 par "At m"] by simp
  qed
  have "rep h5 (At m) l" unfolding h5_def using rep_reparent [OF L4 lR(4)] .
  moreover have "h7 c = h5 c" if "c \<in> set (taddrs l)" for c
    using that lR(1) [OF that] am(3) h6 by (auto simp: h7_def)
  ultimately have Lin: "rep h7 (At m) l" using rep_cong [of l h7 h5 "At m"] by simp
  have "rep h6 (At m) R" unfolding h6_def using rep_reparent [OF R5 lR(5)] .
  then have Rin: "rep h7 (At m) R" using am(4) by (simp add: h7_def)
  have root': "?rt = tptr (plug fs (Node l (Cell m (key nm) (ccol x) (data nm)) R))"
  proof (cases fs)
    case (Cons f gs)
    then have "root t = tptr (plug fs (Node l (Cell m (key nm) (ccol x) (data nm)) R))"
      using r root_plug_cong [of fs t "Node l x R"] by blast
    then show ?thesis using Cons by simp
  qed simp
  have "h7 m = Some \<lparr>key = key nm, parent = fpar par fs, right = tptr R, left = tptr l, color = ccol x, data = data nm\<rparr>"
    by (cases nm) (simp add: h7_def)
  then have "tstate (?t h7) par (plug fs (Node l (Cell m (key nm) (ccol x) (data nm)) R))"
    using Fin Lin Rin root' d am by (simp add: tstate_def rep_plug distinct_plug del: repf.simps)
  moreover have "h7 c = ?h c" if "c \<noteq> m" "c \<notin> set (taddrs (plug fs (Node l x R)))" for c
    using that h4 h5 h6 by (simp add: h7_def)
  then have "same_outside (insert m (set (taddrs (plug fs (Node l x R))))) t (?t h7)"
    by (simp add: same_outside_def)
  moreover have "h7 ?a = ?h ?a" using a2 am by (simp add: h7_def)
  ultimately show ?thesis using run by simp
qed

section \<open>The functional deletion\<close>

fun lmost :: "'a level list \<Rightarrow> 'a cell \<Rightarrow> 'a ctree \<Rightarrow> 'a ctree \<Rightarrow> 'a level list \<times> 'a cell \<times> 'a ctree" where
  "lmost gs m mr Leaf = (gs, m, mr)"
| "lmost gs m mr (Node a y b) = lmost (LeftOf m mr # gs) y b a"

lemma lmost_plug: "lmost gs m mr l = (gs', m', mr') \<Longrightarrow>
    plug (gs' @ fs) (Node Leaf m' mr') = plug (gs @ fs) (Node l m mr) \<and>
    addr m' = fst (hd (content (Node l m mr))) \<and> (\<exists>hs. gs' = hs @ gs)"
proof (induction gs m mr l rule: lmost.induct)
  case (2 gs m mr a y b)
  then have "plug (gs' @ fs) (Node Leaf m' mr') = plug ((LeftOf m mr # gs) @ fs) (Node a y b) \<and>
    addr m' = fst (hd (content (Node a y b))) \<and> (\<exists>hs. gs' = hs @ LeftOf m mr # gs)" by simp
  then show ?case by (auto simp: hd_append)
qed auto

definition rb_remove :: "'a level list \<Rightarrow> 'a ctree \<Rightarrow> 'a cell \<Rightarrow> 'a ctree \<Rightarrow> 'a ctree" where
  "rb_remove fs l x r = (case r of
     Leaf \<Rightarrow> (if fs = [] then paint 1 l else if ccol x = 1 then del_fix fs l else plug fs l)
   | Node rl y rr \<Rightarrow>
       (if l = Leaf then (if fs = [] then paint 1 r else if ccol x = 1 then del_fix fs r else plug fs r)
        else (case lmost [] y rr rl of (gs, m, mr) \<Rightarrow>
          let fs' = gs @ RightOf l (Cell (addr m) (ckey m) (ccol x) (cdat m)) # fs
          in if ccol m = 1 then del_fix fs' mr else plug fs' mr)))"

section \<open>Invariants of the functional deletion\<close>

lemma tcol_plug: "fs \<noteq> [] \<Longrightarrow> tcol (plug fs T) = ccol (lcell (last fs))"
proof (induction fs arbitrary: T)
  case (Cons f fs)
  then show ?case by (cases f; cases "fs = []") simp_all
qed simp

lemma red_root_free_tcol: "tcol (plug fs T) \<noteq> 0 \<Longrightarrow> red_root_free fs"
  using tcol_plug [of fs T] by (auto simp: red_root_free_def)

definition balanced :: "'a ctree \<Rightarrow> bool" where
  "balanced T \<longleftrightarrow> invc T \<and> invh T \<and> tcol T \<noteq> 0"

lemma balanced_paint: "\<lbrakk>invc T; invh T\<rbrakk> \<Longrightarrow> balanced (paint 1 T)"
  using paint_black [of T] by (simp add: balanced_def)

lemma paint_lacking: "\<lbrakk>lacking fs T; tcol T \<noteq> 1\<rbrakk> \<Longrightarrow>
    fits fs (bheight (paint 1 T)) \<and> invc (paint 1 T) \<and> invh (paint 1 T) \<and> tcol (paint 1 T) = 1"
  by (cases T) (auto simp: lacking_def)

lemma balanced_stop:
  assumes "lacking (f # fs) T" "tcol T \<noteq> 1" "red_root_free (f # fs)"
  shows "balanced (plug (f # fs) (paint 1 T))"
  using paint_lacking [OF assms(1,2)] balanced_plug [of "f # fs" "paint 1 T"] tcol_plug [of "f # fs" "paint 1 T"]
    assms(3) by (simp add: balanced_def red_root_free_def del: plug.simps)

lemma balanced_done:
  assumes "lacking (f # fs) T" "tcol T = 1" "tcol (sib f) = 1" "black_sib f T = (False, S)"
  shows "balanced (paint 1 (plug fs S))"
proof -
  note s = black_sib_done [OF assms]
  have "tcol S = 0 \<longrightarrow> not_red fs" using assms(1) s(4) by (auto simp: lacking_def)
  then show ?thesis using balanced_plug [OF s(1-3)] by (intro balanced_paint) simp_all
qed

lemma del_fix_balanced: "\<lbrakk>lacking fs T; red_root_free fs\<rbrakk> \<Longrightarrow> balanced (del_fix fs T)"
proof (induction fs arbitrary: T)
  case Nil
  then show ?case by (cases T) (auto simp: lacking_def balanced_def)
next
  case (Cons f fs)
  show ?case
  proof (cases "tcol T = 1")
    case False
    then show ?thesis using balanced_stop [OF Cons.prems(1) False Cons.prems(2)] by simp
  next
    case b: True
    obtain wl w wr where W: "sib f = Node wl w wr" using lacking_sib [OF Cons.prems(1)] by blast
    have rf: "red_root_free fs" using Cons.prems(2) by (simp add: red_root_free_def split: if_splits)
    show ?thesis
    proof (cases "ccol w = 0")
      case False
      then have rs: "red_sib f = [f]" and sb: "tcol (sib f) = 1"
        using red_sib_black [OF W] W Cons.prems by (auto simp: lacking_def)
      obtain up S where S: "black_sib f T = (up, S)" by (cases "black_sib f T")
      show ?thesis
      proof (cases up)
        case True
        with black_sib_up(1) [OF Cons.prems(1) b sb, of S] S Cons.IH [of S] rf b rs show ?thesis by simp
      next
        case False
        with balanced_done [OF Cons.prems(1) b sb, of S] S b rs show ?thesis by simp
      qed
    next
      case True
      then have "tcol (sib f) = 0" using W by simp
      from red_sib_red [OF Cons.prems(1) b this] obtain f' g where g: "red_sib f = [f', g]"
        "lacking (f' # g # fs) T" "tcol (sib f') = 1" "ccol (lcell f') = 0" "ccol (lcell g) = 1" by blast
      obtain up S where S: "black_sib f' T = (up, S)" by (cases "black_sib f' T")
      show ?thesis
      proof (cases up)
        case True
        have "lacking (g # fs) S" "tcol S \<noteq> 1"
          using black_sib_up [OF g(2) b g(3), of S] S True g(4) by simp_all
        moreover have "red_root_free (g # fs)" using rf g(5) by (auto simp: red_root_free_def)
        ultimately show ?thesis using balanced_stop [of g fs S] b g(1) S True by simp
      next
        case False
        then show ?thesis using balanced_done [OF g(2) b g(3), of S] S b g(1) by simp
      qed
    qed
  qed
qed

text \<open>A node with one child.\<close>

lemma one_child_lacking:
  assumes "invc (plug fs (Node a x b))" "invh (plug fs (Node a x b))" "a = Leaf \<and> S = b \<or> b = Leaf \<and> S = a"
  shows "ccol x = 1 \<Longrightarrow> lacking fs S"
    "ccol x \<noteq> 1 \<Longrightarrow> fits fs (bheight S) \<and> invc S \<and> invh S \<and> tcol S = 1"
    "invc S" "invh S"
proof -
  note p = plug_balanced [OF assms(1,2)]
  then have i: "invc S" "invh S" "bheight S = 0" "bheight a = 0" using assms(3) by auto
  have "invc (paint 1 S)" using i by (cases S) auto
  then show "ccol x = 1 \<Longrightarrow> lacking fs S" using p i tcol_invc [OF i(1)] by (simp add: lacking_def)
  show "ccol x \<noteq> 1 \<Longrightarrow> fits fs (bheight S) \<and> invc S \<and> invh S \<and> tcol S = 1"
    using p i assms(3) tcol_invc [OF i(1)] by auto
  show "invc S" "invh S" using i by auto
qed

lemma fits_cell_cong:
  assumes "ccol y = ccol x"
  shows "fits (gs @ RightOf l y # fs) b = fits (gs @ RightOf l x # fs) b"
    "not_red (gs @ RightOf l y # fs) = not_red (gs @ RightOf l x # fs)"
proof -
  show n: "not_red (gs @ RightOf l y # fs) = not_red (gs @ RightOf l x # fs)" for gs
    using assms by (cases gs) simp_all
  show "fits (gs @ RightOf l y # fs) b = fits (gs @ RightOf l x # fs) b"
    by (induction gs arbitrary: b) (simp_all add: assms n)
qed

lemma one_child_balanced:
  assumes "balanced (plug fs (Node a x b))" "a = Leaf \<and> S = b \<or> b = Leaf \<and> S = a" "fs \<noteq> []"
  shows "balanced (if ccol x = 1 then del_fix fs S else plug fs S)"
proof -
  have "red_root_free fs" using assms(1) red_root_free_tcol [of fs "Node a x b"] by (simp add: balanced_def)
  moreover have i: "invc (plug fs (Node a x b))" "invh (plug fs (Node a x b))" using assms(1) by (simp_all add: balanced_def)
  moreover have "tcol (plug fs S) = tcol (plug fs (Node a x b))" using assms(3) by (simp add: tcol_plug)
  ultimately show ?thesis
    using del_fix_balanced [of fs S] one_child_lacking(1,2) [OF i assms(2)] balanced_plug [of fs S] assms(1)
    by (simp add: balanced_def)
qed

lemma plug_append: "plug (gs @ fs) T = plug fs (plug gs T)"
proof (induction gs arbitrary: T)
  case (Cons g gs)
  then show ?case by (cases g) simp_all
qed simp

lemma two_children_balanced:
  assumes "balanced (plug fs (Node l x (Node rl y rr)))" "lmost [] y rr rl = (gs, m, mr)" "ccol x' = ccol x"
  shows "balanced (if ccol m = 1 then del_fix (gs @ RightOf l x' # fs) mr else plug (gs @ RightOf l x' # fs) mr)"
proof -
  let ?fs = "gs @ RightOf l x' # fs"
  have eq: "plug (gs @ RightOf l x # fs) (Node Leaf m mr) = plug fs (Node l x (Node rl y rr))"
    using lmost_plug [OF assms(2), of "RightOf l x # fs"] by simp
  then have i: "invc (plug (gs @ RightOf l x # fs) (Node Leaf m mr))"
    "invh (plug (gs @ RightOf l x # fs) (Node Leaf m mr))" using assms(1) by (simp_all add: balanced_def)
  have "tcol (plug ?fs (Node Leaf m mr)) = tcol (plug (gs @ RightOf l x # fs) (Node Leaf m mr))"
    using assms(3) by (simp add: tcol_plug)
  then have "balanced (plug ?fs (Node Leaf m mr))"
    using plug_balanced [OF i] balanced_plug [of ?fs "Node Leaf m mr"] fits_cell_cong [OF assms(3)] eq assms(1)
    by (simp add: balanced_def)
  from one_child_balanced [OF this, of mr] show ?thesis by simp
qed

theorem rb_remove_balanced:
  assumes "balanced (plug fs (Node l x r))"
  shows "balanced (rb_remove fs l x r)"
proof -
  have i: "invc (plug fs (Node l x r))" "invh (plug fs (Node l x r))" using assms by (simp_all add: balanced_def)
  have one: "balanced (if fs = [] then paint 1 S else if ccol x = 1 then del_fix fs S else plug fs S)"
    if "l = Leaf \<and> S = r \<or> r = Leaf \<and> S = l" for S
    using one_child_balanced [OF assms that] one_child_lacking(3,4) [OF i that] balanced_paint [of S] by simp
  show ?thesis
  proof (cases r)
    case Leaf
    then show ?thesis using one [of l] by (simp add: rb_remove_def)
  next
    case (Node rl y rr)
    show ?thesis
    proof (cases "l = Leaf")
      case True
      then show ?thesis using one [of r, unfolded Node] unfolding Node by (simp add: rb_remove_def split: if_splits)
    next
      case False
      obtain gs m mr where "lmost [] y rr rl = (gs, m, mr)" by (cases "lmost [] y rr rl")
      then show ?thesis
        using False Node two_children_balanced [OF assms [unfolded Node], of gs m mr "Cell (addr m) (ckey m) (ccol x) (cdat m)"]
        by (simp add: rb_remove_def Let_def)
    qed
  qed
qed

section \<open>Contents of the functional deletion\<close>

lemma content_context: "\<exists>us vs. \<forall>T. content (plug fs T) = us @ content T @ vs"
proof (induction fs)
  case (Cons f fs)
  then obtain us vs where c: "\<And>T. content (plug fs T) = us @ content T @ vs" by blast
  show ?case
  proof (cases f)
    case (LeftOf x r)
    have "\<forall>T. content (plug (f # fs) T) = us @ content T @ ((addr x, ckey x, cdat x) # content r @ vs)"
      by (simp add: LeftOf c)
    then show ?thesis by blast
  next
    case (RightOf l x)
    have "\<forall>T. content (plug (f # fs) T) = (us @ content l @ [(addr x, ckey x, cdat x)]) @ content T @ vs"
      by (simp add: RightOf c)
    then show ?thesis by blast
  qed
next
  case Nil
  have "\<forall>T. content (plug [] T) = [] @ content T @ []" by simp
  then show ?case by blast
qed

lemma lmost_content: "lmost gs m mr l = (gs', m', mr') \<Longrightarrow>
    \<exists>hs vs. gs' = hs @ gs \<and> (\<forall>T. content (plug hs T) = content T @ vs)"
proof (induction gs m mr l rule: lmost.induct)
  case (2 gs m mr a y b)
  then obtain hs vs where h: "gs' = hs @ LeftOf m mr # gs" "\<And>T. content (plug hs T) = content T @ vs" by auto
  have "\<forall>T. content (plug (hs @ [LeftOf m mr]) T) = content T @ (vs @ (addr m, ckey m, cdat m) # content mr)"
    by (simp add: plug_append h(2))
  moreover have "gs' = (hs @ [LeftOf m mr]) @ gs" using h(1) by simp
  ultimately show ?case by blast
qed auto

lemma content_rb_remove:
  assumes b: "balanced (plug fs (Node l x r))"
    and c: "\<And>T. content (plug fs T) = us @ content T @ vs"
  shows "content (rb_remove fs l x r) = us @ content l @ content r @ vs"
proof -
  have i: "invc (plug fs (Node l x r))" "invh (plug fs (Node l x r))" using b by (simp_all add: balanced_def)
  have one: "content (if fs = [] then paint 1 S else if ccol x = 1 then del_fix fs S else plug fs S) = us @ content S @ vs"
    if "l = Leaf \<and> S = r \<or> r = Leaf \<and> S = l" for S
  proof (cases "fs = []")
    case True
    then show ?thesis using c [of S] by simp
  next
    case False
    then show ?thesis using content_del_fix [of fs S] one_child_lacking(1) [OF i that] c [of S] by simp
  qed
  show ?thesis
  proof (cases r)
    case Leaf
    then show ?thesis using one [of l] by (simp add: rb_remove_def)
  next
    case (Node rl y rr)
    show ?thesis
    proof (cases "l = Leaf")
      case True
      then show ?thesis using one [of r, unfolded Node] unfolding Node by (simp add: rb_remove_def split: if_splits)
    next
      case False
      obtain gs m mr where g: "lmost [] y rr rl = (gs, m, mr)" by (cases "lmost [] y rr rl")
      let ?x = "Cell (addr m) (ckey m) (ccol x) (cdat m)"
      let ?fs = "gs @ RightOf l ?x # fs"
      obtain ws where ws: "\<And>T. content (plug gs T) = content T @ ws" using lmost_content [OF g] by auto
      have R: "content r = (addr m, ckey m, cdat m) # content mr @ ws"
        using lmost_plug [OF g, of "[]"] ws [of "Node Leaf m mr"] Node by simp
      have eq: "plug (gs @ RightOf l x # fs) (Node Leaf m mr) = plug fs (Node l x r)"
        using lmost_plug [OF g, of "RightOf l x # fs"] Node by simp
      have "lacking ?fs mr" if "ccol m = 1"
      proof -
        have "lacking (gs @ RightOf l x # fs) mr"
          using one_child_lacking(1) [of "gs @ RightOf l x # fs" Leaf m mr mr] i that by (simp add: eq)
        then show ?thesis using fits_cell_cong(1) [of ?x x] by (simp add: lacking_def)
      qed
      then have "content (rb_remove fs l x r) = content (plug ?fs mr)"
        using False Node g content_del_fix [of ?fs mr] by (simp add: rb_remove_def Let_def)
      also have "\<dots> = us @ content l @ content r @ vs"
        using c ws R by (simp add: plug_append)
      finally show ?thesis .
    qed
  qed
qed

section \<open>The whole operation\<close>

definition finish :: "ptr \<Rightarrow> bool \<Rightarrow> ptr \<Rightarrow> 'a rbtree \<Rightarrow> 'a rbtree option" where
  "finish node isblack subst t3 = do {
     t4 \<leftarrow> rbt_clear_node node t3;
     if isblack then rbtree_delete_fixup subst t4 else Some t4
   }"

lemma util_rbtree_delete_unlink:
  "util_rbtree_delete (At a) t0 = do {
     let t = t0\<lparr>size := size t0 - 1\<rparr>;
     (temp, subst) \<leftarrow> delete_pos (At a) t;
     if temp = root t
     then do { t1 \<leftarrow> util_rbt_black subst (t\<lparr>root := subst\<rparr>); rbt_clear_node temp t1 }
     else do {
       isblack \<leftarrow> util_rbt_isblack t temp;
       tp \<leftarrow> get_parent t temp;
       t2 \<leftarrow> unlink temp subst (if tp = At a then temp else tp) t;
       t3 \<leftarrow> (if temp \<noteq> At a then replace_node (At a) temp t2 else Some t2);
       finish (At a) isblack subst t3
     }
   }"
  by (simp add: util_rbtree_delete_def unlink_def [abs_def] finish_def [abs_def] Let_def case_prod_unfold cong: if_cong)

lemma clear_run: "heap t a = Some n \<Longrightarrow> rbt_clear_node (At a) t =
    Some (t\<lparr>heap := (heap t)(a \<mapsto> n\<lparr>left := Null, right := Null, parent := Null\<rparr>)\<rparr>)"
  by (simp add: rbt_clear_node_def store_def)

lemma finish_rep:
  assumes t: "tstate t par (plug fs S)" and nb: "null_black t" and p: "get_parent t (tptr S) = Some (fpar par fs)"
    and a: "heap t a = Some n" "a \<notin> set (taddrs (plug fs S))" and l: "bk \<Longrightarrow> lacking fs S"
  shows "yields (finish (At a) bk (tptr S) t) (\<lambda>t'. tstate t' par (if bk then del_fix fs S else plug fs S) \<and>
    frame (insert a (set (taddrs (plug fs S)))) t t' \<and> heap t' a \<noteq> None)"
proof -
  define t4 where "t4 = t\<lparr>heap := (heap t)(a \<mapsto> n\<lparr>left := Null, right := Null, parent := Null\<rparr>)\<rparr>"
  have 4: "rbt_clear_node (At a) t = Some t4" using clear_run [OF a(1)] by (simp add: t4_def)
  have "rep (heap t4) par (plug fs S)" using t a(2) by (simp add: t4_def tstate_def del: set_taddrs_plug)
  then have t4: "tstate t4 par (plug fs S)" using t by (simp add: tstate_def t4_def)
  have f4: "frame (insert a (set (taddrs (plug fs S)))) t t4" by (simp add: frame_def t4_def)
  show ?thesis
  proof (cases bk)
    case False
    then show ?thesis using 4 t4 f4 by (simp add: finish_def t4_def)
  next
    case True
    have "tptr S \<noteq> At a" using a(2) by simp
    then have "get_parent t4 (tptr S) = Some (fpar par fs)"
      using p by (cases S) (simp_all add: t4_def deref_def)
    then have "dstate t4 par fs S" using t4 nb by (simp add: dstate_def null_black_def t4_def)
    from rbtree_delete_fixup_rep [OF this l [OF True]] obtain t5 where
      5: "rbtree_delete_fixup (tptr S) t4 = Some t5" "tstate t5 par (del_fix fs S)"
      "same_outside (set (taddrs (plug fs S))) t4 t5" unfolding yields_def by blast
    have "heap t5 a = heap t4 a" using 5(3) a(2) by (simp add: same_outside_def)
    moreover have "frame (insert a (set (taddrs (plug fs S)))) t t5"
      using f4 5(3) by (simp add: frame_def same_outside_def)
    ultimately show ?thesis using 4 5 True by (simp add: finish_def t4_def)
  qed
qed

lemma balanced_black_cell: "\<lbrakk>invc (plug fs (Node l x r)); invh (plug fs (Node l x r))\<rbrakk> \<Longrightarrow> ccol x = 0 \<or> ccol x = 1"
  using plug_balanced [of fs "Node l x r"] by auto

text \<open>What the deletion of the cell \<open>x\<close> at the position \<open>fs\<close> promises.\<close>

definition removed :: "'a rbtree \<Rightarrow> ptr \<Rightarrow> 'a level list \<Rightarrow> 'a ctree \<Rightarrow> 'a cell \<Rightarrow> 'a ctree \<Rightarrow> 'a rbtree \<Rightarrow> bool" where
  "removed t par fs l x r t' \<longleftrightarrow>
     tstate t' (if fs = [] \<and> (l = Leaf \<or> r = Leaf) then At (addr x) else par) (rb_remove fs l x r) \<and>
     null_black t' \<and> size t' = size t - 1 \<and> heap t' (addr x) \<noteq> None \<and>
     (\<forall>b. b \<notin> set (taddrs (plug fs (Node l x r))) \<longrightarrow> heap t' b = heap t b)"

lemma delete_root_one:
  assumes t: "tstate t par (Node l x r)" and nb: "null_black t"
    and S: "l = Leaf \<and> S = r \<or> r = Leaf \<and> S = l"
    and pos: "delete_pos (At (addr x)) (t\<lparr>size := size t - 1\<rparr>) = Some (At (addr x), tptr S)"
  shows "yields (util_rbtree_delete (At (addr x)) t) (removed t par [] l x r)"
proof -
  let ?t = "t\<lparr>size := size t - 1, root := tptr S\<rparr>"
  obtain n where n: "heap t (addr x) = Some n" using t by (simp add: tstate_def)
  have dS: "distinct (taddrs S)" "addr x \<notin> set (taddrs S)" "set (taddrs S) \<subseteq> set (taddrs (Node l x r))"
    using t S by (auto simp: tstate_def)
  have rt: "root t = At (addr x)" using t by (simp add: tstate_def)
  have tS: "tstate ?t (At (addr x)) S" using t S dS by (auto simp: tstate_def)
  have fin: "\<exists>t1. util_rbt_black (tptr S) ?t = Some t1 \<and> tstate t1 (At (addr x)) (paint 1 S) \<and>
      same_outside (set (taddrs S)) ?t t1"
  proof (cases S)
    case Leaf
    have "null t\<lparr>color := 1\<rparr> = null t" using nb by (cases "null t") (simp add: null_black_def)
    then show ?thesis using Leaf tS by (simp add: util_rbt_black_def store_def same_outside_def tstate_def)
  next
    case (Node sl y sr)
    then show ?thesis using paint_sub [of ?t "At (addr x)" "[]" S 1] tS by (auto simp: yields_def util_rbt_black_def)
  qed
  then obtain t1 where 1: "util_rbt_black (tptr S) ?t = Some t1" "tstate t1 (At (addr x)) (paint 1 S)"
    "same_outside (set (taddrs S)) ?t t1" by blast
  have h1: "heap t1 (addr x) = Some n" using 1(3) dS(2) n by (simp add: same_outside_def)
  let ?t' = "t1\<lparr>heap := (heap t1)(addr x \<mapsto> n\<lparr>left := Null, right := Null, parent := Null\<rparr>)\<rparr>"
  have "util_rbtree_delete (At (addr x)) t = Some ?t'"
    using pos rt 1(1) clear_run [OF h1] by (simp add: util_rbtree_delete_unlink)
  moreover have "tstate ?t' (At (addr x)) (paint 1 S)" using 1(2) dS(2) by (simp add: tstate_def)
  moreover have "rb_remove [] l x r = paint 1 S" using S by (auto simp: rb_remove_def split: ctree.split)
  moreover have "null_black ?t'" "size ?t' = size t - 1" using 1(3) nb by (simp_all add: same_outside_def null_black_def)
  moreover have "heap ?t' b = heap t b" if "b \<notin> set (taddrs (Node l x r))" for b
    using that dS(3) 1(3) by (auto simp: same_outside_def)
  moreover have "l = Leaf \<or> r = Leaf" using S by blast
  ultimately show ?thesis by (simp add: removed_def)
qed

lemma rb_remove_one:
  assumes "l = Leaf \<and> S = r \<or> r = Leaf \<and> S = l" "fs \<noteq> []"
  shows "rb_remove fs l x r = (if ccol x = 1 then del_fix fs S else plug fs S)"
  using assms by (auto simp: rb_remove_def split: ctree.split)

lemma delete_inner_one:
  assumes t: "tstate t par (plug (f # fs) (Node l x r))" and nb: "null_black t"
    and b: "invc (plug (f # fs) (Node l x r))" "invh (plug (f # fs) (Node l x r))"
    and S: "l = Leaf \<and> S = r \<or> r = Leaf \<and> S = l"
    and pos: "delete_pos (At (addr x)) (t\<lparr>size := size t - 1\<rparr>) = Some (At (addr x), tptr S)"
  shows "yields (util_rbtree_delete (At (addr x)) t) (removed t par (f # fs) l x r)"
proof -
  let ?t = "t\<lparr>size := size t - 1\<rparr>" and ?x = "addr x" and ?z = "addr (lcell f)"
  let ?A = "set (taddrs (plug (f # fs) (Node l x r)))"
  have t': "tstate ?t par (plug (f # fs) (Node l x r))" using t by (simp add: tstate_def)
  have d: "distinct (faddrs (f # fs) @ taddrs (Node l x r))" using t by (simp only: tstate_def distinct_plug)
  have xz: "?x \<noteq> ?z" using d by auto
  have rt: "root ?t \<noteq> At ?x" by (rule root_not_focus [OF t']) simp
  have bk: "util_rbt_isblack ?t (At ?x) = Some (ccol x = 1)"
    using color_at [OF t'] by (simp add: util_rbt_isblack_def)
  have tp: "get_parent ?t (At ?x) = Some (At ?z)" using tstate_deref [OF t'] by simp
  from unlink_rep [OF t' S, of "At ?z"] obtain t2 where
    2: "unlink (At ?x) (tptr S) (At ?z) ?t = Some t2" "root t2 = root t"
      "repf (heap t2) par (f # fs) (tptr S)" "rep (heap t2) (At ?z) S" "heap t2 ?x = heap t ?x"
      "frame (set (taddrs S) \<union> {?z}) ?t t2" "get_parent t2 (tptr S) = Some (At ?z)"
    unfolding yields_def by auto
  have dS: "distinct (faddrs (f # fs) @ taddrs S)" "?x \<notin> set (taddrs (plug (f # fs) S))"
    "set (taddrs (plug (f # fs) S)) \<subseteq> ?A" using d S by auto
  have "root t = tptr (plug (f # fs) (Node l x r))" using t by (simp add: tstate_def)
  then have "root t = tptr (plug (f # fs) S)" using root_plug_cong [of "f # fs"] by blast
  then have t2: "tstate t2 par (plug (f # fs) S)"
    unfolding tstate_def rep_plug distinct_plug using 2(2-4) dS(1) by (simp del: repf.simps plug.simps)
  have nb2: "null_black t2" using 2(6) nb by (simp add: frame_def null_black_def)
  obtain n where n: "heap t2 ?x = Some n" using 2(5) tstate_deref [OF t] by (auto simp: deref_def)
  from finish_rep [OF t2 nb2 _ n dS(2), of "ccol x = 1"] 2(7) one_child_lacking(1) [OF b S] obtain t3 where
    3: "finish (At ?x) (ccol x = 1) (tptr S) t2 = Some t3"
      "tstate t3 par (if ccol x = 1 then del_fix (f # fs) S else plug (f # fs) S)"
      "frame (insert ?x (set (taddrs (plug (f # fs) S)))) t2 t3" "heap t3 ?x \<noteq> None"
    unfolding yields_def by auto
  have "util_rbtree_delete (At ?x) t = Some t3"
    using pos rt bk tp 2(1) 3(1) xz by (simp add: util_rbtree_delete_unlink)
  moreover have "null_black t3" "size t3 = size t - 1"
    using 2(6) 3(3) nb by (simp_all add: frame_def null_black_def)
  moreover have "heap t3 c = heap t c" if "c \<notin> ?A" for c
    using that 2(6) 3(3) dS(3) S by (auto simp: frame_def)
  ultimately show ?thesis
    using 3(2,4) rb_remove_one [OF S, of "f # fs" x] by (simp add: removed_def del: plug.simps del_fix.simps)
qed

lemma tptr_plug_Node: "tptr (plug fs (Node a x b)) = tptr (plug fs (Node c x d))"
  by (cases fs) (simp_all add: tptr_plug del: plug.simps(2,3))

text \<open>The position of the successor, and the subtree below the deleted node after it is unlinked.\<close>

lemma successor_position:
  assumes t: "tstate t par (plug fs (Node l x (Node rl y rr)))" and l: "l \<noteq> Leaf"
    and g: "lmost [] y rr rl = (gs, m, mr)"
  shows "tstate t par (plug (gs @ RightOf l x # fs) (Node Leaf m mr))"
    "delete_pos (At (addr x)) t = Some (At (addr m), tptr mr)"
    "get_parent t (At (addr m)) = Some (At (addr (lcell (hd (gs @ [RightOf l x])))))"
    "(addr (lcell (hd (gs @ [RightOf l x]))) = addr x) = (gs = [])"
proof -
  have eq: "plug (gs @ RightOf l x # fs) (Node Leaf m mr) = plug fs (Node l x (Node rl y rr))"
    and hd: "addr m = fst (hd (content (Node rl y rr)))"
    using lmost_plug [OF g, of "RightOf l x # fs"] by simp_all
  then show t': "tstate t par (plug (gs @ RightOf l x # fs) (Node Leaf m mr))" using t by simp
  have "tstate t par (plug (RightOf l x # fs) (Node rl y rr))" using t by simp
  from rbt_leftmost_rep [OF this] have lm: "rbt_leftmost t (At (addr y)) = Some (At (addr m))"
    by (simp add: hd del: content_simps)
  have dm: "get_left t (At (addr m)) = Some Sentinel" "get_right t (At (addr m)) = Some (tptr mr)"
    "get_parent t (At (addr m)) = Some (fpar par (gs @ RightOf l x # fs))"
    using tstate_deref [OF t'] by simp_all
  have dx: "get_left t (At (addr x)) = Some (tptr l)" "get_right t (At (addr x)) = Some (At (addr y))"
    using tstate_deref [OF t] by simp_all
  show "delete_pos (At (addr x)) t = Some (At (addr m), tptr mr)"
    using dx dm lm l by (cases l) (simp_all add: delete_pos_def util_rbsubtree_min_def)
  show "get_parent t (At (addr m)) = Some (At (addr (lcell (hd (gs @ [RightOf l x])))))"
    using dm(3) by (cases gs) simp_all
  have "distinct (faddrs (gs @ RightOf l x # fs))"
    using t' unfolding tstate_def distinct_plug by simp
  then show "(addr (lcell (hd (gs @ [RightOf l x]))) = addr x) = (gs = [])"
    by (cases gs) (auto simp: faddrs_def)
qed

lemma successor_unlinked:
  assumes "repf h par (gs @ RightOf l x # fs) (tptr mr)" "rep h p' mr"
    and "p' = (if gs = [] then At m else At (addr (lcell (hd gs))))"
  shows "\<exists>q. repf h par (RightOf l x # fs) (tptr (plug gs mr)) \<and> rep h q (plug gs mr)"
proof (cases gs)
  case Nil
  then show ?thesis using assms by auto
next
  case (Cons f hs)
  then have "p' = fpar par (gs @ RightOf l x # fs)" using assms(3) by simp
  then have "rep h par (plug (gs @ RightOf l x # fs) mr)" using assms(1,2) by (simp only: rep_plug)
  then have "rep h par (plug (RightOf l x # fs) (plug gs mr))" by (simp only: plug_append)
  then show ?thesis unfolding rep_plug by blast
qed

lemma delete_two:
  assumes t: "tstate t par (plug fs (Node l x (Node rl y rr)))" and nb: "null_black t" and l: "l \<noteq> Leaf"
    and b: "balanced (plug fs (Node l x (Node rl y rr)))"
  shows "yields (util_rbtree_delete (At (addr x)) t) (removed t par fs l x (Node rl y rr))"
proof -
  let ?t = "t\<lparr>size := size t - 1\<rparr>" and ?x = "addr x"
  let ?A = "set (taddrs (plug fs (Node l x (Node rl y rr))))"
  obtain gs m mr where g: "lmost [] y rr rl = (gs, m, mr)" by (cases "lmost [] y rr rl")
  let ?m = "addr m"
  let ?x' = "Cell ?m (ckey m) (ccol x) (cdat m)"
  let ?F = "gs @ RightOf l x # fs" and ?F' = "gs @ RightOf l ?x' # fs"
  let ?R = "plug gs mr"
  define p' where "p' = (if gs = [] then At ?m else At (addr (lcell (hd gs))))"
  have t0: "tstate ?t par (plug fs (Node l x (Node rl y rr)))" using t by (simp add: tstate_def)
  note sp = successor_position [OF t0 l g]
  obtain f0 fs0 where F: "?F = f0 # fs0" "f0 = hd (gs @ [RightOf l x])" by (cases gs) auto
  have tm: "tstate ?t par (plug (f0 # fs0) (Node Leaf m mr))" using sp(1) unfolding F(1) .
  have eqR: "plug ?F T = plug fs (Node l x (plug gs T))" for T by (simp add: plug_append)
  have A: "?A = set (taddrs (plug ?F (Node Leaf m mr)))" using lmost_plug [OF g, of "RightOf l x # fs"] by simp
  have d: "distinct (faddrs ?F @ taddrs (Node Leaf m mr))" using tm unfolding F(1) [symmetric] tstate_def distinct_plug by simp
  then have "distinct (taddrs (plug ?F mr))" "?m \<notin> set (taddrs (plug ?F mr))" by (auto simp: distinct_plug)
  then have dR: "distinct (faddrs fs @ taddrs (Node l x ?R))" "?m \<notin> set (faddrs fs @ taddrs (Node l x ?R))"
    unfolding eqR distinct_plug by simp_all
  have sub: "insert ?m (set (taddrs (plug fs (Node l x ?R)))) = ?A" unfolding A eqR [symmetric] by simp
  have rt: "root ?t \<noteq> At ?m" by (rule root_not_focus [OF tm]) simp
  have bk: "util_rbt_isblack ?t (At ?m) = Some (ccol m = 1)"
    using color_at [OF sp(1)] by (simp add: util_rbt_isblack_def)
  have p'_eq: "(if At (addr (lcell f0)) = At ?x then At ?m else At (addr (lcell f0))) = p'"
    using sp(4) F(2) by (cases gs) (simp_all add: p'_def)
  from unlink_rep [OF tm, of mr p'] obtain t2 where
    2: "unlink (At ?m) (tptr mr) p' ?t = Some t2" "root t2 = root t"
      "repf (heap t2) par ?F (tptr mr)" "rep (heap t2) p' mr" "heap t2 ?m = heap t ?m"
      "frame (set (taddrs mr) \<union> {addr (lcell f0)}) ?t t2" "get_parent t2 (tptr mr) = Some p'"
    unfolding yields_def F(1) by auto
  from successor_unlinked [OF 2(3,4) p'_def] obtain q where
    q: "repf (heap t2) par (RightOf l x # fs) (tptr ?R)" "rep (heap t2) q ?R" by blast
  have r2: "root t2 = tptr (plug fs (Node l x ?R))"
    using t 2(2) tptr_plug_Node [of fs l x "Node rl y rr" l ?R] by (simp add: tstate_def)
  obtain nm where nm: "heap t2 ?m = Some nm" "key nm = ckey m" "data nm = cdat m"
    using 2(5) tstate_deref [OF sp(1)] by (auto simp: deref_def)
  from replace_node_rep [OF _ r2 _ _ q(2) nm(1) dR(2,1)] q(1) nm obtain t3 where
    3: "replace_node (At ?x) (At ?m) t2 = Some t3" "tstate t3 par (plug fs (Node l ?x' ?R))"
      "same_outside ?A t2 t3" "heap t3 ?x = heap t2 ?x"
    unfolding yields_def sub by auto
  have t3: "tstate t3 par (plug ?F' mr)" using 3(2) by (simp add: plug_append)
  have nb3: "null_black t3" using 3(3) 2(6) nb by (simp add: null_black_def frame_def same_outside_def)
  have x3: "?x \<notin> set (taddrs (plug ?F' mr))" using dR(1) d by (auto simp: plug_append faddrs_def)
  obtain n where n: "heap t3 ?x = Some n" using 3(4) q(1) by auto
  have p3: "get_parent t3 (tptr mr) = Some (fpar par ?F')"
  proof (cases mr)
    case Leaf
    then show ?thesis using 2(7) 3(3) by (cases gs) (simp_all add: deref_def same_outside_def p'_def)
  next
    case (Node a z c)
    then show ?thesis using tstate_deref [OF t3 [unfolded Node]] by simp
  qed
  have lack: "lacking ?F' mr" if "ccol m = 1"
  proof -
    have "plug ?F (Node Leaf m mr) = plug fs (Node l x (Node rl y rr))"
      using lmost_plug [OF g, of "RightOf l x # fs"] by simp
    then have "lacking ?F mr"
      using one_child_lacking(1) [of ?F Leaf m mr mr] b that by (simp add: balanced_def)
    then show ?thesis using fits_cell_cong(1) [of ?x' x] by (simp add: lacking_def)
  qed
  from finish_rep [OF t3 nb3 p3 n x3, of "ccol m = 1"] lack obtain t4 where
    4: "finish (At ?x) (ccol m = 1) (tptr mr) t3 = Some t4"
      "tstate t4 par (if ccol m = 1 then del_fix ?F' mr else plug ?F' mr)"
      "frame (insert ?x (set (taddrs (plug ?F' mr)))) t3 t4" "heap t4 ?x \<noteq> None"
    unfolding yields_def by auto
  have xm: "?x \<noteq> ?m" using d by (auto simp: faddrs_def)
  have "util_rbtree_delete (At ?x) t = Some t4"
    using sp(2) sp(3) [folded F(2)] rt bk 2(1) 3(1) 4(1) p'_eq xm
    by (cases "addr (lcell f0) = ?x") (auto simp: util_rbtree_delete_unlink)
  moreover have "rb_remove fs l x (Node rl y rr) = (if ccol m = 1 then del_fix ?F' mr else plug ?F' mr)"
    using l g by (simp add: rb_remove_def Let_def)
  moreover have "null_black t4" "size t4 = size t - 1"
    using 2(6) 3(3) 4(3) nb by (simp_all add: frame_def null_black_def same_outside_def)
  moreover have "heap t4 c = heap t c" if "c \<notin> ?A" for c
  proof -
    have "insert ?x (set (taddrs (plug ?F' mr))) \<subseteq> ?A" unfolding A by (auto simp: faddrs_def)
    moreover have "addr (lcell f0) \<in> set (faddrs ?F)" unfolding F(1) by simp
    then have "set (taddrs mr) \<union> {addr (lcell f0)} \<subseteq> ?A" unfolding A by auto
    ultimately have "c \<notin> insert ?x (set (taddrs (plug ?F' mr)))" "c \<notin> set (taddrs mr) \<union> {addr (lcell f0)}"
      using that by blast+
    then show ?thesis using that 2(6) 3(3) 4(3) by (simp add: frame_def same_outside_def)
  qed
  ultimately show ?thesis using 4(2,4) l by (simp add: removed_def)
qed

theorem util_rbtree_delete_rep:
  assumes t: "tstate t par (plug fs (Node l x r))" and nb: "null_black t"
    and b: "balanced (plug fs (Node l x r))"
  shows "yields (util_rbtree_delete (At (addr x)) t) (removed t par fs l x r)"
proof -
  let ?t = "t\<lparr>size := size t - 1\<rparr>"
  have t': "tstate ?t par (plug fs (Node l x r))" using t by (simp add: tstate_def)
  note d = tstate_deref [OF t']
  have i: "invc (plug fs (Node l x r))" "invh (plug fs (Node l x r))" using b by (simp_all add: balanced_def)
  have one: ?thesis if S: "l = Leaf \<and> S = r \<or> r = Leaf \<and> S = l"
    and pos: "delete_pos (At (addr x)) ?t = Some (At (addr x), tptr S)" for S
    using delete_root_one [OF _ nb S pos, of par] delete_inner_one [OF _ nb _ _ S pos, of par] t i
    by (cases fs) simp_all
  show ?thesis
  proof (cases r)
    case Leaf
    then show ?thesis using d by (intro one [of l]) (cases l; simp add: delete_pos_def)+
  next
    case (Node rl y rr)
    show ?thesis
    proof (cases "l = Leaf")
      case True
      then show ?thesis using d by (intro one [of r]) (simp_all add: delete_pos_def)
    next
      case False
      then show ?thesis using delete_two [OF t [unfolded Node] nb False] b by (simp add: Node)
    qed
  qed
qed

section \<open>Properties\<close>

lemma root_one_child_size:
  assumes "balanced (Node l x r)" "l = Leaf \<or> r = Leaf"
  shows "length (content (Node l x r)) \<le> 2"
proof -
  have small: "content S = [] \<or> (\<exists>e. content S = [e])" if "bheight S = 0" "invc S" "invh S" for S :: "'a ctree"
  proof (cases S)
    case (Node a y b)
    then have "a = Leaf" "b = Leaf" using that by (cases a; cases b; auto split: if_splits)+
    then show ?thesis using Node by simp
  qed simp
  have "invc l" "invc r" "invh l" "invh r" "bheight l = 0" "bheight r = 0"
    using assms by (auto simp: balanced_def)
  from small [OF this(5,1,3)] small [OF this(6,2,4)] show ?thesis using assms(2) by auto
qed

lemma distinct_content: "distinct (taddrs T) \<Longrightarrow> distinct (map fst (content T))"
  by (simp add: taddrs_content)

lemma delete_at_position:
  assumes ok: "rb_at t par T" and T: "T = plug fs (Node l x r)"
  shows "\<exists>t'. util_rbtree_delete (At (addr x)) t = Some t' \<and>
    rb_at t' (if fs = [] \<and> (l = Leaf \<or> r = Leaf) then At (addr x) else par) (rb_remove fs l x r) \<and>
    content (rb_remove fs l x r) = filter (\<lambda>y. fst y \<noteq> addr x) (content T) \<and> size t' = size t - 1 \<and>
    heap t' (addr x) \<noteq> None \<and> (\<forall>b. b \<notin> set (taddrs T) \<longrightarrow> heap t' b = heap t b)"
proof -
  have ok': "tstate t par T" "null_black t" "balanced T" "bst T"
    using ok by (simp_all add: rb_at_def balanced_def)
  from util_rbtree_delete_rep [of t par fs l x r] ok' obtain t' where
    1: "util_rbtree_delete (At (addr x)) t = Some t'" "removed t par fs l x r t'"
    unfolding yields_def T by auto
  obtain us vs where c: "\<And>S. content (plug fs S) = us @ content S @ vs" using content_context by blast
  have b: "balanced (plug fs (Node l x r))" using ok' T by simp
  let ?T = "rb_remove fs l x r"
  have "distinct (map fst (content T))" using ok'(1) by (intro distinct_content) (simp add: tstate_def)
  then have "\<forall>y \<in> set (us @ content l @ content r @ vs). fst y \<noteq> addr x"
    by (auto simp: T c image_iff)
  then have eq: "content ?T = filter (\<lambda>y. fst y \<noteq> addr x) (content T)"
    unfolding content_rb_remove [OF b c] by (simp add: T c filter_id_conv)
  have "sorted (map (fst \<circ> snd) (content T))" using ok'(4) by (simp add: bst_def ckey_content)
  then have "bst ?T" unfolding bst_def ckey_content eq by (rule sorted_filter)
  then have "rb_at t' (if fs = [] \<and> (l = Leaf \<or> r = Leaf) then At (addr x) else par) ?T"
    using 1(2) rb_remove_balanced [OF b] by (auto simp: rb_at_def removed_def balanced_def)
  moreover have "size t' = size t - 1" "heap t' (addr x) \<noteq> None"
    "\<forall>b. b \<notin> set (taddrs T) \<longrightarrow> heap t' b = heap t b"
    using 1(2) by (simp_all only: removed_def T) blast+
  ultimately show ?thesis using 1(1) eq by blast
qed

lemma delete_ok:
  assumes ok: "rb_at t par T" and a: "a \<in> set (taddrs T)"
  shows "\<exists>t' par' T'. util_rbtree_delete (At a) t = Some t' \<and> rb_at t' par' T' \<and>
    content T' = filter (\<lambda>y. fst y \<noteq> a) (content T) \<and> size t' = size t - 1 \<and> heap t' a \<noteq> None \<and>
    (\<forall>b. b \<notin> set (taddrs T) \<longrightarrow> heap t' b = heap t b) \<and>
    (par' = par \<or> par' = At a \<and> root t = At a \<and> length (content T) \<le> 2)"
proof -
  obtain fs l x r where T: "T = plug fs (Node l x r)" and x: "addr x = a" using split_position [OF a] by blast
  have "root t = At a \<and> length (content T) \<le> 2" if "fs = []" "l = Leaf \<or> r = Leaf"
  proof -
    have "balanced (Node l x r)" "root t = At (addr x)"
      using ok that(1) by (auto simp: T rb_at_def tstate_def balanced_def)
    then show ?thesis using root_one_child_size [of l x r] that by (simp add: T x)
  qed
  then have "(if fs = [] \<and> (l = Leaf \<or> r = Leaf) then At a else par) = par \<or>
    (if fs = [] \<and> (l = Leaf \<or> r = Leaf) then At a else par) = At a \<and> root t = At a \<and> length (content T) \<le> 2"
    by simp
  then show ?thesis using delete_at_position [OF ok T] unfolding x by blast
qed

text \<open>C26: \<open>util_rbtree_delete\<close> of a node of a correct tree succeeds: no null or dangling access, and the
  fix-up loop ends. Exactly that node leaves the tree, the search order and the red-black invariants
  are kept, the node stays allocated for its owner to free, and nothing outside the tree is written.
  The root's parent link stays on the sentinel, unless the tree had at most two nodes and the root
  itself was deleted; then it is left on the deleted node.\<close>

theorem rbtree_delete_correct:
  assumes ok: "rb_at t par T" and a: "a \<in> set (taddrs T)"
  shows "\<exists>t' par' T'. util_rbtree_delete (At a) t = Some t' \<and> rb_at t' par' T' \<and>
    content T' = filter (\<lambda>y. fst y \<noteq> a) (content T) \<and> size t' = size t - 1 \<and> heap t' a \<noteq> None \<and>
    (\<forall>b. b \<notin> set (taddrs T) \<longrightarrow> heap t' b = heap t b) \<and>
    (par' = par \<or> par' = At a \<and> root t = At a \<and> length (content T) \<le> 2)"
  using assms by (rule delete_ok)

theorem rbtree_delete_correct_witness:
  "\<exists>t t'. rb_new 4 30 (9 :: nat) example_tree = Some t \<and> util_rbtree_delete (At 4) t = Some t' \<and> root t' = Sentinel"
proof -
  have "rb_ok (alloc_node 4 (new_node 30 9) example_tree) Leaf"
    unfolding example_tree_def by (rule rb_at_alloc [OF rb_ok_init]) simp
  from insert_ok [OF this, of 4 "new_node 30 9"] obtain t T where
    t: "rb_new 4 30 9 example_tree = Some t" "rb_ok t T" "content T = [(4, 30, 9)]"
    by (auto simp: alloc_node_def new_node_def rb_new_def)
  have "4 \<in> set (taddrs T)" using t(3) by (simp add: taddrs_content)
  from rbtree_delete_correct [OF t(2) this] t(3) obtain t' par' T' where
    d: "util_rbtree_delete (At 4) t = Some t'" "rb_at t' par' T'" "content T' = []" by auto
  then have "root t' = Sentinel" by (cases T') (auto simp: rb_at_def tstate_def)
  then show ?thesis using t d by blast
qed

section \<open>A parent link into freed memory\<close>










section \<open>The tree as an ordered index\<close>

definition tree_sound :: "'a rbtree \<Rightarrow> (nat \<times> int \<times> 'a) list \<Rightarrow> bool" where
  "tree_sound t ys \<longleftrightarrow> (\<exists>par T. rb_at t par T \<and> content T = ys)"

definition tree_clean :: "'a rbtree \<Rightarrow> (nat \<times> int \<times> 'a) list \<Rightarrow> bool" where
  "tree_clean t ys \<longleftrightarrow> (\<exists>T. rb_ok t T \<and> content T = ys)"

definition tree_fetch :: "'a rbtree \<Rightarrow> ptr \<Rightarrow> (int \<times> 'a) option" where
  "tree_fetch t p = map_option (\<lambda>n. (key n, data n)) (deref t p)"

definition tree_holds :: "'a rbtree \<Rightarrow> nat \<Rightarrow> int \<Rightarrow> 'a \<Rightarrow> bool" where
  "tree_holds t a k d \<longleftrightarrow> (\<exists>n. heap t a = Some n \<and> key n = k \<and> data n = d)"

lemma rep_cell: "\<lbrakk>rep h par T; x \<in> set (cells T)\<rbrakk> \<Longrightarrow>
    \<exists>n. h (addr x) = Some n \<and> key n = ckey x \<and> data n = cdat x"
  by (induction T arbitrary: par) auto

lemma fetch_content:
  assumes "tstate t par T" "(a, k, d) \<in> set (content T)"
  shows "tree_fetch t (At a) = Some (k, d)"
  using assms rep_cell [of "heap t" par T] by (fastforce simp: content_def tree_fetch_def deref_def tstate_def)

lemma addr_content: "a \<in> set (taddrs T) \<longleftrightarrow> a \<in> fst ` set (content T)"
  by (simp add: taddrs_content)

lemma tree_remove_law:
  assumes "tree_sound m ys" "a \<in> fst ` set ys"
  shows "\<exists>m'. util_rbtree_delete (At a) m = Some m' \<and> tree_sound m' (filter (\<lambda>y. fst y \<noteq> a) ys) \<and>
    (tree_clean m ys \<longrightarrow> 2 < length ys \<longrightarrow> tree_clean m' (filter (\<lambda>y. fst y \<noteq> a) ys))"
proof -
  have del: "\<exists>m' par' T'. util_rbtree_delete (At a) m = Some m' \<and> rb_at m' par' T' \<and>
      content T' = filter (\<lambda>y. fst y \<noteq> a) ys \<and> (2 < length ys \<longrightarrow> par' = par)"
    if rb: "rb_at m par T" and c: "content T = ys" for par T
  proof -
    have "a \<in> set (taddrs T)" using assms(2) c by (simp add: addr_content)
    from delete_ok [OF rb this] obtain m' par' T' where "util_rbtree_delete (At a) m = Some m'"
      "rb_at m' par' T'" "content T' = filter (\<lambda>y. fst y \<noteq> a) ys" "par' = par \<or> length ys \<le> 2"
      unfolding c by blast
    then show ?thesis by (intro exI [of _ m'] exI [of _ par'] exI [of _ T']) auto
  qed
  obtain par T where "rb_at m par T" "content T = ys" using assms(1) by (auto simp: tree_sound_def)
  from del [OF this] obtain m' where m': "util_rbtree_delete (At a) m = Some m'"
    "tree_sound m' (filter (\<lambda>y. fst y \<noteq> a) ys)" by (auto simp: tree_sound_def)
  have "tree_clean m' (filter (\<lambda>y. fst y \<noteq> a) ys)" if c: "tree_clean m ys" "2 < length ys"
  proof -
    obtain T where "rb_ok m T" "content T = ys" using c(1) by (auto simp: tree_clean_def)
    from del [OF this] m'(1) c(2) show ?thesis by (auto simp: tree_clean_def)
  qed
  then show ?thesis using m' by blast
qed

interpretation rbi: ordered_index tree_sound tree_clean util_rbtree_search util_rbtree_lookup tree_fetch
  tree_holds "\<lambda>a. util_rbtree_insert (At a)" "\<lambda>a. util_rbtree_delete (At a)"
proof unfold_locales
  fix m :: "'a rbtree" and ys :: "(nat \<times> int \<times> 'a) list" and k a d
  show "tree_clean m ys \<Longrightarrow> tree_sound m ys" by (auto simp: tree_clean_def tree_sound_def)
  show "tree_sound m ys \<Longrightarrow> sorted (keys_of ys) \<and> distinct (map fst ys)"
    by (auto simp: tree_sound_def rb_at_def bst_def ckey_content keys_of_def tstate_def taddrs_content)
  show "tree_sound m ys \<Longrightarrow> \<exists>r. util_rbtree_search m k = Some r \<and> r \<noteq> Sentinel \<and>
      (r = Null \<longleftrightarrow> k \<notin> set (keys_of ys)) \<and> (\<forall>a. r = At a \<longrightarrow> (\<exists>d. (a, k, d) \<in> set ys))"
    unfolding tree_sound_def set_keys_of using search_ok by blast
  show "tree_sound m ys \<Longrightarrow> util_rbtree_lookup m k = Some (to_ptr (lookup_of k ys))"
    by (auto simp: tree_sound_def lookup_rep)
  show "\<lbrakk>tree_sound m ys; (a, k, d) \<in> set ys\<rbrakk> \<Longrightarrow> tree_fetch m (At a) = Some (k, d)"
    by (auto simp: tree_sound_def rb_at_def intro: fetch_content)
  show "\<lbrakk>tree_clean m ys; tree_holds m a k d; a \<notin> fst ` set ys\<rbrakk> \<Longrightarrow>
      \<exists>m'. util_rbtree_insert (At a) m = Some m' \<and> tree_clean m' (insert_entry a k d ys)"
    unfolding tree_clean_def tree_holds_def insert_entry_def using insert_ok addr_content by blast
  show "\<lbrakk>tree_sound m ys; a \<in> fst ` set ys\<rbrakk> \<Longrightarrow>
      \<exists>m'. util_rbtree_delete (At a) m = Some m' \<and> tree_sound m' (filter (\<lambda>y. fst y \<noteq> a) ys) \<and>
        (tree_clean m ys \<longrightarrow> 2 < length ys \<longrightarrow> tree_clean m' (filter (\<lambda>y. fst y \<noteq> a) ys))"
    by (rule tree_remove_law)
qed

end
