(* ===== verification/Conhash.thy ===== *)
theory Conhash
  imports OrderedIndex RbRemove
begin

text \<open>
  Consistent hashing (BaseLayer/libconhash/conhash.c, conhash_inter.c, conhash_util.c): nodes are
  spread over the tree of virtual nodes by hashing "iden-NNN" for each replica; an object belongs to
  the node of the first virtual node at or behind its hash.

  A node is identified by its address; \<open>malloc\<close> is a parameter \<open>mal\<close>: given which addresses
  are in use it returns a block (with whatever bytes it holds) or \<open>None\<close>. The hash function the
  caller supplies is a field, as in the code. Reading a name without terminator is \<open>None\<close>.
\<close>

section \<open>State\<close>

definition NODE_FLAG_INIT :: u32 where "NODE_FLAG_INIT = 1"

definition NODE_FLAG_IN :: u32 where "NODE_FLAG_IN = 2"

record node_s =
  iden :: "u8 list"
  replicas :: u32
  flag :: u32

record virtual_node_s =
  hash :: int
  node :: nat

record conhash_s =
  vnode_tree :: "virtual_node_s rbtree"
  ivnodes :: u32
  cb_hashfunc :: "u8 list \<Rightarrow> int"

type_synonym allocator = "(nat \<Rightarrow> bool) \<Rightarrow> (nat \<times> virtual_node_s rbnode) option"

section \<open>Names of virtual nodes\<close>

text \<open>\<open>strncpy(dst, s, n)\<close> into the first \<open>n\<close> bytes, padding with zeros.\<close>

definition strncpy :: "u8 list \<Rightarrow> u8 list \<Rightarrow> nat \<Rightarrow> u8 list" where
  "strncpy dst s n = take n (takeWhile (\<lambda>c. c \<noteq> 0) s @ replicate n 0) @ drop n dst"

definition conhash_set_node :: "node_s \<Rightarrow> u8 list \<Rightarrow> u32 \<Rightarrow> node_s" where
  "conhash_set_node nd s replica =
     nd\<lparr>iden := strncpy (iden nd) s 63, replicas := replica, flag := NODE_FLAG_INIT\<rparr>"

fun dec_digits :: "nat \<Rightarrow> u8 list" where
  "dec_digits n = (if n < 10 then [of_nat (48 + n)] else dec_digits (n div 10) @ [of_nat (48 + n mod 10)])"

declare dec_digits.simps [simp del]

text \<open>The conversion \<open>%03d\<close>.\<close>

definition fmt_03d :: "int \<Rightarrow> u8 list" where
  "fmt_03d i =
     (let s = dec_digits (nat \<bar>i\<bar>)
      in if i < 0 then 45 # replicate (2 - length s) 48 @ s else replicate (3 - length s) 48 @ s)"

definition conhash_node2string :: "node_s \<Rightarrow> u32 \<Rightarrow> u8 list option" where
  "conhash_node2string nd replica_idx =
     (if 0 \<notin> set (iden nd) then None
      else Some (take 126 (takeWhile (\<lambda>c. c \<noteq> 0) (iden nd) @ 45 # fmt_03d (sint replica_idx))))"

section \<open>Virtual nodes in the tree\<close>

definition allocated :: "virtual_node_s rbtree \<Rightarrow> nat \<Rightarrow> bool" where
  "allocated t a \<longleftrightarrow> heap t a \<noteq> None"

text \<open>Two allocations, the tree node and its data block; the first is freed when the second fails.\<close>

definition conhash_get_rbnode ::
  "allocator \<Rightarrow> nat \<Rightarrow> int \<Rightarrow> virtual_node_s rbtree \<Rightarrow> (nat \<times> virtual_node_s rbtree) option" where
  "conhash_get_rbnode mal n h t =
     (case mal (allocated t) of
        None \<Rightarrow> None
      | Some (a, blk) \<Rightarrow>
          (case mal (\<lambda>b. b = a \<or> allocated t b) of
             None \<Rightarrow> None
           | Some _ \<Rightarrow> Some (a, alloc_node a (blk\<lparr>key := h, data := \<lparr>hash = h, node = n\<rparr>\<rparr>) t)))"

definition conhash_del_rbnode :: "ptr \<Rightarrow> virtual_node_s rbtree \<Rightarrow> virtual_node_s rbtree option" where
  "conhash_del_rbnode p t = (case p of Null \<Rightarrow> None | _ \<Rightarrow> free_node p t)"

fun add_replica :: "allocator \<Rightarrow> nat \<Rightarrow> node_s \<Rightarrow> u32 \<Rightarrow> conhash_s \<Rightarrow> conhash_s option" where
  "add_replica mal n nd i c = do {
     buff \<leftarrow> conhash_node2string nd i;
     let h = cb_hashfunc c buff;
     p \<leftarrow> util_rbtree_search (vnode_tree c) h;
     if p = Null
     then (case conhash_get_rbnode mal n h (vnode_tree c) of
         None \<Rightarrow> Some c
       | Some (a, t) \<Rightarrow> do {
           t' \<leftarrow> util_rbtree_insert (At a) t;
           Some (c\<lparr>vnode_tree := t', ivnodes := ivnodes c + 1\<rparr>)
         })
     else Some c
   }"

fun add_replicas_loop :: "allocator \<Rightarrow> nat \<Rightarrow> node_s \<Rightarrow> nat list \<Rightarrow> conhash_s \<Rightarrow> conhash_s option" where
  "add_replicas_loop mal n nd [] c = Some c"
| "add_replicas_loop mal n nd (i # is) c = do {
     c' \<leftarrow> add_replica mal n nd (of_nat i) c;
     add_replicas_loop mal n nd is c'
   }"

definition conhash_add_replicas :: "allocator \<Rightarrow> nat \<Rightarrow> node_s \<Rightarrow> conhash_s \<Rightarrow> conhash_s option" where
  "conhash_add_replicas mal n nd c = add_replicas_loop mal n nd [0..<unat (replicas nd)] c"

fun del_replica :: "nat \<Rightarrow> node_s \<Rightarrow> u32 \<Rightarrow> conhash_s \<Rightarrow> conhash_s option" where
  "del_replica n nd i c = do {
     buff \<leftarrow> conhash_node2string nd i;
     let h = cb_hashfunc c buff;
     p \<leftarrow> util_rbtree_search (vnode_tree c) h;
     if p \<noteq> Null
     then do {
       rb \<leftarrow> deref (vnode_tree c) p;
       if hash (data rb) = h \<and> node (data rb) = n
       then do {
         t1 \<leftarrow> util_rbtree_delete p (vnode_tree c);
         t2 \<leftarrow> conhash_del_rbnode p t1;
         Some (c\<lparr>vnode_tree := t2, ivnodes := ivnodes c - 1\<rparr>)
       }
       else Some c
     }
     else Some c
   }"

fun del_replicas_loop :: "nat \<Rightarrow> node_s \<Rightarrow> nat list \<Rightarrow> conhash_s \<Rightarrow> conhash_s option" where
  "del_replicas_loop n nd [] c = Some c"
| "del_replicas_loop n nd (i # is) c = do {
     c' \<leftarrow> del_replica n nd (of_nat i) c;
     del_replicas_loop n nd is c'
   }"

definition conhash_del_replicas :: "nat \<Rightarrow> node_s \<Rightarrow> conhash_s \<Rightarrow> conhash_s option" where
  "conhash_del_replicas n nd c = del_replicas_loop n nd [0..<unat (replicas nd)] c"

section \<open>The library's entry points\<close>

text \<open>\<open>calloc\<close> zeroes the block; \<open>hash_def\<close> is the default hash function.\<close>

definition zero_vnode :: "virtual_node_s rbnode" where
  "zero_vnode = \<lparr>key = 0, parent = Null, right = Null, left = Null, color = 0, data = \<lparr>hash = 0, node = 0\<rparr>\<rparr>"

definition conhash_init ::
  "bool \<Rightarrow> (nat \<Rightarrow> virtual_node_s rbnode option) \<Rightarrow> (u8 list \<Rightarrow> int) \<Rightarrow> (u8 list \<Rightarrow> int) option \<Rightarrow> conhash_s option" where
  "conhash_init calloc_ok h hash_def pfhash =
     (if \<not> calloc_ok then None
      else Some \<lparr>vnode_tree = util_rbtree_init \<lparr>root = Null, null = zero_vnode, size = 0, heap = h\<rparr>,
        ivnodes = 0, cb_hashfunc = (case pfhash of Some f \<Rightarrow> f | None \<Rightarrow> hash_def)\<rparr>)"

text \<open>The result of the next two is the return value with the node and the table, which the code
  updates in place; \<open>None\<close> arguments are null pointers.\<close>

definition conhash_add_node :: "allocator \<Rightarrow> conhash_s option \<Rightarrow> (nat \<times> node_s) option \<Rightarrow>
    (int \<times> conhash_s option \<times> (nat \<times> node_s) option) option" where
  "conhash_add_node mal conhash nodep =
     (case (conhash, nodep) of
        (Some c, Some (n, nd)) \<Rightarrow>
          if flag nd AND NODE_FLAG_INIT = 0 \<or> flag nd AND NODE_FLAG_IN \<noteq> 0
          then Some (- 1, conhash, nodep)
          else do {
            let nd' = nd\<lparr>flag := flag nd OR NODE_FLAG_IN\<rparr>;
            c' \<leftarrow> conhash_add_replicas mal n nd' c;
            Some (0, Some c', Some (n, nd'))
          }
      | _ \<Rightarrow> Some (- 1, conhash, nodep))"

definition conhash_del_node :: "conhash_s option \<Rightarrow> (nat \<times> node_s) option \<Rightarrow>
    (int \<times> conhash_s option \<times> (nat \<times> node_s) option) option" where
  "conhash_del_node conhash nodep =
     (case (conhash, nodep) of
        (Some c, Some (n, nd)) \<Rightarrow>
          if flag nd AND NODE_FLAG_INIT = 0 \<or> flag nd AND NODE_FLAG_IN = 0
          then Some (- 1, conhash, nodep)
          else do {
            let nd' = nd\<lparr>flag := flag nd AND NOT NODE_FLAG_IN\<rparr>;
            c' \<leftarrow> conhash_del_replicas n nd' c;
            Some (0, Some c', Some (n, nd'))
          }
      | _ \<Rightarrow> Some (- 1, conhash, nodep))"

definition conhash_lookup :: "conhash_s option \<Rightarrow> u8 list option \<Rightarrow> nat option option" where
  "conhash_lookup conhash obj =
     (case (conhash, obj) of
        (Some c, Some s) \<Rightarrow>
          if ivnodes c = 0 then Some None
          else do {
            p \<leftarrow> util_rbtree_lookup (vnode_tree c) (cb_hashfunc c s);
            if p \<noteq> Null then do { rb \<leftarrow> deref (vnode_tree c) p; Some (Some (node (data rb))) }
            else Some None
          }
      | _ \<Rightarrow> Some None)"

partial_function (option) fini_loop :: "virtual_node_s rbtree \<Rightarrow> virtual_node_s rbtree option" where
  "fini_loop t =
     (if util_rbtree_isempty t then Some t
      else do {
        t1 \<leftarrow> util_rbtree_delete (root t) t;
        t2 \<leftarrow> conhash_del_rbnode (root t) t1;
        fini_loop t2
      })"

declare fini_loop.simps [code]

text \<open>The heap that is left of the table's blocks; a null table is ignored.\<close>

definition conhash_fini :: "conhash_s option \<Rightarrow> (nat \<Rightarrow> virtual_node_s rbnode option) option option" where
  "conhash_fini conhash =
     (case conhash of None \<Rightarrow> Some None
      | Some c \<Rightarrow> map_option (\<lambda>t. Some (heap t)) (fini_loop (vnode_tree c)))"

text \<open>\<open>values\<close> is the caller's array; a write behind its end is \<open>None\<close>.\<close>

definition get_vnodes_cb :: "int \<Rightarrow> virtual_node_s rbnode \<Rightarrow> (int list \<times> int) option \<Rightarrow> (int list \<times> int) option" where
  "get_vnodes_cb sz n s = do {
     (vals, cur) \<leftarrow> s;
     if cur < sz
     then (if nat cur < length vals then Some (vals[nat cur := key n], cur + 1) else None)
     else Some (vals, cur)
   }"

definition conhash_get_vnodes :: "conhash_s option \<Rightarrow> int list option \<Rightarrow> int \<Rightarrow> int list option option" where
  "conhash_get_vnodes conhash vals sz =
     (case (conhash, vals) of
        (Some c, Some v) \<Rightarrow>
          if sz \<le> 0 then Some vals
          else do {
            s \<leftarrow> util_rbtree_mid_travel (vnode_tree c) (get_vnodes_cb sz) (Some (v, 0));
            (v', _) \<leftarrow> s;
            Some (Some v')
          }
      | _ \<Rightarrow> Some vals)"

definition conhash_get_vnodes_num :: "conhash_s option \<Rightarrow> u32" where
  "conhash_get_vnodes_num conhash = (case conhash of None \<Rightarrow> 0 | Some c \<Rightarrow> ivnodes c)"

end
