(* ===== verification/ConhashProps.thy ===== *)
theory ConhashProps
  imports Conhash
begin

text \<open>
  What libconhash promises: adding a node moves objects only to that node, removing it moves only
  its own objects and undoes the addition, the table's counter is the number of virtual nodes, the
  virtual nodes come out in ascending order, and the table frees every virtual node at its end.
\<close>

section \<open>Invariant\<close>

text \<open>\<open>malloc\<close> returns unused blocks.\<close>

definition fresh_blocks :: "allocator \<Rightarrow> bool" where
  "fresh_blocks mal \<longleftrightarrow> (\<forall>used a blk. mal used = Some (a, blk) \<longrightarrow> \<not> used a)"

definition vnodes_ok :: "conhash_s \<Rightarrow> (nat \<times> int \<times> virtual_node_s) list \<Rightarrow> bool" where
  "vnodes_ok c ys \<longleftrightarrow> ivnodes c = of_nat (length ys) \<and> distinct (keys_of ys) \<and>
     (\<forall>y \<in> set ys. hash (snd (snd y)) = fst (snd y))"

definition conhash_sound :: "conhash_s \<Rightarrow> (nat \<times> int \<times> virtual_node_s) list \<Rightarrow> bool" where
  "conhash_sound c ys \<longleftrightarrow> tree_sound (vnode_tree c) ys \<and> vnodes_ok c ys"

definition conhash_ok :: "conhash_s \<Rightarrow> (nat \<times> int \<times> virtual_node_s) list \<Rightarrow> bool" where
  "conhash_ok c ys \<longleftrightarrow> tree_clean (vnode_tree c) ys \<and> vnodes_ok c ys"

lemma conhash_ok_sound: "conhash_ok c ys \<Longrightarrow> conhash_sound c ys"
  by (simp add: conhash_ok_def conhash_sound_def rbi.clean_sound)

lemma conhash_ok_init: "conhash_init True h hdef pf = Some c \<Longrightarrow> conhash_ok c []"
  using rb_ok_init by (force simp: conhash_init_def conhash_ok_def tree_clean_def vnodes_ok_def)

definition node_of :: "nat \<times> int \<times> virtual_node_s \<Rightarrow> nat" where
  "node_of y = node (snd (snd y))"

definition owner_node :: "int \<Rightarrow> (nat \<times> int \<times> virtual_node_s) list \<Rightarrow> nat option" where
  "owner_node k ys = map_option node (owner_of k ys)"

lemma owner_of_nil: "owner_of k ys = None \<longleftrightarrow> ys = []"
  by (auto simp: owner_of_def split: option.splits list.splits)

lemma conhash_lookup_sound:
  assumes "conhash_sound c ys" "length ys < 2 ^ 32"
  shows "conhash_lookup (Some c) (Some s) = Some (owner_node (cb_hashfunc c s) ys)"
proof -
  have s: "tree_sound (vnode_tree c) ys" and n: "ivnodes c = of_nat (length ys)"
    using assms(1) by (simp_all add: conhash_sound_def vnodes_ok_def)
  have z: "ivnodes c = 0 \<longleftrightarrow> ys = []"
  proof -
    have "unat (ivnodes c) = length ys" using assms(2) by (simp add: n unat_of_nat)
    then show ?thesis using unat_eq_zero [of "ivnodes c"] by auto
  qed
  have o: "rbi.owner (vnode_tree c) k = Some (owner_of k ys)" for k by (rule rbi.owner_eq [OF s])
  show ?thesis
  proof (cases "ys = []")
    case True
    then show ?thesis using z by (simp add: conhash_lookup_def owner_node_def owner_of_def)
  next
    case False
    obtain v where v: "owner_of (cb_hashfunc c s) ys = Some v"
      using False owner_of_nil [of "cb_hashfunc c s" ys] by (cases "owner_of (cb_hashfunc c s) ys") simp_all
    obtain a where "lookup_of (cb_hashfunc c s) ys = Some a"
      using False by (cases ys; cases "ceiling_of (cb_hashfunc c s) ys") (simp_all add: lookup_of_def del: ceiling_simps)
    then obtain p where p: "util_rbtree_lookup (vnode_tree c) (cb_hashfunc c s) = Some p" "p \<noteq> Null"
      using rbi.lookup_law [OF s, of "cb_hashfunc c s"] by simp
    then obtain e where e: "tree_fetch (vnode_tree c) p = Some e" "snd e = v"
      using o [of "cb_hashfunc c s"] v by (cases "tree_fetch (vnode_tree c) p") (simp_all add: rbi.owner_def)
    then obtain rb where "deref (vnode_tree c) p = Some rb" "data rb = v"
      by (cases "deref (vnode_tree c) p") (auto simp: tree_fetch_def)
    then show ?thesis using p z False v by (simp add: conhash_lookup_def owner_node_def)
  qed
qed

section \<open>Adding replicas\<close>

lemma tree_alloc: "\<lbrakk>tree_clean t ys; a \<notin> fst ` set ys\<rbrakk> \<Longrightarrow> tree_clean (alloc_node a n t) ys"
  unfolding tree_clean_def using rb_at_alloc addr_content by blast

lemma used_allocated: "\<lbrakk>tree_sound t ys; a \<in> fst ` set ys\<rbrakk> \<Longrightarrow> allocated t a"
  using rbi.fetch_law by (fastforce simp: allocated_def tree_fetch_def deref_def)

lemma insert_entry_set: "sorted (keys_of ys) \<Longrightarrow> set (insert_entry a k d ys) = insert (a, k, d) (set ys)"
  by (auto simp: insert_entry_def keys_upto_def keys_beyond_def)

lemma insert_entry_filter: "\<lbrakk>sorted (keys_of ys); \<not> P (a, k, d)\<rbrakk> \<Longrightarrow>
    filter P (insert_entry a k d ys) = filter P (keys_upto k ys @ keys_beyond k ys)"
  by (simp add: insert_entry_def)

lemma split_entries: "sorted (keys_of ys) \<Longrightarrow> keys_upto k ys @ keys_beyond k ys = ys"
proof (induction ys)
  case (Cons y ys)
  show ?case
  proof (cases "fst (snd y) \<le> k")
    case False
    then have "\<forall>z \<in> set ys. k < fst (snd z)" using Cons.prems by (force simp: set_keys_of)
    then have "keys_upto k ys = []" "keys_beyond k ys = ys"
      by (auto simp: keys_upto_def keys_beyond_def filter_empty_conv filter_id_conv)
    then show ?thesis using False by simp
  qed (use Cons in simp)
qed simp

text \<open>What one or more additions for node \<open>n\<close> do to the entries.\<close>

definition only_adds :: "nat \<Rightarrow> (nat \<times> int \<times> virtual_node_s) list \<Rightarrow> (nat \<times> int \<times> virtual_node_s) list \<Rightarrow> bool" where
  "only_adds n ys ys' \<longleftrightarrow> set ys \<subseteq> set ys' \<and> (\<forall>y \<in> set ys' - set ys. node_of y = n) \<and>
     filter (\<lambda>y. node_of y \<noteq> n) ys' = filter (\<lambda>y. node_of y \<noteq> n) ys \<and>
     (\<forall>k. owner_node k ys' \<in> {owner_node k ys, Some n})"

lemma only_adds_refl: "only_adds n ys ys"
  by (simp add: only_adds_def)

lemma only_adds_trans: "\<lbrakk>only_adds n xs ys; only_adds n ys zs\<rbrakk> \<Longrightarrow> only_adds n xs zs"
proof -
  assume a: "only_adds n xs ys" and b: "only_adds n ys zs"
  have "owner_node k zs \<in> {owner_node k xs, Some n}" for k
  proof -
    have "owner_node k ys \<in> {owner_node k xs, Some n}" "owner_node k zs \<in> {owner_node k ys, Some n}"
      using a b by (simp_all add: only_adds_def)
    then show ?thesis by auto
  qed
  moreover have "set xs \<subseteq> set zs" "\<forall>y \<in> set zs - set xs. node_of y = n"
    "filter (\<lambda>y. node_of y \<noteq> n) zs = filter (\<lambda>y. node_of y \<noteq> n) xs"
    using a b by (auto simp: only_adds_def)
  ultimately show ?thesis by (simp add: only_adds_def)
qed

lemma insert_only_adds:
  assumes s: "sorted (keys_of ys)"
  shows "only_adds n ys (insert_entry a k \<lparr>hash = h, node = n\<rparr> ys)"
proof -
  let ?zs = "insert_entry a k \<lparr>hash = h, node = n\<rparr> ys"
  have "set ?zs = insert (a, k, \<lparr>hash = h, node = n\<rparr>) (set ys)" by (rule insert_entry_set [OF s])
  moreover have "filter (\<lambda>y. node_of y \<noteq> n) ?zs = filter (\<lambda>y. node_of y \<noteq> n) ys"
    using insert_entry_filter [OF s, of "\<lambda>y. node_of y \<noteq> n" a k "\<lparr>hash = h, node = n\<rparr>"] split_entries [OF s, of k]
    by (simp add: node_of_def)
  moreover have "owner_node k' ?zs \<in> {owner_node k' ys, Some n}" for k'
    using owner_insert_entry [OF s, of k' a k "\<lparr>hash = h, node = n\<rparr>"] by (auto simp: owner_node_def)
  ultimately show ?thesis by (auto simp: only_adds_def node_of_def)
qed

lemma distinct_insert_entry:
  assumes "sorted (keys_of ys)" "distinct (keys_of ys)" "k \<notin> set (keys_of ys)"
  shows "distinct (keys_of (insert_entry a k d ys))" "length (insert_entry a k d ys) = Suc (length ys)"
proof -
  have "keys_of ys = keys_of (keys_upto k ys) @ keys_of (keys_beyond k ys)" "length ys = length (keys_upto k ys @ keys_beyond k ys)"
    by (simp_all only: keys_of_simps(3) [symmetric] split_entries [OF assms(1)])
  then show "distinct (keys_of (insert_entry a k d ys))" "length (insert_entry a k d ys) = Suc (length ys)"
    using assms(2,3) by (auto simp: insert_entry_def)
qed

lemma add_replica_ok:
  assumes ok: "conhash_ok c ys" and mal: "fresh_blocks mal" and buf: "conhash_node2string nd i = Some buf"
  shows "\<exists>c' ys'. add_replica mal n nd i c = Some c' \<and> conhash_ok c' ys' \<and> cb_hashfunc c' = cb_hashfunc c \<and>
    only_adds n ys ys' \<and> length ys' \<le> Suc (length ys) \<and>
    ((\<forall>used. mal used \<noteq> None) \<longrightarrow> cb_hashfunc c buf \<in> set (keys_of ys')) \<and>
    (\<forall>y \<in> set ys' - set ys. fst (snd y) = cb_hashfunc c buf)"
proof -
  let ?h = "cb_hashfunc c buf" and ?t = "vnode_tree c"
  have cl: "tree_clean ?t ys" and v: "vnodes_ok c ys" using ok by (simp_all add: conhash_ok_def)
  note sd = rbi.clean_sound [OF cl]
  have s: "sorted (keys_of ys)" using rbi.sound_sorted [OF sd] by simp
  obtain r where r: "util_rbtree_search ?t ?h = Some r" "r = Null \<longleftrightarrow> ?h \<notin> set (keys_of ys)"
    using rbi.search_law [OF sd, of ?h] by blast
  have same: "?thesis" if "add_replica mal n nd i c = Some c" "(\<forall>used. mal used \<noteq> None) \<longrightarrow> ?h \<in> set (keys_of ys)"
    using that ok only_adds_refl by (intro exI [of _ c] exI [of _ ys]) auto
  show ?thesis
  proof (cases "r = Null")
    case False
    then show ?thesis using same r buf by simp
  next
    case new: True
    show ?thesis
    proof (cases "conhash_get_rbnode mal n ?h ?t")
      case None
      then have "\<exists>used. mal used = None" by (auto simp: conhash_get_rbnode_def split: option.splits prod.splits)
      then have "\<not> (\<forall>used. mal used \<noteq> None)" by blast
      moreover have "add_replica mal n nd i c = Some c" using r buf new None by simp
      ultimately show ?thesis using same by blast
    next
      case (Some at)
      then obtain a blk where a: "mal (allocated ?t) = Some (a, blk)"
        "at = (a, alloc_node a (blk\<lparr>key := ?h, data := \<lparr>hash = ?h, node = n\<rparr>\<rparr>) ?t)"
        by (auto simp: conhash_get_rbnode_def split: option.splits prod.splits)
      have "\<not> allocated ?t a" using mal a(1) by (auto simp: fresh_blocks_def)
      then have fr: "a \<notin> fst ` set ys" using used_allocated [OF sd] by blast
      have "tree_holds (snd at) a ?h \<lparr>hash = ?h, node = n\<rparr>" by (simp add: tree_holds_def a(2) alloc_node_def)
      moreover have "tree_clean (snd at) ys" using tree_alloc [OF cl fr] by (simp add: a(2))
      ultimately obtain t' where t': "util_rbtree_insert (At a) (snd at) = Some t'"
        "tree_clean t' (insert_entry a ?h \<lparr>hash = ?h, node = n\<rparr> ys)"
        using rbi.enter_law [of "snd at" ys a ?h "\<lparr>hash = ?h, node = n\<rparr>"] fr by auto
      let ?zs = "insert_entry a ?h \<lparr>hash = ?h, node = n\<rparr> ys"
      let ?c = "c\<lparr>vnode_tree := t', ivnodes := ivnodes c + 1\<rparr>"
      have st: "set ?zs = insert (a, ?h, \<lparr>hash = ?h, node = n\<rparr>) (set ys)" by (rule insert_entry_set [OF s])
      have di: "distinct (keys_of ?zs)" "length ?zs = Suc (length ys)"
        using distinct_insert_entry [OF s] v r(2) new by (simp_all add: vnodes_ok_def)
      have "vnodes_ok ?c ?zs" using v di st by (auto simp: vnodes_ok_def add.commute)
      moreover have "add_replica mal n nd i c = Some ?c"
        using buf r(1) new Some t'(1) a(2) by simp
      moreover have "?h \<in> set (keys_of ?zs)" by (simp add: st set_keys_of)
      ultimately show ?thesis
        using t'(2) insert_only_adds [OF s, of n a ?h ?h] di(2) st
        by (intro exI [of _ ?c] exI [of _ ?zs]) (auto simp: conhash_ok_def)
    qed
  qed
qed

lemma node2string_Some: "0 \<in> set (iden nd) \<Longrightarrow> \<exists>buf. conhash_node2string nd i = Some buf"
  by (simp add: conhash_node2string_def)

definition replica_keys :: "conhash_s \<Rightarrow> node_s \<Rightarrow> nat list \<Rightarrow> int set" where
  "replica_keys c nd is = (\<lambda>i. cb_hashfunc c (the (conhash_node2string nd (of_nat i)))) ` set is"

lemma add_replicas_loop_ok:
  assumes mal: "fresh_blocks mal" and z: "0 \<in> set (iden nd)"
  shows "conhash_ok c ys \<Longrightarrow>
    \<exists>c' ys'. add_replicas_loop mal n nd is c = Some c' \<and> conhash_ok c' ys' \<and> cb_hashfunc c' = cb_hashfunc c \<and>
    only_adds n ys ys' \<and> length ys' \<le> length ys + length is \<and>
    ((\<forall>used. mal used \<noteq> None) \<longrightarrow> replica_keys c nd is \<subseteq> set (keys_of ys')) \<and>
    (\<forall>y \<in> set ys' - set ys. fst (snd y) \<in> replica_keys c nd is)"
proof (induction "is" arbitrary: c ys)
  case Nil
  then show ?case using only_adds_refl by (auto simp: replica_keys_def)
next
  case (Cons i "is")
  obtain buf where buf: "conhash_node2string nd (of_nat i) = Some buf" using node2string_Some [OF z] by blast
  from add_replica_ok [OF Cons.prems mal buf, of n] obtain c1 ys1 where
    1: "add_replica mal n nd (of_nat i) c = Some c1" "conhash_ok c1 ys1" "cb_hashfunc c1 = cb_hashfunc c"
      "only_adds n ys ys1" "length ys1 \<le> Suc (length ys)"
      "(\<forall>used. mal used \<noteq> None) \<longrightarrow> cb_hashfunc c buf \<in> set (keys_of ys1)"
      "\<forall>y \<in> set ys1 - set ys. fst (snd y) = cb_hashfunc c buf" by blast
  from Cons.IH [OF 1(2)] obtain c2 ys2 where
    2: "add_replicas_loop mal n nd is c1 = Some c2" "conhash_ok c2 ys2" "cb_hashfunc c2 = cb_hashfunc c1"
      "only_adds n ys1 ys2" "length ys2 \<le> length ys1 + length is"
      "(\<forall>used. mal used \<noteq> None) \<longrightarrow> replica_keys c1 nd is \<subseteq> set (keys_of ys2)"
      "\<forall>y \<in> set ys2 - set ys1. fst (snd y) \<in> replica_keys c1 nd is" by blast
  have rk: "replica_keys c1 nd is = replica_keys c nd is" using 1(3) by (simp add: replica_keys_def)
  have rk': "replica_keys c nd (i # is) = insert (cb_hashfunc c buf) (replica_keys c nd is)"
    using buf by (simp add: replica_keys_def)
  have sub: "set (keys_of ys1) \<subseteq> set (keys_of ys2)"
    using 2(4) by (auto simp: only_adds_def set_keys_of)
  have "add_replicas_loop mal n nd (i # is) c = Some c2" using 1(1) 2(1) by (simp del: add_replica.simps)
  moreover have "only_adds n ys ys2" using only_adds_trans [OF 1(4) 2(4)] .
  moreover have "length ys2 \<le> length ys + length (i # is)" using 1(5) 2(5) by simp
  moreover have "(\<forall>used. mal used \<noteq> None) \<longrightarrow> replica_keys c nd (i # is) \<subseteq> set (keys_of ys2)"
    using 1(6) 2(6) sub unfolding rk rk' by blast
  moreover have "\<forall>y \<in> set ys2 - set ys. fst (snd y) \<in> replica_keys c nd (i # is)"
    using 1(7) 2(7) unfolding rk rk' by blast
  ultimately show ?case using 2(2,3) 1(3) by metis
qed

lemma owner_of_filter:
  assumes "owner_of k ys = Some v" "\<And>y. y \<in> set ys \<Longrightarrow> snd (snd y) = v \<Longrightarrow> P y"
  shows "owner_of k (filter P ys) = Some v"
proof (cases "find (\<lambda>y. k \<le> fst (snd y)) ys")
  case (Some y)
  then have "y \<in> set ys" by (auto simp: find_Some_iff)
  moreover have "snd (snd y) = v" using assms(1) Some by (simp add: owner_of_def)
  ultimately have "P y" "snd (snd y) = v" using assms(2) by simp_all
  moreover from this(1) have "find (\<lambda>y. P y \<and> k \<le> fst (snd y)) ys = Some y"
    using Some by (induction ys) (auto split: if_splits)
  ultimately show ?thesis by (simp add: owner_of_def find_filter)
next
  case None
  then obtain y zs where ys: "ys = y # zs" "snd (snd y) = v"
    using assms(1) by (cases ys) (auto simp: owner_of_def)
  moreover have "find (\<lambda>y. P y \<and> k \<le> fst (snd y)) ys = None"
    using None by (auto simp: find_None_iff)
  ultimately show ?thesis using assms(2) [of y] by (simp add: owner_of_def find_filter split: if_splits)
qed

lemma owner_node_filter:
  assumes "owner_node k ys = Some m" "\<And>y. y \<in> set ys \<Longrightarrow> node_of y = m \<Longrightarrow> P y"
  shows "owner_node k (filter P ys) = Some m"
proof -
  obtain v where v: "owner_of k ys = Some v" "node v = m" using assms(1) by (auto simp: owner_node_def)
  have "owner_of k (filter P ys) = Some v"
    by (rule owner_of_filter [OF v(1)]) (use assms(2) v(2) in \<open>auto simp: node_of_def\<close>)
  then show ?thesis using v(2) by (simp add: owner_node_def)
qed

section \<open>Removing virtual nodes\<close>

lemma tree_delete_free:
  assumes "tree_sound t ys" "a \<in> fst ` set ys"
  shows "\<exists>t1 t2. util_rbtree_delete (At a) t = Some t1 \<and> conhash_del_rbnode (At a) t1 = Some t2 \<and>
    tree_sound t2 (filter (\<lambda>y. fst y \<noteq> a) ys) \<and> heap t2 a = None \<and>
    (\<forall>b. b \<notin> fst ` set ys \<longrightarrow> heap t2 b = heap t b)"
proof -
  obtain par T where T: "rb_at t par T" "content T = ys" using assms(1) by (auto simp: tree_sound_def)
  have "a \<in> set (taddrs T)" using assms(2) T(2) by (simp add: addr_content)
  from delete_ok [OF T(1) this] obtain t1 par' T' where
    1: "util_rbtree_delete (At a) t = Some t1" "rb_at t1 par' T'" "content T' = filter (\<lambda>y. fst y \<noteq> a) ys"
      "heap t1 a \<noteq> None" "\<forall>b. b \<notin> fst ` set ys \<longrightarrow> heap t1 b = heap t b"
    unfolding addr_content T(2) by blast
  let ?t2 = "t1\<lparr>heap := (heap t1)(a := None)\<rparr>"
  have "a \<notin> set (taddrs T')" by (auto simp: addr_content 1(3))
  then have "rb_at ?t2 par' T'" using 1(2) by (simp add: rb_at_def tstate_def null_black_def)
  then have "tree_sound ?t2 (filter (\<lambda>y. fst y \<noteq> a) ys)" using 1(3) by (auto simp: tree_sound_def)
  moreover have "conhash_del_rbnode (At a) t1 = Some ?t2"
    using 1(4) by (simp add: conhash_del_rbnode_def free_node_def)
  moreover have "heap ?t2 b = heap t b" if "b \<notin> fst ` set ys" for b
    using that 1(5) assms(2) by (metis fun_upd_other rbtree.select_convs(4) rbtree.simps(8) rbtree.surjective rbtree.update_convs(4))
  ultimately show ?thesis using 1(1) by (intro exI [of _ t1] exI [of _ ?t2]) simp
qed

lemma distinct_keys_addr:
  assumes "distinct (keys_of ys)" "distinct (map fst ys)" "(a, k, v) \<in> set ys" "y \<in> set ys"
  shows "fst y = a \<longleftrightarrow> fst (snd y) = k"
proof -
  have "inj_on (fst \<circ> snd) (set ys)" "inj_on fst (set ys)"
    using assms(1,2) by (simp_all add: keys_of_def distinct_map)
  then show ?thesis using assms(3,4) by (metis comp_apply fst_conv inj_onD snd_conv)
qed

lemma length_filter_one: "\<lbrakk>distinct (map fst ys); a \<in> fst ` set ys\<rbrakk> \<Longrightarrow>
    length ys = Suc (length (filter (\<lambda>y. fst y \<noteq> a) ys))"
proof (induction ys)
  case (Cons y ys)
  show ?case
  proof (cases "fst y = a")
    case True
    then have "filter (\<lambda>y. fst y \<noteq> a) ys = ys" using Cons.prems(1) by (auto simp: filter_id_conv image_iff)
    then show ?thesis using True by simp
  next
    case False
    then show ?thesis using Cons by auto
  qed
qed simp

lemma vnodes_ok_filter:
  assumes "vnodes_ok c ys" "distinct (map fst ys)" "a \<in> fst ` set ys"
  shows "vnodes_ok (c\<lparr>vnode_tree := t, ivnodes := ivnodes c - 1\<rparr>) (filter (\<lambda>y. fst y \<noteq> a) ys)"
  using assms(1) length_filter_one [OF assms(2,3)]
  by (auto simp: vnodes_ok_def keys_of_def distinct_map inj_on_def)

lemma del_replica_ok:
  assumes ok: "conhash_sound c ys" and buf: "conhash_node2string nd i = Some buf"
  shows "\<exists>c'. del_replica n nd i c = Some c' \<and> cb_hashfunc c' = cb_hashfunc c \<and>
    conhash_sound c' (filter (\<lambda>y. \<not> (node_of y = n \<and> fst (snd y) = cb_hashfunc c buf)) ys)"
proof -
  let ?h = "cb_hashfunc c buf" and ?t = "vnode_tree c"
  have sd: "tree_sound ?t ys" and v: "vnodes_ok c ys" using ok by (simp_all add: conhash_sound_def)
  note sd' = rbi.sound_sorted [OF sd]
  obtain r where r: "util_rbtree_search ?t ?h = Some r" "r = Null \<longleftrightarrow> ?h \<notin> set (keys_of ys)"
    "r \<noteq> Sentinel" "\<And>a. r = At a \<Longrightarrow> \<exists>d. (a, ?h, d) \<in> set ys"
    using rbi.search_law [OF sd, of ?h] by blast
  have same: ?thesis if "del_replica n nd i c = Some c" "\<And>y. y \<in> set ys \<Longrightarrow> \<not> (node_of y = n \<and> fst (snd y) = ?h)"
  proof -
    have "filter (\<lambda>y. \<not> (node_of y = n \<and> fst (snd y) = ?h)) ys = ys"
      unfolding filter_id_conv using that(2) by blast
    then show ?thesis using that(1) ok by simp
  qed
  show ?thesis
  proof (cases r)
    case Null
    have "del_replica n nd i c = Some c" using r(1) Null buf by simp
    moreover have "?h \<notin> (fst \<circ> snd) ` set ys" using r(2) Null by (simp add: set_keys_of)
    ultimately show ?thesis by (intro same) force+
  next
    case Sentinel
    then show ?thesis using r(3) by simp
  next
    case (At a)
    then obtain w where w: "(a, ?h, w) \<in> set ys" using r(4) by blast
    then have aw: "a \<in> fst ` set ys" by force
    obtain rb where rb: "deref ?t (At a) = Some rb" "data rb = w"
      using rbi.fetch_law [OF sd w] by (cases "deref ?t (At a)") (auto simp: tree_fetch_def)
    have hw: "hash w = ?h" using v w by (auto simp: vnodes_ok_def)
    have uniq: "fst y = a \<longleftrightarrow> fst (snd y) = ?h" if "y \<in> set ys" for y
      using distinct_keys_addr [OF _ _ w that] v sd' by (simp add: vnodes_ok_def)
    show ?thesis
    proof (cases "node w = n")
      case False
      have "del_replica n nd i c = Some c" using r(1) At buf rb False by simp
      moreover have "\<not> (node_of y = n \<and> fst (snd y) = ?h)" if "y \<in> set ys" for y
      proof -
        have "y = (a, ?h, w)" if "fst (snd y) = ?h"
        proof -
          have "fst y = a" using uniq [OF \<open>y \<in> set ys\<close>] that by simp
          moreover have "inj_on fst (set ys)" using sd' by (simp add: distinct_map)
          ultimately show ?thesis using inj_onD [of fst "set ys" y "(a, ?h, w)"] w \<open>y \<in> set ys\<close> by simp
        qed
        then show ?thesis using False by (auto simp: node_of_def)
      qed
      ultimately show ?thesis by (intro same)
    next
      case True
      from tree_delete_free [OF sd aw] obtain t1 t2 where
        2: "util_rbtree_delete (At a) ?t = Some t1" "conhash_del_rbnode (At a) t1 = Some t2"
          "tree_sound t2 (filter (\<lambda>y. fst y \<noteq> a) ys)" by blast
      let ?c = "c\<lparr>vnode_tree := t2, ivnodes := ivnodes c - 1\<rparr>"
      have "filter (\<lambda>y. \<not> (node_of y = n \<and> fst (snd y) = ?h)) ys = filter (\<lambda>y. fst y \<noteq> a) ys"
      proof (rule filter_cong [OF refl])
        fix y assume y: "y \<in> set ys"
        have "inj_on fst (set ys)" using sd' by (simp add: distinct_map)
        then have eq: "fst y = a \<Longrightarrow> y = (a, ?h, w)" using inj_onD [of fst "set ys" y "(a, ?h, w)"] w y by simp
        show "(\<not> (node_of y = n \<and> fst (snd y) = ?h)) = (fst y \<noteq> a)"
        proof (cases "fst y = a")
          case here: True
          have "node_of y = n" unfolding eq [OF here] using True by (simp add: node_of_def)
          then show ?thesis using uniq [OF y] here by simp
        next
          case False
          then show ?thesis using uniq [OF y] by simp
        qed
      qed
      moreover have "vnodes_ok ?c (filter (\<lambda>y. fst y \<noteq> a) ys)"
        using vnodes_ok_filter [OF v _ aw] sd' by simp
      moreover have "del_replica n nd i c = Some ?c" using r(1) At buf rb True hw 2(1,2) by simp
      ultimately show ?thesis using 2(3) by (intro exI [of _ ?c]) (simp add: conhash_sound_def)
    qed
  qed
qed

lemma del_replicas_loop_ok:
  assumes z: "0 \<in> set (iden nd)"
  shows "conhash_sound c ys \<Longrightarrow> \<exists>c'. del_replicas_loop n nd is c = Some c' \<and> cb_hashfunc c' = cb_hashfunc c \<and>
    conhash_sound c' (filter (\<lambda>y. \<not> (node_of y = n \<and> fst (snd y) \<in> replica_keys c nd is)) ys)"
proof (induction "is" arbitrary: c ys)
  case Nil
  then show ?case by (simp add: replica_keys_def)
next
  case (Cons i "is")
  obtain buf where buf: "conhash_node2string nd (of_nat i) = Some buf" using node2string_Some [OF z] by blast
  from del_replica_ok [OF Cons.prems buf, of n] obtain c1 where
    1: "del_replica n nd (of_nat i) c = Some c1" "cb_hashfunc c1 = cb_hashfunc c"
      "conhash_sound c1 (filter (\<lambda>y. \<not> (node_of y = n \<and> fst (snd y) = cb_hashfunc c buf)) ys)" by blast
  from Cons.IH [OF 1(3)] obtain c2 where
    2: "del_replicas_loop n nd is c1 = Some c2" "cb_hashfunc c2 = cb_hashfunc c1"
      "conhash_sound c2 (filter (\<lambda>y. \<not> (node_of y = n \<and> fst (snd y) \<in> replica_keys c1 nd is))
        (filter (\<lambda>y. \<not> (node_of y = n \<and> fst (snd y) = cb_hashfunc c buf)) ys))" by blast
  have "replica_keys c nd (i # is) = insert (cb_hashfunc c buf) (replica_keys c1 nd is)"
    using buf 1(2) by (simp add: replica_keys_def)
  moreover have "filter (\<lambda>y. \<not> (node_of y = n \<and> fst (snd y) \<in> A))
      (filter (\<lambda>y. \<not> (node_of y = n \<and> fst (snd y) = h)) ys) =
      filter (\<lambda>y. \<not> (node_of y = n \<and> fst (snd y) \<in> insert h A)) ys" for A h
    by (auto intro!: filter_cong)
  ultimately show ?case using 1(1,2) 2 by (simp del: del_replica.simps)
qed

section \<open>Node flags\<close>

lemma node2string_flag [simp]: "conhash_node2string (nd\<lparr>flag := f\<rparr>) i = conhash_node2string nd i"
  by (simp add: conhash_node2string_def cong: if_cong)

lemma flag_in_nonzero [simp]: "NODE_FLAG_IN \<noteq> 0"
  by (simp add: NODE_FLAG_IN_def)

lemma flag_add_del:
  fixes f :: u32
  shows "(f OR NODE_FLAG_IN) AND NODE_FLAG_INIT = f AND NODE_FLAG_INIT" "(f OR NODE_FLAG_IN) AND NODE_FLAG_IN \<noteq> 0"
    "f AND NODE_FLAG_IN = 0 \<Longrightarrow> (f OR NODE_FLAG_IN) AND NOT NODE_FLAG_IN = f"
proof -
  show "(f OR NODE_FLAG_IN) AND NODE_FLAG_INIT = f AND NODE_FLAG_INIT"
    by (simp add: NODE_FLAG_IN_def NODE_FLAG_INIT_def bit.conj_disj_distrib2)
  show "(f OR NODE_FLAG_IN) AND NODE_FLAG_IN \<noteq> 0"
    by (simp add: NODE_FLAG_IN_def bit.conj_disj_distrib2 word_bw_same(1))
  assume z: "f AND NODE_FLAG_IN = 0"
  have "f = f AND (NODE_FLAG_IN OR NOT NODE_FLAG_IN)" by simp
  also have "\<dots> = f AND NOT NODE_FLAG_IN" by (simp only: bit.conj_disj_distrib z or.left_neutral)
  finally show "(f OR NODE_FLAG_IN) AND NOT NODE_FLAG_IN = f"
    by (simp add: bit.conj_disj_distrib2)
qed

lemma add_node_ok:
  assumes "conhash_ok c ys" "fresh_blocks mal" "0 \<in> set (iden nd)"
    and "flag nd AND NODE_FLAG_INIT \<noteq> 0" "flag nd AND NODE_FLAG_IN = 0"
  shows "\<exists>c' ys'. conhash_add_node mal (Some c) (Some (n, nd)) =
      Some (0, Some c', Some (n, nd\<lparr>flag := flag nd OR NODE_FLAG_IN\<rparr>)) \<and>
    conhash_ok c' ys' \<and> cb_hashfunc c' = cb_hashfunc c \<and> only_adds n ys ys' \<and>
    length ys' \<le> length ys + unat (replicas nd) \<and>
    ((\<forall>used. mal used \<noteq> None) \<longrightarrow> replica_keys c nd [0..<unat (replicas nd)] \<subseteq> set (keys_of ys')) \<and>
    (\<forall>y \<in> set ys' - set ys. fst (snd y) \<in> replica_keys c nd [0..<unat (replicas nd)])"
proof -
  let ?nd = "nd\<lparr>flag := flag nd OR NODE_FLAG_IN\<rparr>"
  have same: "replica_keys c ?nd is = replica_keys c nd is" for "is"
    by (simp add: replica_keys_def)
  have "0 \<in> set (iden ?nd)" using assms(3) by simp
  from add_replicas_loop_ok [OF assms(2) this assms(1), of n "[0..<unat (replicas nd)]"]
  obtain c' ys' where 1: "add_replicas_loop mal n ?nd [0..<unat (replicas nd)] c = Some c'"
    "conhash_ok c' ys' \<and> cb_hashfunc c' = cb_hashfunc c \<and> only_adds n ys ys' \<and>
      length ys' \<le> length ys + unat (replicas nd) \<and>
      ((\<forall>used. mal used \<noteq> None) \<longrightarrow> replica_keys c nd [0..<unat (replicas nd)] \<subseteq> set (keys_of ys')) \<and>
      (\<forall>y \<in> set ys' - set ys. fst (snd y) \<in> replica_keys c nd [0..<unat (replicas nd)])"
    unfolding same length_upt diff_zero by blast
  have "conhash_add_node mal (Some c) (Some (n, nd)) = Some (0, Some c', Some (n, ?nd))"
    using 1(1) assms(4,5) by (simp add: conhash_add_node_def conhash_add_replicas_def)
  then show ?thesis using 1(2) by blast
qed

lemma del_node_ok:
  assumes "conhash_sound c ys" "0 \<in> set (iden nd)"
    and "flag nd AND NODE_FLAG_INIT \<noteq> 0" "flag nd AND NODE_FLAG_IN \<noteq> 0"
  shows "\<exists>c'. conhash_del_node (Some c) (Some (n, nd)) =
      Some (0, Some c', Some (n, nd\<lparr>flag := flag nd AND NOT NODE_FLAG_IN\<rparr>)) \<and>
    cb_hashfunc c' = cb_hashfunc c \<and>
    conhash_sound c' (filter (\<lambda>y. \<not> (node_of y = n \<and>
      fst (snd y) \<in> replica_keys c nd [0..<unat (replicas nd)])) ys)"
proof -
  let ?nd = "nd\<lparr>flag := flag nd AND NOT NODE_FLAG_IN\<rparr>"
  have same: "replica_keys c ?nd is = replica_keys c nd is" for "is"
    by (simp add: replica_keys_def)
  have "0 \<in> set (iden ?nd)" using assms(2) by simp
  from del_replicas_loop_ok [OF this assms(1), of n "[0..<unat (replicas nd)]"]
  show ?thesis using assms(3,4)
    by (auto simp: conhash_del_node_def conhash_del_replicas_def same simp del: del_replicas_loop.simps)
qed

section \<open>Clean-up and listing\<close>

lemma root_content: "tree_sound t ys \<Longrightarrow> (if ys = [] then root t = Sentinel else \<exists>a. root t = At a \<and> a \<in> fst ` set ys)"
proof -
  assume "tree_sound t ys"
  then obtain par T where T: "rb_at t par T" "content T = ys" by (auto simp: tree_sound_def)
  then show ?thesis by (cases T) (auto simp: rb_at_def tstate_def)
qed

lemma fini_loop_ok:
  "tree_sound t ys \<Longrightarrow> \<exists>t'. fini_loop t = Some t' \<and>
    (\<forall>b. heap t' b = (if b \<in> fst ` set ys then None else heap t b))"
proof (induction "length ys" arbitrary: t ys rule: less_induct)
  case less
  show ?case
  proof (cases "ys = []")
    case True
    then have "util_rbtree_isempty t" using root_content [OF less.prems] by (simp add: util_rbtree_isempty_def)
    then show ?thesis using True by (subst fini_loop.simps) simp
  next
    case False
    then obtain a where a: "root t = At a" "a \<in> fst ` set ys" using root_content [OF less.prems] by auto
    from tree_delete_free [OF less.prems a(2)] obtain t1 t2 where
      1: "util_rbtree_delete (At a) t = Some t1" "conhash_del_rbnode (At a) t1 = Some t2"
        "tree_sound t2 (filter (\<lambda>y. fst y \<noteq> a) ys)" "heap t2 a = None"
        "\<forall>b. b \<notin> fst ` set ys \<longrightarrow> heap t2 b = heap t b" by blast
    have "length (filter (\<lambda>y. fst y \<noteq> a) ys) < length ys"
      using length_filter_one [OF _ a(2)] rbi.sound_sorted [OF less.prems] by simp
    from less.hyps [OF this 1(3)] obtain t3 where
      3: "fini_loop t2 = Some t3" "\<forall>b. heap t3 b = (if b \<in> fst ` set (filter (\<lambda>y. fst y \<noteq> a) ys) then None else heap t2 b)"
      by blast
    have "fini_loop t = Some t3"
      using a(1) 1(1,2) 3(1) by (subst fini_loop.simps) (simp add: util_rbtree_isempty_def)
    moreover have "heap t3 b = (if b \<in> fst ` set ys then None else heap t b)" for b
    proof (cases "b = a")
      case True
      then show ?thesis using 3(2) 1(4) a(2) by auto
    next
      case False
      have "b \<in> fst ` set (filter (\<lambda>y. fst y \<noteq> a) ys) \<longleftrightarrow> b \<in> fst ` set ys" using False by force
      then show ?thesis using 3(2) 1(5) by simp
    qed
    ultimately show ?thesis by blast
  qed
qed

definition list_key :: "int \<Rightarrow> int \<Rightarrow> (int list \<times> int) option \<Rightarrow> (int list \<times> int) option" where
  "list_key sz k s = do {
     (vals, cur) \<leftarrow> s;
     if cur < sz
     then (if nat cur < length vals then Some (vals[nat cur := k], cur + 1) else None)
     else Some (vals, cur)
   }"

lemma list_keys_fold:
  assumes "0 \<le> sz" "nat sz \<le> length vals"
  shows "\<lbrakk>j \<le> nat sz; length us = j\<rbrakk> \<Longrightarrow> fold (\<lambda>(_, k, d). list_key sz k) ys (Some (us @ drop j vals, int j)) =
    Some (us @ take (nat sz - j) (keys_of ys) @ drop (j + min (nat sz - j) (length ys)) vals,
      int (j + min (nat sz - j) (length ys)))"
proof (induction ys arbitrary: us j)
  case Nil
  then show ?case by simp
next
  case (Cons y ys)
  show ?case
  proof (cases "j < nat sz")
    case True
    have "drop j vals = vals ! j # drop (Suc j) vals" using True assms by (simp add: Cons_nth_drop_Suc)
    then have "list_key sz (fst (snd y)) (Some (us @ drop j vals, int j)) =
        Some ((us @ [fst (snd y)]) @ drop (Suc j) vals, int (Suc j))"
      using True assms Cons.prems(2) by (auto simp: list_key_def list_update_append)
    moreover have "nat sz - j = Suc (nat sz - Suc j)" using True by simp
    ultimately show ?thesis
      using Cons.IH [of "Suc j" "us @ [fst (snd y)]"] True Cons.prems(2) by (simp add: case_prod_unfold)
  next
    case False
    then have "j = nat sz" using Cons.prems(1) by simp
    moreover from this have "list_key sz (fst (snd y)) (Some (us @ drop j vals, int j)) = Some (us @ drop j vals, int j)"
      using assms(1) by (simp add: list_key_def)
    ultimately show ?thesis using Cons.IH [of j us] Cons.prems by (simp add: case_prod_unfold)
  qed
qed

text \<open>An empty table with the length as hash, an allocator over ten blocks, and a node of two replicas.\<close>

definition example_table :: conhash_s where
  "example_table = \<lparr>vnode_tree = util_rbtree_init \<lparr>root = Null, null = zero_vnode, size = 0, heap = (\<lambda>_. None)\<rparr>,
     ivnodes = 0, cb_hashfunc = (\<lambda>s. int (length s))\<rparr>"

definition example_alloc :: allocator where
  "example_alloc used = map_option (\<lambda>a. (a, zero_vnode)) (find (\<lambda>a. \<not> used a) [0..<10])"

definition example_node :: "u32 \<Rightarrow> node_s" where
  "example_node f = \<lparr>iden = [65, 0], replicas = 2, flag = f\<rparr>"

lemma example_table_ok: "conhash_ok example_table []"
  by (rule conhash_ok_init [of "\<lambda>_. None" "\<lambda>s. int (length s)" None]) (simp add: conhash_init_def example_table_def)

lemma example_alloc_fresh: "fresh_blocks example_alloc"
  by (auto simp: fresh_blocks_def example_alloc_def find_Some_iff)

lemma example_node_simps [simp]:
  "iden (example_node f) = [65, 0]" "replicas (example_node f) = 2" "flag (example_node f) = f"
  "(example_node f)\<lparr>flag := g\<rparr> = example_node g"
  by (simp_all add: example_node_def)

text \<open>The table after the node is added: it holds two virtual nodes.\<close>

lemma example_full:
  "\<exists>c ys. conhash_ok c ys \<and> length ys < 2 ^ 32 \<and>
     conhash_add_node example_alloc (Some example_table) (Some (7, example_node 1)) =
       Some (0, Some c, Some (7, example_node 3))"
proof -
  have "\<exists>c' ys'. conhash_add_node example_alloc (Some example_table) (Some (7, example_node 1)) =
      Some (0, Some c', Some (7, (example_node 1)\<lparr>flag := flag (example_node 1) OR NODE_FLAG_IN\<rparr>)) \<and> conhash_ok c' ys' \<and>
      length ys' \<le> length ([] :: (nat \<times> int \<times> virtual_node_s) list) + unat (replicas (example_node 1))"
    using add_node_ok [OF example_table_ok example_alloc_fresh, of "example_node 1" 7]
    by (auto simp: NODE_FLAG_INIT_def NODE_FLAG_IN_def)
  then obtain c' ys' where "conhash_add_node example_alloc (Some example_table) (Some (7, example_node 1)) =
      Some (0, Some c', Some (7, example_node 3))" "conhash_ok c' ys'" "length ys' \<le> 2"
    by (auto simp: NODE_FLAG_IN_def)
  then show ?thesis by (intro exI [of _ c'] exI [of _ ys']) simp
qed

section \<open>Properties\<close>

text \<open>C27: consistent hashing. Adding an initialised node that is not in the table succeeds, keeps the
  table's invariants (tree, counter, no duplicate hashes), keeps every virtual node that was there and
  adds only virtual nodes of the new node; when no allocation fails, the hash of every replica name is
  then in the table. Every object is looked up to the node it had before or to the new node.\<close>

theorem conhash_add_moves_only_to_new:
  assumes "conhash_ok c ys" "fresh_blocks mal" "0 \<in> set (iden nd)"
    and "flag nd AND NODE_FLAG_INIT \<noteq> 0" "flag nd AND NODE_FLAG_IN = 0"
    and "length ys + unat (replicas nd) < 2 ^ 32"
  shows "\<exists>c' ys'. conhash_add_node mal (Some c) (Some (n, nd)) =
      Some (0, Some c', Some (n, nd\<lparr>flag := flag nd OR NODE_FLAG_IN\<rparr>)) \<and>
    conhash_ok c' ys' \<and> set ys \<subseteq> set ys' \<and> (\<forall>y \<in> set ys' - set ys. node_of y = n) \<and>
    ((\<forall>used. mal used \<noteq> None) \<longrightarrow> replica_keys c nd [0..<unat (replicas nd)] \<subseteq> set (keys_of ys')) \<and>
    (\<forall>s. conhash_lookup (Some c') (Some s) \<in> {conhash_lookup (Some c) (Some s), Some (Some n)})"
proof -
  from add_node_ok [OF assms(1-5), of n] obtain c' ys' where
    1: "conhash_add_node mal (Some c) (Some (n, nd)) = Some (0, Some c', Some (n, nd\<lparr>flag := flag nd OR NODE_FLAG_IN\<rparr>))"
      "conhash_ok c' ys'" "cb_hashfunc c' = cb_hashfunc c" "only_adds n ys ys'"
      "length ys' \<le> length ys + unat (replicas nd)"
      "(\<forall>used. mal used \<noteq> None) \<longrightarrow> replica_keys c nd [0..<unat (replicas nd)] \<subseteq> set (keys_of ys')" by blast
  have len: "length ys' < 2 ^ 32" "length ys < 2 ^ 32" using 1(5) assms(6) by linarith+
  have "conhash_lookup (Some c') (Some s) \<in> {conhash_lookup (Some c) (Some s), Some (Some n)}" for s
    using conhash_lookup_sound [OF conhash_ok_sound [OF 1(2)] len(1), of s]
      conhash_lookup_sound [OF conhash_ok_sound [OF assms(1)] len(2), of s] 1(3,4) by (simp add: only_adds_def)
  then show ?thesis using 1 unfolding only_adds_def by blast
qed

theorem conhash_add_moves_only_to_new_witness:
  "\<exists>c' ys'. conhash_add_node example_alloc (Some example_table) (Some (7, example_node 1)) =
      Some (0, Some c', Some (7, example_node 3)) \<and> conhash_ok c' ys' \<and>
    (\<forall>s. conhash_lookup (Some c') (Some s) \<in> {conhash_lookup (Some example_table) (Some s), Some (Some 7)})"
  using conhash_add_moves_only_to_new [OF example_table_ok example_alloc_fresh, of "example_node 1" 7]
  by (auto simp: NODE_FLAG_INIT_def NODE_FLAG_IN_def)

text \<open>C28: removing a node that is in the table succeeds, takes out exactly that node's virtual nodes at
  the hashes of its replicas, keeps the invariants, and leaves every object that belonged to another
  node where it was.\<close>

theorem conhash_del_keeps_others:
  assumes "conhash_sound c ys" "0 \<in> set (iden nd)" "length ys < 2 ^ 32"
    and "flag nd AND NODE_FLAG_INIT \<noteq> 0" "flag nd AND NODE_FLAG_IN \<noteq> 0"
  shows "\<exists>c' ys'. conhash_del_node (Some c) (Some (n, nd)) =
      Some (0, Some c', Some (n, nd\<lparr>flag := flag nd AND NOT NODE_FLAG_IN\<rparr>)) \<and> conhash_sound c' ys' \<and>
    ys' = filter (\<lambda>y. \<not> (node_of y = n \<and> fst (snd y) \<in> replica_keys c nd [0..<unat (replicas nd)])) ys \<and>
    (\<forall>s m. m \<noteq> n \<longrightarrow> conhash_lookup (Some c) (Some s) = Some (Some m) \<longrightarrow>
      conhash_lookup (Some c') (Some s) = Some (Some m))"
proof -
  let ?P = "\<lambda>y. \<not> (node_of y = n \<and> fst (snd y) \<in> replica_keys c nd [0..<unat (replicas nd)])"
  from del_node_ok [OF assms(1,2,4,5), of n] obtain c' where
    1: "conhash_del_node (Some c) (Some (n, nd)) = Some (0, Some c', Some (n, nd\<lparr>flag := flag nd AND NOT NODE_FLAG_IN\<rparr>))"
      "cb_hashfunc c' = cb_hashfunc c" "conhash_sound c' (filter ?P ys)" by blast
  have len: "length (filter ?P ys) < 2 ^ 32" using assms(3) by (meson length_filter_le le_less_trans)
  have "conhash_lookup (Some c') (Some s) = Some (Some m)"
    if m: "m \<noteq> n" "conhash_lookup (Some c) (Some s) = Some (Some m)" for s m
  proof -
    have "owner_node (cb_hashfunc c s) ys = Some m" using conhash_lookup_sound [OF assms(1,3), of s] m(2) by simp
    then have "owner_node (cb_hashfunc c s) (filter ?P ys) = Some m"
      using m(1) by (intro owner_node_filter) (auto simp: node_of_def)
    then show ?thesis using conhash_lookup_sound [OF 1(3) len, of s] 1(2) by simp
  qed
  then show ?thesis using 1(1,3) by blast
qed

theorem conhash_del_keeps_others_witness:
  "\<exists>c ys c' ys'. conhash_add_node example_alloc (Some example_table) (Some (7, example_node 1)) =
      Some (0, Some c, Some (7, example_node 3)) \<and> conhash_sound c ys \<and>
    conhash_del_node (Some c) (Some (7, example_node 3)) = Some (0, Some c', Some (7, example_node 1)) \<and>
    conhash_sound c' ys'"
proof -
  obtain c ys where c: "conhash_ok c ys" "length ys < 2 ^ 32"
    "conhash_add_node example_alloc (Some example_table) (Some (7, example_node 1)) = Some (0, Some c, Some (7, example_node 3))"
    using example_full by blast
  show ?thesis
    using conhash_del_keeps_others [OF conhash_ok_sound [OF c(1)], of "example_node 3" 7] c
      conhash_ok_sound [OF c(1)]
    by (auto simp: NODE_FLAG_INIT_def NODE_FLAG_IN_def)
qed

text \<open>C29: removing a node right after adding it gives back the node record, and every object is looked
  up to the node it had before the addition.\<close>

theorem conhash_add_del_restores:
  assumes "conhash_ok c ys" "fresh_blocks mal" "0 \<in> set (iden nd)"
    and "flag nd AND NODE_FLAG_INIT \<noteq> 0" "flag nd AND NODE_FLAG_IN = 0"
    and "length ys + unat (replicas nd) < 2 ^ 32" "\<forall>y \<in> set ys. node_of y \<noteq> n"
  shows "\<exists>c1 nd1 c2. conhash_add_node mal (Some c) (Some (n, nd)) = Some (0, Some c1, Some (n, nd1)) \<and>
    conhash_del_node (Some c1) (Some (n, nd1)) = Some (0, Some c2, Some (n, nd)) \<and> conhash_sound c2 ys \<and>
    (\<forall>s. conhash_lookup (Some c2) (Some s) = conhash_lookup (Some c) (Some s))"
proof -
  let ?nd1 = "nd\<lparr>flag := flag nd OR NODE_FLAG_IN\<rparr>"
  from add_node_ok [OF assms(1-5), of n] obtain c1 ys1 where
    1: "conhash_add_node mal (Some c) (Some (n, nd)) = Some (0, Some c1, Some (n, ?nd1))"
      "conhash_ok c1 ys1" "cb_hashfunc c1 = cb_hashfunc c" "only_adds n ys ys1"
      "\<forall>y \<in> set ys1 - set ys. fst (snd y) \<in> replica_keys c nd [0..<unat (replicas nd)]" by blast
  have nd1: "0 \<in> set (iden ?nd1)" "flag ?nd1 AND NODE_FLAG_INIT \<noteq> 0" "flag ?nd1 AND NODE_FLAG_IN \<noteq> 0"
    using assms(3,4) by (simp_all add: flag_add_del)
  from del_node_ok [OF conhash_ok_sound [OF 1(2)] nd1, of n] obtain c2 where
    2: "conhash_del_node (Some c1) (Some (n, ?nd1)) =
        Some (0, Some c2, Some (n, ?nd1\<lparr>flag := flag ?nd1 AND NOT NODE_FLAG_IN\<rparr>))"
      "cb_hashfunc c2 = cb_hashfunc c1"
      "conhash_sound c2 (filter (\<lambda>y. \<not> (node_of y = n \<and>
        fst (snd y) \<in> replica_keys c1 ?nd1 [0..<unat (replicas ?nd1)])) ys1)" by blast
  have rk: "replica_keys c1 ?nd1 [0..<unat (replicas ?nd1)] = replica_keys c nd [0..<unat (replicas nd)]"
    using 1(3) by (simp add: replica_keys_def)
  have "filter (\<lambda>y. \<not> (node_of y = n \<and> fst (snd y) \<in> replica_keys c nd [0..<unat (replicas nd)])) ys1 =
      filter (\<lambda>y. node_of y \<noteq> n) ys1"
    using 1(5) assms(7) by (intro filter_cong) auto
  also have "\<dots> = filter (\<lambda>y. node_of y \<noteq> n) ys" using 1(4) by (simp add: only_adds_def)
  also have "\<dots> = ys" using assms(7) by (simp add: filter_id_conv)
  finally have s2: "conhash_sound c2 ys" using 2(3) unfolding rk by simp
  have "?nd1\<lparr>flag := flag ?nd1 AND NOT NODE_FLAG_IN\<rparr> = nd"
    using flag_add_del(3) [OF assms(5)] by simp
  moreover have len: "length ys < 2 ^ 32" using assms(6) by linarith
  then have "conhash_lookup (Some c2) (Some s) = conhash_lookup (Some c) (Some s)" for s
    using conhash_lookup_sound [OF s2 len, of s] conhash_lookup_sound [OF conhash_ok_sound [OF assms(1)] len, of s]
      1(3) 2(2) by simp
  ultimately show ?thesis using 1(1) 2(1) s2 by metis
qed

theorem conhash_add_del_restores_witness:
  "\<exists>c1 nd1 c2. conhash_add_node example_alloc (Some example_table) (Some (7, example_node 1)) = Some (0, Some c1, Some (7, nd1)) \<and>
    conhash_del_node (Some c1) (Some (7, nd1)) = Some (0, Some c2, Some (7, example_node 1)) \<and> conhash_sound c2 []"
  using conhash_add_del_restores [OF example_table_ok example_alloc_fresh, of "example_node 1" 7]
  by (auto simp: NODE_FLAG_INIT_def NODE_FLAG_IN_def)

text \<open>C30: \<open>conhash_fini\<close> ends, with no access to freed memory, and frees exactly the blocks of the
  virtual nodes, although it deletes every root in turn.\<close>

theorem conhash_fini_frees_all:
  assumes "conhash_sound c ys"
  shows "\<exists>h. conhash_fini (Some c) = Some (Some h) \<and>
    (\<forall>b. h b = (if b \<in> fst ` set ys then None else heap (vnode_tree c) b))"
  using fini_loop_ok [of "vnode_tree c" ys] assms by (auto simp: conhash_fini_def conhash_sound_def)

theorem conhash_fini_frees_all_witness:
  "\<exists>c ys h. conhash_add_node example_alloc (Some example_table) (Some (7, example_node 1)) =
      Some (0, Some c, Some (7, example_node 3)) \<and> conhash_sound c ys \<and> conhash_fini (Some c) = Some (Some h) \<and>
    (\<forall>b \<in> fst ` set ys. h b = None)"
proof -
  obtain c ys where c: "conhash_ok c ys"
    "conhash_add_node example_alloc (Some example_table) (Some (7, example_node 1)) = Some (0, Some c, Some (7, example_node 3))"
    using example_full by blast
  show ?thesis using conhash_fini_frees_all [OF conhash_ok_sound [OF c(1)]] c(2) conhash_ok_sound [OF c(1)] by fastforce
qed

text \<open>\<open>conhash_get_vnodes\<close> stores the smallest hashes of the table in ascending order at the front
  of the caller's array, at most \<open>size\<close> of them, and touches nothing behind them.\<close>

theorem conhash_get_vnodes_sorted:
  assumes "conhash_sound c ys" "0 < sz" "nat sz \<le> length vals"
  shows "conhash_get_vnodes (Some c) (Some vals) sz =
      Some (Some (take (nat sz) (keys_of ys) @ drop (min (nat sz) (length ys)) vals)) \<and>
    sorted (keys_of ys)"
proof -
  have sd: "tree_sound (vnode_tree c) ys" using assms(1) by (simp add: conhash_sound_def)
  then obtain par T where T: "rb_at (vnode_tree c) par T" "content T = ys" by (auto simp: tree_sound_def)
  have cb: "get_vnodes_cb sz n s = list_key sz (key n) s" for n s by (simp add: get_vnodes_cb_def list_key_def)
  have "util_rbtree_mid_travel (vnode_tree c) (get_vnodes_cb sz) (Some (vals, 0)) =
      Some (fold (\<lambda>(_, k, d). list_key sz k) ys (Some (vals, 0)))"
  proof (cases "T = Leaf")
    case True
    then show ?thesis using T by (auto simp: util_rbtree_mid_travel_def util_rbtree_isempty_def rb_at_def tstate_def)
  next
    case False
    have t: "tstate (vnode_tree c) par (plug [] T)" using T(1) by (simp add: rb_at_def)
    have "tptr T \<noteq> Sentinel" using False by (cases T) simp_all
    then show ?thesis
      using mid_travel_rep [of "get_vnodes_cb sz" "\<lambda>k _. list_key sz k", OF cb t False, of "Some (vals, 0)"] t T(2)
      by (simp add: util_rbtree_mid_travel_def util_rbtree_isempty_def tstate_def)
  qed
  then show ?thesis
    using list_keys_fold [where sz = sz and vals = vals and us = "[]" and j = 0 and ys = ys] assms(2,3) rbi.sound_sorted [OF sd]
    by (simp add: conhash_get_vnodes_def)
qed

theorem conhash_get_vnodes_sorted_witness:
  "\<exists>c ys. conhash_add_node example_alloc (Some example_table) (Some (7, example_node 1)) =
      Some (0, Some c, Some (7, example_node 3)) \<and> conhash_sound c ys \<and>
    conhash_get_vnodes (Some c) (Some [9, 9, 9]) 3 =
      Some (Some (take 3 (keys_of ys) @ drop (min 3 (length ys)) [9, 9, 9]))"
proof -
  obtain c ys where c: "conhash_ok c ys"
    "conhash_add_node example_alloc (Some example_table) (Some (7, example_node 1)) = Some (0, Some c, Some (7, example_node 3))"
    using example_full by blast
  show ?thesis
    using conhash_get_vnodes_sorted [OF conhash_ok_sound [OF c(1)], of 3 "[9, 9, 9]"] c(2) conhash_ok_sound [OF c(1)]
    by auto
qed

text \<open>\<open>conhash_set_node\<close> copies at most 63 bytes and never writes the last byte of the name, so for
  a name of 63 or more characters in a record that was not zeroed the name has no terminator and
  formatting a replica name reads past it.\<close>

theorem conhash_long_name_unterminated:
  assumes "length (iden nd) = 64" "iden nd ! 63 \<noteq> 0" "63 \<le> length (takeWhile (\<lambda>c. c \<noteq> 0) s)"
  shows "conhash_node2string (conhash_set_node nd s r) i = None"
proof -
  have "drop 63 (iden nd) = [iden nd ! 63]"
    using assms(1) by (intro nth_equalityI) (auto simp: nth_drop)
  moreover have "0 \<notin> set (take 63 (takeWhile (\<lambda>c. c \<noteq> 0) s))"
    using set_takeWhileD [of 0 "\<lambda>c. c \<noteq> 0" s] in_set_takeD by fastforce
  ultimately show ?thesis using assms by (simp add: conhash_node2string_def conhash_set_node_def strncpy_def)
qed

theorem conhash_long_name_unterminated_witness:
  "conhash_node2string (conhash_set_node \<lparr>iden = replicate 64 1, replicas = 0, flag = 0\<rparr> (replicate 63 65) 3) 0 = None"
  by (rule conhash_long_name_unterminated) (simp_all add: takeWhile_eq_all_conv [THEN iffD2])

end
