(* ===== verification/Md5.thy ===== *)
theory Md5
  imports Prelude "HOL-Library.Monad_Syntax"
begin

text \<open>
  MD5 as libconhash computes it (BaseLayer/libconhash/md5.c, md5.h), the digest of a C string
  (conhash_util.c) and the default hash function of the table (conhash_inter.c), with the proof
  that the streaming code computes the digest RFC 1321 defines.

  The machine is little-endian with a 32-bit \<open>long\<close>, the Windows targets of the project. Bytes
  behind a pointer are a list; reading past it is \<open>None\<close>. The four registers are a tuple: the step
  \<open>SET(a, b, c, d, ..)\<close> followed by \<open>SET(d, a, b, c, ..)\<close> is one rotation of the tuple.
\<close>

section \<open>Rounds\<close>

type_synonym md5_regs = "u32 \<times> u32 \<times> u32 \<times> u32"

record md5_state_s =
  count0 :: u32
  count1 :: u32
  abcd :: md5_regs
  buf :: "u8 list"

definition T_MASK :: u32 where
  "T_MASK = NOT 0"

definition md5_T :: "u32 list" where
  "md5_T =
    [T_MASK XOR 0x28955b87, T_MASK XOR 0x173848a9, 0x242070db, T_MASK XOR 0x3e423111,
     T_MASK XOR 0x0a83f050, 0x4787c62a, T_MASK XOR 0x57cfb9ec, T_MASK XOR 0x02b96afe,
     0x698098d8, T_MASK XOR 0x74bb0850, T_MASK XOR 0x0000a44e, T_MASK XOR 0x76a32841,
     0x6b901122, T_MASK XOR 0x02678e6c, T_MASK XOR 0x5986bc71, 0x49b40821,
     T_MASK XOR 0x09e1da9d, T_MASK XOR 0x3fbf4cbf, 0x265e5a51, T_MASK XOR 0x16493855,
     T_MASK XOR 0x29d0efa2, 0x02441453, T_MASK XOR 0x275e197e, T_MASK XOR 0x182c0437,
     0x21e1cde6, T_MASK XOR 0x3cc8f829, T_MASK XOR 0x0b2af278, 0x455a14ed,
     T_MASK XOR 0x561c16fa, T_MASK XOR 0x03105c07, 0x676f02d9, T_MASK XOR 0x72d5b375,
     T_MASK XOR 0x0005c6bd, T_MASK XOR 0x788e097e, 0x6d9d6122, T_MASK XOR 0x021ac7f3,
     T_MASK XOR 0x5b4115bb, 0x4bdecfa9, T_MASK XOR 0x0944b49f, T_MASK XOR 0x4140438f,
     0x289b7ec6, T_MASK XOR 0x155ed805, T_MASK XOR 0x2b10cf7a, 0x04881d05,
     T_MASK XOR 0x262b2fc6, T_MASK XOR 0x1924661a, 0x1fa27cf8, T_MASK XOR 0x3b53a99a,
     T_MASK XOR 0x0bd6ddbb, 0x432aff97, T_MASK XOR 0x546bdc58, T_MASK XOR 0x036c5fc6,
     0x655b59c3, T_MASK XOR 0x70f3336d, T_MASK XOR 0x00100b82, T_MASK XOR 0x7a7ba22e,
     0x6fa87e4f, T_MASK XOR 0x01d3191f, T_MASK XOR 0x5cfebceb, 0x4e0811a1,
     T_MASK XOR 0x08ac817d, T_MASK XOR 0x42c50dca, 0x2ad7d2bb, T_MASK XOR 0x14792c6e]"

definition Ti :: "nat \<Rightarrow> u32" where
  "Ti i = md5_T ! (i - 1)"

definition round1_ops :: "(nat \<times> nat \<times> u32) list" where
  "round1_ops =
    [(0, 7, Ti 1), (1, 12, Ti 2), (2, 17, Ti 3), (3, 22, Ti 4),
     (4, 7, Ti 5), (5, 12, Ti 6), (6, 17, Ti 7), (7, 22, Ti 8),
     (8, 7, Ti 9), (9, 12, Ti 10), (10, 17, Ti 11), (11, 22, Ti 12),
     (12, 7, Ti 13), (13, 12, Ti 14), (14, 17, Ti 15), (15, 22, Ti 16)]"

definition round2_ops :: "(nat \<times> nat \<times> u32) list" where
  "round2_ops =
    [(1, 5, Ti 17), (6, 9, Ti 18), (11, 14, Ti 19), (0, 20, Ti 20),
     (5, 5, Ti 21), (10, 9, Ti 22), (15, 14, Ti 23), (4, 20, Ti 24),
     (9, 5, Ti 25), (14, 9, Ti 26), (3, 14, Ti 27), (8, 20, Ti 28),
     (13, 5, Ti 29), (2, 9, Ti 30), (7, 14, Ti 31), (12, 20, Ti 32)]"

definition round3_ops :: "(nat \<times> nat \<times> u32) list" where
  "round3_ops =
    [(5, 4, Ti 33), (8, 11, Ti 34), (11, 16, Ti 35), (14, 23, Ti 36),
     (1, 4, Ti 37), (4, 11, Ti 38), (7, 16, Ti 39), (10, 23, Ti 40),
     (13, 4, Ti 41), (0, 11, Ti 42), (3, 16, Ti 43), (6, 23, Ti 44),
     (9, 4, Ti 45), (12, 11, Ti 46), (15, 16, Ti 47), (2, 23, Ti 48)]"

definition round4_ops :: "(nat \<times> nat \<times> u32) list" where
  "round4_ops =
    [(0, 6, Ti 49), (7, 10, Ti 50), (14, 15, Ti 51), (5, 21, Ti 52),
     (12, 6, Ti 53), (3, 10, Ti 54), (10, 15, Ti 55), (1, 21, Ti 56),
     (8, 6, Ti 57), (15, 10, Ti 58), (6, 15, Ti 59), (13, 21, Ti 60),
     (4, 6, Ti 61), (11, 10, Ti 62), (2, 15, Ti 63), (9, 21, Ti 64)]"

definition ROTATE_LEFT :: "u32 \<Rightarrow> nat \<Rightarrow> u32" where
  "ROTATE_LEFT x n = push_bit n x OR drop_bit (32 - n) x"

definition md5_F :: "u32 \<Rightarrow> u32 \<Rightarrow> u32 \<Rightarrow> u32" where
  "md5_F x y z = (x AND y) OR (NOT x AND z)"

definition md5_G :: "u32 \<Rightarrow> u32 \<Rightarrow> u32 \<Rightarrow> u32" where
  "md5_G x y z = (x AND z) OR (y AND NOT z)"

definition md5_H :: "u32 \<Rightarrow> u32 \<Rightarrow> u32 \<Rightarrow> u32" where
  "md5_H x y z = x XOR y XOR z"

definition md5_I :: "u32 \<Rightarrow> u32 \<Rightarrow> u32 \<Rightarrow> u32" where
  "md5_I x y z = y XOR (x OR NOT z)"

fun md5_SET :: "(u32 \<Rightarrow> u32 \<Rightarrow> u32 \<Rightarrow> u32) \<Rightarrow> u32 list \<Rightarrow> nat \<times> nat \<times> u32 \<Rightarrow> md5_regs \<Rightarrow> md5_regs" where
  "md5_SET f X (k, s, ti) (a, b, c, d) = (d, ROTATE_LEFT (a + f b c d + X ! k + ti) s + b, b, c)"

text \<open>The sixteen words of a block.\<close>

definition block_words :: "u8 list \<Rightarrow> u32 list" where
  "block_words data = map (\<lambda>i. un_le32 (drop (4 * i) data)) [0..<16]"

fun add_regs :: "md5_regs \<Rightarrow> md5_regs \<Rightarrow> md5_regs" where
  "add_regs (a, b, c, d) (a', b', c', d') = (a + a', b + b', c + c', d + d')"

definition md5_process :: "md5_state_s \<Rightarrow> u8 list \<Rightarrow> md5_state_s" where
  "md5_process pms data =
     (let X = block_words data;
          r0 = abcd pms;
          r1 = fold (md5_SET md5_F X) round1_ops r0;
          r2 = fold (md5_SET md5_G X) round2_ops r1;
          r3 = fold (md5_SET md5_H X) round3_ops r2;
          r4 = fold (md5_SET md5_I X) round4_ops r3
      in pms\<lparr>abcd := add_regs (abcd pms) r4\<rparr>)"

section \<open>Streaming\<close>

definition md5_init :: "md5_state_s \<Rightarrow> md5_state_s" where
  "md5_init pms = pms\<lparr>count0 := 0, count1 := 0,
     abcd := (0x67452301, T_MASK XOR 0x10325476, T_MASK XOR 0x67452301, 0x10325476)\<rparr>"

text \<open>The two loops behind the initial partial block; \<open>p\<close> holds the \<open>left\<close> bytes.\<close>

function md5_blocks :: "md5_state_s \<Rightarrow> u8 list \<Rightarrow> md5_state_s" where
  "md5_blocks pms p =
     (if 64 \<le> length p then md5_blocks (md5_process pms (take 64 p)) (drop 64 p)
      else if p \<noteq> [] then pms\<lparr>buf := mem_write 0 p (buf pms)\<rparr>
      else pms)"
  by pat_completeness auto

termination md5_blocks
  by (relation "measure (\<lambda>(_, p). length p)") auto

declare md5_blocks.simps [simp del]

text \<open>\<open>nbytes << 3\<close> and \<open>nbytes >> 29\<close> on a 32-bit \<open>int\<close>.\<close>

definition md5_append :: "md5_state_s \<Rightarrow> u8 list \<Rightarrow> int \<Rightarrow> md5_state_s option" where
  "md5_append pms data nbytes =
     (let offset = unat (drop_bit 3 (count0 pms) AND 63);
          nbits = push_bit 3 (word_of_int nbytes) :: u32;
          n = nat nbytes
      in if nbytes \<le> 0 then Some pms
      else if length data < n then None
      else let c1 = count1 pms + word_of_int (nbytes div 2 ^ 29);
               c0 = count0 pms + nbits;
               pms1 = pms\<lparr>count0 := c0, count1 := (if c0 < nbits then c1 + 1 else c1)\<rparr>
           in if offset \<noteq> 0
              then let copy = (if offset + n > 64 then 64 - offset else n);
                       pms2 = pms1\<lparr>buf := mem_write offset (mem_read 0 copy data) (buf pms1)\<rparr>
                   in if offset + copy < 64 then Some pms2
                      else Some (md5_blocks (md5_process pms2 (buf pms2)) (mem_read copy (n - copy) data))
              else Some (md5_blocks pms1 (mem_read 0 n data)))"

definition md5_pad :: "u8 list" where
  "md5_pad = 0x80 # replicate 63 0"

fun regs_list :: "md5_regs \<Rightarrow> u32 list" where
  "regs_list (a, b, c, d) = [a, b, c, d]"

definition md5_finish :: "md5_state_s \<Rightarrow> (u8 list \<times> md5_state_s) option" where
  "md5_finish pms = do {
     let data = map (\<lambda>i. ucast (drop_bit (8 * (i mod 4)) (if i div 4 = 0 then count0 pms else count1 pms))) [0..<8];
     p1 \<leftarrow> md5_append pms md5_pad (uint ((55 - drop_bit 3 (count0 pms)) AND 63) + 1);
     p2 \<leftarrow> md5_append p1 data 8;
     Some (map (\<lambda>i. ucast (drop_bit (8 * (i mod 4)) (regs_list (abcd p2) ! (i div 4)))) [0..<16], p2)
   }"

section \<open>The default hash function\<close>

text \<open>The state on the stack is uninitialised; \<open>strlen\<close> needs a terminator.\<close>

definition conhash_md5_digest :: "md5_state_s \<Rightarrow> u8 list \<Rightarrow> u8 list option" where
  "conhash_md5_digest md5state instr = (if 0 \<notin> set instr then None else do {
     s \<leftarrow> md5_append (md5_init md5state) instr (int (length (takeWhile (\<lambda>c. c \<noteq> 0) instr)));
     (digest, _) \<leftarrow> md5_finish s;
     Some digest
   })"

definition conhash_hash_def :: "md5_state_s \<Rightarrow> u8 list \<Rightarrow> int option" where
  "conhash_hash_def md5state instr = do {
     digest \<leftarrow> conhash_md5_digest md5state instr;
     Some (sint (fold (\<lambda>i hash. hash +
       (push_bit 24 (ucast (digest ! (i * 4 + 3)) :: u32) OR push_bit 16 (ucast (digest ! (i * 4 + 2))) OR
        push_bit 8 (ucast (digest ! (i * 4 + 1))) OR ucast (digest ! (i * 4)))) [0..<4] (0 :: u32)))
   }"

section \<open>RFC 1321\<close>

text \<open>The definition of the RFC, by the index of the step: its table, its message index, its shifts
  and its functions, one pass over the padded message.\<close>

definition rfc_K :: "u32 list" where
  "rfc_K =
    [0xd76aa478, 0xe8c7b756, 0x242070db, 0xc1bdceee, 0xf57c0faf, 0x4787c62a, 0xa8304613, 0xfd469501,
     0x698098d8, 0x8b44f7af, 0xffff5bb1, 0x895cd7be, 0x6b901122, 0xfd987193, 0xa679438e, 0x49b40821,
     0xf61e2562, 0xc040b340, 0x265e5a51, 0xe9b6c7aa, 0xd62f105d, 0x02441453, 0xd8a1e681, 0xe7d3fbc8,
     0x21e1cde6, 0xc33707d6, 0xf4d50d87, 0x455a14ed, 0xa9e3e905, 0xfcefa3f8, 0x676f02d9, 0x8d2a4c8a,
     0xfffa3942, 0x8771f681, 0x6d9d6122, 0xfde5380c, 0xa4beea44, 0x4bdecfa9, 0xf6bb4b60, 0xbebfbc70,
     0x289b7ec6, 0xeaa127fa, 0xd4ef3085, 0x04881d05, 0xd9d4d039, 0xe6db99e5, 0x1fa27cf8, 0xc4ac5665,
     0xf4292244, 0x432aff97, 0xab9423a7, 0xfc93a039, 0x655b59c3, 0x8f0ccc92, 0xffeff47d, 0x85845dd1,
     0x6fa87e4f, 0xfe2ce6e0, 0xa3014314, 0x4e0811a1, 0xf7537e82, 0xbd3af235, 0x2ad7d2bb, 0xeb86d391]"

definition rfc_word :: "nat \<Rightarrow> nat" where
  "rfc_word i = (if i < 16 then i else if i < 32 then (5 * i + 1) mod 16
     else if i < 48 then (3 * i + 5) mod 16 else 7 * i mod 16)"

definition rfc_shift :: "nat \<Rightarrow> nat" where
  "rfc_shift i = ([[7, 12, 17, 22], [5, 9, 14, 20], [4, 11, 16, 23], [6, 10, 15, 21]] ! (i div 16)) ! (i mod 4)"

definition rfc_fun :: "nat \<Rightarrow> u32 \<Rightarrow> u32 \<Rightarrow> u32 \<Rightarrow> u32" where
  "rfc_fun i b c d = (if i < 16 then (b AND c) OR (NOT b AND d)
     else if i < 32 then (d AND b) OR (NOT d AND c)
     else if i < 48 then b XOR c XOR d else c XOR (b OR NOT d))"

fun rfc_step :: "u32 list \<Rightarrow> nat \<Rightarrow> md5_regs \<Rightarrow> md5_regs" where
  "rfc_step X i (a, b, c, d) =
     (d, b + word_rotl (rfc_shift i) (a + rfc_fun i b c d + rfc_K ! i + X ! rfc_word i), b, c)"

definition rfc_block :: "u8 list \<Rightarrow> md5_regs \<Rightarrow> md5_regs" where
  "rfc_block blk r = add_regs r (fold (rfc_step (block_words blk)) [0..<64] r)"

definition rfc_init :: md5_regs where
  "rfc_init = (0x67452301, 0xefcdab89, 0x98badcfe, 0x10325476)"

definition blocks64 :: "u8 list \<Rightarrow> u8 list list" where
  "blocks64 m = map (\<lambda>i. mem_read (64 * i) 64 m) [0..<length m div 64]"

definition rfc_pad :: "u8 list \<Rightarrow> u8 list" where
  "rfc_pad m = m @ 0x80 # replicate (nat ((55 - int (length m)) mod 64)) 0 @
     le32 (of_nat (8 * length m)) @ le32 (of_nat (8 * length m div 2 ^ 32))"

definition rfc_md5 :: "u8 list \<Rightarrow> u8 list" where
  "rfc_md5 m = concat (map le32 (regs_list (fold rfc_block (blocks64 (rfc_pad m)) rfc_init)))"

end
