(* ===== verification/Md5Props.thy ===== *)
theory Md5Props
  imports Md5 Conhash
begin

text \<open>
  The streaming MD5 of libconhash refines RFC 1321: its rounds are the 64 indexed steps of the
  definition, its state represents the message fed so far, and \<open>md5_finish\<close> returns the digest of
  that message however it was cut into chunks.
\<close>

section \<open>One block\<close>

lemma ROTATE_LEFT_rotl: "n \<le> 32 \<Longrightarrow> ROTATE_LEFT x n = word_rotl n x"
proof (rule bit_word_eqI)
  fix i assume n: "n \<le> 32" and i: "i < LENGTH(32)"
  have rot: "bit (word_rotl n x) i \<longleftrightarrow> bit x ((i + (32 - n mod 32)) mod 32)"
    using i bit_word_rotl_iff [of n x i] by simp
  have l: "bit (ROTATE_LEFT x n) i \<longleftrightarrow> n \<le> i \<and> bit x (i - n) \<or> bit x (32 - n + i)"
    using i by (auto simp: ROTATE_LEFT_def bit_simps)
  have out: "\<not> bit x j" if "32 \<le> j" for j using that by (auto dest: bit_imp_le_length)
  show "bit (ROTATE_LEFT x n) i = bit (word_rotl n x) i"
  proof (cases "n = 32")
    case True
    then show ?thesis using i out [of "i + 32"] unfolding l rot by auto
  next
    case n32: False
    show ?thesis
    proof (cases "i < n")
      case True
      then have "(i + (32 - n mod 32)) mod 32 = 32 - n + i" using n n32 by simp
      then show ?thesis using True unfolding l rot by simp
    next
      case False
      then have "(i + (32 - n mod 32)) mod 32 = i - n" "32 \<le> 32 - n + i" using n n32 i
        by (simp_all add: mod_if)
      then show ?thesis using False out unfolding l rot by auto
    qed
  qed
qed

lemma ops_rfc:
  "round1_ops = map (\<lambda>i. (rfc_word i, rfc_shift i, rfc_K ! i)) [0..<16]"
  "round2_ops = map (\<lambda>i. (rfc_word i, rfc_shift i, rfc_K ! i)) [16..<32]"
  "round3_ops = map (\<lambda>i. (rfc_word i, rfc_shift i, rfc_K ! i)) [32..<48]"
  "round4_ops = map (\<lambda>i. (rfc_word i, rfc_shift i, rfc_K ! i)) [48..<64]"
  by code_simp+

lemma rfc_shift_le: "i < 64 \<Longrightarrow> rfc_shift i \<le> 32"
proof -
  have "\<forall>i \<in> set [0..<64]. rfc_shift i \<le> 32" by code_simp
  then show "i < 64 \<Longrightarrow> rfc_shift i \<le> 32" by simp
qed

lemma SET_rfc:
  assumes "i < 64" "\<And>x y z. f x y z = rfc_fun i x y z"
  shows "md5_SET f X (rfc_word i, rfc_shift i, rfc_K ! i) r = rfc_step X i r"
  using assms rfc_shift_le [OF assms(1)] by (cases r) (simp add: ROTATE_LEFT_rotl ac_simps)

lemma round_rfc:
  assumes "\<And>i. i \<in> set is \<Longrightarrow> i < 64 \<and> (\<forall>x y z. f x y z = rfc_fun i x y z)"
  shows "fold (md5_SET f X) (map (\<lambda>i. (rfc_word i, rfc_shift i, rfc_K ! i)) is) r = fold (rfc_step X) is r"
  using assms by (induction "is" arbitrary: r) (simp_all add: SET_rfc del: md5_SET.simps rfc_step.simps)

lemma md5_process_rfc: "md5_process pms dat = pms\<lparr>abcd := rfc_block dat (abcd pms)\<rparr>"
proof -
  let ?X = "block_words dat"
  have u: "[0..<64] = [0..<16] @ [16..<32] @ [32..<48] @ [48..<64]"
    using upt_add_eq_append [of 0 16 16] upt_add_eq_append [of 0 32 16] upt_add_eq_append [of 0 48 16] by simp
  have 1: "fold (md5_SET md5_F ?X) round1_ops r = fold (rfc_step ?X) [0..<16] r" for r
    unfolding ops_rfc by (rule round_rfc) (auto simp: md5_F_def rfc_fun_def)
  have 2: "fold (md5_SET md5_G ?X) round2_ops r = fold (rfc_step ?X) [16..<32] r" for r
    unfolding ops_rfc by (rule round_rfc) (auto simp: md5_G_def rfc_fun_def ac_simps)
  have 3: "fold (md5_SET md5_H ?X) round3_ops r = fold (rfc_step ?X) [32..<48] r" for r
    unfolding ops_rfc by (rule round_rfc) (auto simp: md5_H_def rfc_fun_def)
  have 4: "fold (md5_SET md5_I ?X) round4_ops r = fold (rfc_step ?X) [48..<64] r" for r
    unfolding ops_rfc by (rule round_rfc) (auto simp: md5_I_def rfc_fun_def)
  show ?thesis by (simp add: md5_process_def rfc_block_def u 1 2 3 4 Let_def)
qed

section \<open>Cutting into blocks\<close>

lemma blocks64_short: "length m < 64 \<Longrightarrow> blocks64 m = []"
  by (simp add: blocks64_def)

lemma blocks64_append: "64 dvd length a \<Longrightarrow> blocks64 (a @ b) = blocks64 a @ blocks64 b"
proof -
  assume "64 dvd length a"
  then obtain q where q: "length a = 64 * q" by (auto simp: dvd_def)
  have 1: "map (\<lambda>i. mem_read (64 * i) 64 (a @ b)) [0..<q] = map (\<lambda>i. mem_read (64 * i) 64 a) [0..<q]"
    using q by (intro map_cong refl) (simp add: mem_read_def)
  have "map (\<lambda>i. mem_read (64 * i) 64 (a @ b)) [q..<length b div 64 + q] =
      map (\<lambda>i. mem_read (64 * (i + q)) 64 (a @ b)) [0..<length b div 64]"
    by (simp only: map_add_upt [symmetric] map_map comp_def)
  also have "\<dots> = blocks64 b"
    unfolding blocks64_def using q by (intro map_cong refl) (simp add: mem_read_def algebra_simps)
  finally have 2: "map (\<lambda>i. mem_read (64 * i) 64 (a @ b)) [q..<length b div 64 + q] = blocks64 b" .
  have len: "length (a @ b) div 64 = length b div 64 + q" "length a div 64 = q" using q by simp_all
  have "[0..<length b div 64 + q] = [0..<q] @ [q..<length b div 64 + q]" using upt_add_eq_append [of 0 q "length b div 64"] by (simp add: add.commute)
  then show ?thesis unfolding blocks64_def [of "a @ b"] blocks64_def [of a] len by (simp only: map_append 1 2)
qed

lemma blocks64_one: "length m = 64 \<Longrightarrow> blocks64 m = [m]"
  by (simp add: blocks64_def mem_read_def)

lemma blocks64_step: "\<lbrakk>64 dvd length m; 64 \<le> length p\<rbrakk> \<Longrightarrow>
    blocks64 (m @ take 64 p) = blocks64 m @ [take 64 p] \<and> 64 dvd length (m @ take 64 p)"
  by (simp add: blocks64_append blocks64_one)

section \<open>The state represents the message\<close>

definition md5_repr :: "md5_state_s \<Rightarrow> u8 list \<Rightarrow> bool" where
  "md5_repr pms m \<longleftrightarrow> count0 pms = of_nat (8 * length m) \<and> count1 pms = of_nat (8 * length m div 2 ^ 32) \<and>
     abcd pms = fold rfc_block (blocks64 m) rfc_init \<and> length (buf pms) = 64 \<and>
     mem_read 0 (length m mod 64) (buf pms) = drop (64 * (length m div 64)) m"

lemma md5_init_repr: "length (buf pms) = 64 \<Longrightarrow> md5_repr (md5_init pms) []"
  by (simp add: md5_repr_def md5_init_def blocks64_short mem_simps rfc_init_def T_MASK_def)

lemma md5_blocks_ok:
  "\<lbrakk>64 dvd length m; abcd pms = fold rfc_block (blocks64 m) rfc_init; length (buf pms) = 64\<rbrakk> \<Longrightarrow>
    count0 (md5_blocks pms p) = count0 pms \<and> count1 (md5_blocks pms p) = count1 pms \<and>
    abcd (md5_blocks pms p) = fold rfc_block (blocks64 (m @ p)) rfc_init \<and> length (buf (md5_blocks pms p)) = 64 \<and>
    mem_read 0 (length p mod 64) (buf (md5_blocks pms p)) = drop (64 * (length p div 64)) p"
proof (induction pms p arbitrary: m rule: md5_blocks.induct)
  case (1 pms p)
  show ?case
  proof (cases "64 \<le> length p")
    case True
    let ?pms = "md5_process pms (take 64 p)"
    have a: "abcd ?pms = fold rfc_block (blocks64 (m @ take 64 p)) rfc_init" "count0 ?pms = count0 pms"
      "count1 ?pms = count1 pms" "buf ?pms = buf pms"
      using blocks64_step [OF 1(2) True] 1(3) by (simp_all add: md5_process_rfc)
    have len: "length p = 64 + (length p - 64)" using True by simp
    have m: "length (drop 64 p) mod 64 = length p mod 64" using True by (simp add: le_mod_geq)
    have d: "drop (64 * (length (drop 64 p) div 64)) (drop 64 p) = drop (64 * (length p div 64)) p"
      using True by (simp add: le_div_geq algebra_simps)
    have "md5_blocks pms p = md5_blocks ?pms (drop 64 p)" using True by (subst md5_blocks.simps) simp
    then show ?thesis
      using 1(1) [OF True, of "m @ take 64 p"] blocks64_step [OF 1(2) True] a 1(4)
      by (simp only: m d append_assoc append_take_drop_id simp_thms)
  next
    case False
    then have "md5_blocks pms p = (if p \<noteq> [] then pms\<lparr>buf := mem_write 0 p (buf pms)\<rparr> else pms)"
      by (subst md5_blocks.simps) simp
    then show ?thesis using False 1(2-4)
      by (auto simp: mem_simps blocks64_append blocks64_short)
  qed
qed

lemma carry_add:
  assumes "B < 2 ^ 32"
  shows "(of_nat (A + B) :: u32) < of_nat B \<longleftrightarrow> (A + B) div 2 ^ 32 = Suc (A div 2 ^ 32)"
    "\<not> (of_nat (A + B) :: u32) < of_nat B \<longleftrightarrow> (A + B) div 2 ^ 32 = A div 2 ^ 32"
proof -
  define M :: nat where "M = 2 ^ 32"
  define q r where "q = A div M" "r = A mod M"
  have A: "A = M * q + r" "r < M" and B: "B < M" using assms by (simp_all add: q_r_def M_def)
  have "(of_nat (A + B) :: u32) < of_nat B \<longleftrightarrow> (A + B) mod M < B"
    using B by (simp add: M_def word_less_nat_alt unat_of_nat del: of_nat_add)
  moreover have "(A + B) mod M = (if M \<le> r + B then r + B - M else r + B)"
    using A B by (simp add: add.assoc mod_if [of "r + B"])
  moreover have "(A + B) div M = q + (if M \<le> r + B then 1 else 0)"
    using A B by (simp add: add.assoc le_div_geq)
  ultimately show "(of_nat (A + B) :: u32) < of_nat B \<longleftrightarrow> (A + B) div 2 ^ 32 = Suc (A div 2 ^ 32)"
    "\<not> (of_nat (A + B) :: u32) < of_nat B \<longleftrightarrow> (A + B) div 2 ^ 32 = A div 2 ^ 32"
    using A B unfolding M_def [symmetric] q_r_def(1) [symmetric] by (auto split: if_splits)
qed

lemma repr_offset: "md5_repr pms m \<Longrightarrow> unat (drop_bit 3 (count0 pms)) mod 64 = length m mod 64"
proof -
  assume "md5_repr pms m"
  then have c: "count0 pms = of_nat (8 * length m)" by (simp add: md5_repr_def)
  have "unat (drop_bit 3 (count0 pms)) = drop_bit 3 (unat (count0 pms))" by (rule unat_drop_bit_eq)
  also have "\<dots> = (8 * length m) mod 2 ^ 32 div 8" unfolding c by (simp add: drop_bit_eq_div unat_of_nat del: of_nat_mult)
  also have "(8 * length m) mod 2 ^ 32 div 8 = length m mod 2 ^ 29"
    using mult_mod_right [of 8 "length m" "2 ^ 29"] by simp
  finally show ?thesis by (simp add: mod_mod_cancel)
qed

lemma unat_and_63: "unat (w AND 63) = unat (w :: u32) mod 64"
proof -
  have "w AND 63 = take_bit 6 w" by (simp add: take_bit_eq_mask mask_eq_exp_minus_1)
  moreover have "unat (take_bit 6 w) = take_bit 6 (unat w)" by (rule unsigned_take_bit_eq)
  ultimately show ?thesis by (simp only: take_bit_eq_mod) simp
qed

lemma blocks64_whole: "blocks64 m = blocks64 (take (64 * (length m div 64)) m)"
proof -
  let ?k = "64 * (length m div 64)"
  have "64 dvd length (take ?k m)" by simp
  from blocks64_append [OF this, of "drop ?k m"] show ?thesis
    by (simp add: blocks64_short minus_mult_div_eq_mod)
qed

lemma md5_blocks_repr:
  assumes "64 dvd length m" "abcd pms = fold rfc_block (blocks64 m) rfc_init" "length (buf pms) = 64"
    and "count0 pms = of_nat (8 * length (m @ p))" "count1 pms = of_nat (8 * length (m @ p) div 2 ^ 32)"
  shows "md5_repr (md5_blocks pms p) (m @ p)"
proof -
  obtain q where q: "length m = 64 * q" using assms(1) by (auto simp: dvd_def)
  have "drop (64 * (length (m @ p) div 64)) (m @ p) = drop (64 * (length p div 64)) p"
    "length (m @ p) mod 64 = length p mod 64" using q by simp_all
  then show ?thesis
    using md5_blocks_ok [OF assms(1-3), of p] assms(4,5) unfolding md5_repr_def by (simp only: simp_thms)
qed

lemma count_step:
  assumes "md5_repr pms m" "n < 2 ^ 28" "nbits = push_bit 3 (word_of_int (int n))"
  shows "count0 pms + nbits = of_nat (8 * (length m + n))"
    "(if count0 pms + nbits < nbits then count1 pms + word_of_int (int n div 2 ^ 29) + 1
      else count1 pms + word_of_int (int n div 2 ^ 29)) = of_nat (8 * (length m + n) div 2 ^ 32)"
proof -
  have nb: "nbits = of_nat (8 * n)" using assms(3) by (simp add: push_bit_eq_mult)
  have c: "count0 pms = of_nat (8 * length m)" "count1 pms = of_nat (8 * length m div 2 ^ 32)"
    using assms(1) by (simp_all only: md5_repr_def)
  show 0: "count0 pms + nbits = of_nat (8 * (length m + n))" by (simp add: nb c algebra_simps)
  have z: "int n div 2 ^ 29 = 0" using assms(2) by (intro div_pos_pos_trivial) auto
  have B: "8 * n < 2 ^ 32" using assms(2) by simp
  have s: "8 * (length m + n) = 8 * length m + 8 * n" by simp
  show "(if count0 pms + nbits < nbits then count1 pms + word_of_int (int n div 2 ^ 29) + 1
      else count1 pms + word_of_int (int n div 2 ^ 29)) = of_nat (8 * (length m + n) div 2 ^ 32)"
    using carry_add [OF B, of "8 * length m"] unfolding nb 0 [unfolded nb] z s
    by (auto simp: c(2) simp del: of_nat_add of_nat_mult)
qed

lemma md5_append_repr:
  assumes r: "md5_repr pms m" and n: "length dat < 2 ^ 28"
  shows "\<exists>pms'. md5_append pms dat (int (length dat)) = Some pms' \<and> md5_repr pms' (m @ dat)"
proof (cases "dat = []")
  case True
  then show ?thesis using r by (simp add: md5_append_def)
next
  case False
  define nbits :: u32 where "nbits = push_bit 3 (word_of_int (int (length dat)))"
  define pms1 where "pms1 = pms\<lparr>count0 := count0 pms + nbits, count1 :=
    (if count0 pms + nbits < nbits then count1 pms + word_of_int (int (length dat) div 2 ^ 29) + 1
     else count1 pms + word_of_int (int (length dat) div 2 ^ 29))\<rparr>"
  have nbits: "push_bit 3 (word_of_nat (length dat)) = nbits" by (simp add: nbits_def)
  let ?off = "length m mod 64" and ?k = "64 * (length m div 64)" and ?n = "length dat"
  have cnt: "count0 pms1 = of_nat (8 * length (m @ dat))" "count1 pms1 = of_nat (8 * length (m @ dat) div 2 ^ 32)"
    using count_step [OF r n nbits_def] by (simp_all add: pms1_def)
  have st: "abcd pms1 = fold rfc_block (blocks64 (take ?k m)) rfc_init" "length (buf pms1) = 64"
    "mem_read 0 ?off (buf pms1) = drop ?k m" "buf pms1 = buf pms"
    using r blocks64_whole [of m] by (simp_all add: md5_repr_def pms1_def)
  have off: "unat (drop_bit 3 (count0 pms) AND 63) = ?off" using repr_offset [OF r] by (simp only: unat_and_63)
  have lt: "?off < 64" "length (drop ?k m) = ?off" by (simp_all add: minus_mult_div_eq_mod)
  have app: "md5_append pms dat (int ?n) =
    (if ?off \<noteq> 0
     then let copy = (if ?off + ?n > 64 then 64 - ?off else ?n);
              pms2 = pms1\<lparr>buf := mem_write ?off (mem_read 0 copy dat) (buf pms1)\<rparr>
          in if ?off + copy < 64 then Some pms2
             else Some (md5_blocks (md5_process pms2 (buf pms2)) (mem_read copy (?n - copy) dat))
     else Some (md5_blocks pms1 (mem_read 0 ?n dat)))"
    using False nbits by (simp add: md5_append_def off Let_def pms1_def)
  show ?thesis
  proof (cases "?off = 0")
    case True
    then have m: "64 dvd length m" "take ?k m = m" by auto
    from md5_blocks_repr [OF m(1) _ st(2) cnt] st(1) m(2) show ?thesis
      using True by (simp add: app mem_read_def)
  next
    case part: False
    show ?thesis
    proof (cases "?off + ?n < 64")
      case True
      let ?pms2 = "pms1\<lparr>buf := mem_write ?off dat (buf pms1)\<rparr>"
      have "md5_append pms dat (int ?n) = Some ?pms2" using True part by (simp add: app mem_read_def Let_def)
      moreover have L: "length (m @ dat) div 64 = length m div 64" "length (m @ dat) mod 64 = ?off + ?n"
        using True by (simp_all add: div_add1_eq [of "length m"] mod_add_left_eq [symmetric, of "length m"])
      moreover have "take ?k (m @ dat) = take ?k m" "drop ?k (m @ dat) = drop ?k m @ dat" by simp_all
      ultimately show ?thesis
        using cnt st(1,2,3) lt True blocks64_whole [of "m @ dat"]
        by (auto simp: md5_repr_def mem_simps mem_read_def mem_write_def take_add)
    next
      case False
      define copy where "copy = 64 - ?off"
      let ?blk = "drop ?k m @ take copy dat"
      have c: "(if ?off + ?n > 64 then 64 - ?off else ?n) = copy" "copy \<le> ?n" "?off + copy = 64"
        using False lt by (auto simp: copy_def)
      let ?pms2 = "pms1\<lparr>buf := ?blk\<rparr>"
      have b: "mem_write ?off (take copy dat) (buf pms1) = ?blk"
        using st(2,3) c by (simp add: mem_read_def mem_write_def)
      have lb: "length ?blk = 64" using c lt by simp
      have m': "take ?k m @ ?blk = m @ take copy dat" "64 dvd length (take ?k m)" by (simp_all add: append_assoc [symmetric])
      have d: "64 dvd length (m @ take copy dat)" using m' lb by (simp only: m'(1) [symmetric] length_append dvd_add dvd_refl)
      have "abcd (md5_process ?pms2 ?blk) = fold rfc_block (blocks64 (m @ take copy dat)) rfc_init"
        using blocks64_append [OF m'(2), of ?blk] lb by (simp add: md5_process_rfc st(1) blocks64_one m'(1) [symmetric])
      from md5_blocks_repr [OF d this, of "drop copy dat"] cnt lb
      have "md5_repr (md5_blocks (md5_process ?pms2 ?blk) (drop copy dat)) (m @ dat)"
        by (simp add: md5_process_rfc)
      moreover have "md5_append pms dat (int ?n) = Some (md5_blocks (md5_process ?pms2 ?blk) (drop copy dat))"
        using part c by (simp add: app Let_def b mem_read_def)
      ultimately show ?thesis by blast
    qed
  qed
qed

section \<open>The digest\<close>

lemma regs_bytes: "map (\<lambda>i. ucast (drop_bit (8 * (i mod 4)) (regs_list r ! (i div 4)))) [0..<16] =
    concat (map le32 (regs_list r))"
  by (cases r) (simp add: upt_rec le32_def)

lemma length_bytes: "map (\<lambda>i. ucast (drop_bit (8 * (i mod 4)) (if i div 4 = 0 then a else b))) [0..<8] = le32 a @ le32 b"
  by (simp add: upt_rec le32_def)

lemma pad_length:
  assumes "md5_repr pms m"
  shows "uint ((55 - drop_bit 3 (count0 pms)) AND 63) = (55 - int (length m)) mod 64"
proof -
  have "uint ((55 - drop_bit 3 (count0 pms)) AND 63) = int (unat (55 - drop_bit 3 (count0 pms)) mod 64)"
    by (simp only: uint_nat unat_and_63)
  also have "\<dots> = uint (55 - drop_bit 3 (count0 pms)) mod 64" by (simp only: uint_nat zmod_int of_nat_numeral)
  also have "\<dots> = (55 - uint (drop_bit 3 (count0 pms))) mod 2 ^ 32 mod 64"
    by (simp only: uint_word_ariths) simp
  also have "\<dots> = (55 - uint (drop_bit 3 (count0 pms))) mod 64" by (rule mod_mod_cancel) simp
  also have "\<dots> = (55 - uint (drop_bit 3 (count0 pms)) mod 64) mod 64" by (simp only: mod_diff_right_eq)
  also have "uint (drop_bit 3 (count0 pms)) mod 64 = int (length m) mod 64"
    using arg_cong [OF repr_offset [OF assms], of int] by (simp only: uint_nat zmod_int of_nat_numeral)
  finally show ?thesis by (simp only: mod_diff_right_eq)
qed

lemma rfc_pad_blocks: "64 dvd length (rfc_pad m)"
proof -
  have "int (length (rfc_pad m)) mod 64 = ((int (length m) + 9) + (55 - int (length m)) mod 64) mod 64"
    by (simp add: rfc_pad_def ac_simps)
  also have "\<dots> = ((int (length m) + 9) + (55 - int (length m))) mod 64" by (rule mod_add_right_eq)
  finally have "int (length (rfc_pad m) mod 64) = 0" by (simp only: zmod_int of_nat_numeral) simp
  then show ?thesis by (simp add: dvd_eq_mod_eq_0)
qed

lemma md5_append_prefix: "\<lbrakk>n \<le> length dat\<rbrakk> \<Longrightarrow> md5_append pms dat (int n) = md5_append pms (take n dat) (int n)"
  by (auto simp: md5_append_def mem_read_def Let_def drop_take)

lemma md5_finish_ok:
  assumes r: "md5_repr pms m"
  shows "\<exists>pms'. md5_finish pms = Some (rfc_md5 m, pms')"
proof -
  let ?z = "nat ((55 - int (length m)) mod 64)"
  have z: "0 \<le> (55 - int (length m)) mod 64" "(55 - int (length m)) mod 64 < 64" by simp_all
  let ?pad = "0x80 # replicate ?z (0 :: u8)"
  let ?len = "le32 (count0 pms) @ le32 (count1 pms)"
  have zl: "Suc ?z \<le> 64" using z by linarith
  have tk: "take (Suc ?z) md5_pad = ?pad" using zl by (simp add: md5_pad_def)
  have n: "uint ((55 - drop_bit 3 (count0 pms)) AND 63) + 1 = int (length ?pad)"
    using pad_length [OF r] z by simp
  have pre: "md5_append pms md5_pad (int (length ?pad)) = md5_append pms ?pad (int (length ?pad))"
    using md5_append_prefix [of "Suc ?z" md5_pad pms] zl tk by (simp add: md5_pad_def)
  obtain p1 where p1: "md5_append pms ?pad (int (length ?pad)) = Some p1" "md5_repr p1 (m @ ?pad)"
    using md5_append_repr [OF r, of ?pad] zl by auto
  obtain p2 where p2: "md5_append p1 ?len (int (length ?len)) = Some p2" "md5_repr p2 ((m @ ?pad) @ ?len)"
    using md5_append_repr [OF p1(2), of ?len] by auto
  have "(m @ ?pad) @ ?len = rfc_pad m" using r by (simp add: rfc_pad_def md5_repr_def)
  then have "abcd p2 = fold rfc_block (blocks64 (rfc_pad m)) rfc_init" using p2(2) by (simp add: md5_repr_def)
  moreover have "md5_append p1 ?len 8 = Some p2" using p2(1) by simp
  ultimately show ?thesis unfolding md5_finish_def Let_def length_bytes n pre p1(1)
    by (simp add: regs_bytes rfc_md5_def del: upt_Suc)
qed

fun md5_appends :: "md5_state_s \<Rightarrow> u8 list list \<Rightarrow> md5_state_s option" where
  "md5_appends pms [] = Some pms"
| "md5_appends pms (c # cs) = do {
     pms' \<leftarrow> md5_append pms c (int (length c));
     md5_appends pms' cs
   }"

lemma md5_appends_repr:
  "\<lbrakk>md5_repr pms m; \<forall>c \<in> set cs. length c < 2 ^ 28\<rbrakk> \<Longrightarrow>
    \<exists>pms'. md5_appends pms cs = Some pms' \<and> md5_repr pms' (m @ concat cs)"
proof (induction cs arbitrary: pms m)
  case (Cons c cs)
  obtain p1 where "md5_append pms c (int (length c)) = Some p1" "md5_repr p1 (m @ c)"
    using md5_append_repr [OF Cons.prems(1), of c] Cons.prems(2) by auto
  with Cons.IH [of p1 "m @ c"] Cons.prems(2) show ?case by simp
qed simp

lemma digest_ok:
  assumes "length (buf st) = 64" "0 \<in> set s" "length (takeWhile (\<lambda>c. c \<noteq> 0) s) < 2 ^ 28"
  shows "conhash_md5_digest st s = Some (rfc_md5 (takeWhile (\<lambda>c. c \<noteq> 0) s))"
proof -
  let ?m = "takeWhile (\<lambda>c. c \<noteq> 0) s"
  obtain p1 where p1: "md5_append (md5_init st) ?m (int (length ?m)) = Some p1" "md5_repr p1 ?m"
    using md5_append_repr [OF md5_init_repr [OF assms(1)] assms(3)] by auto
  have "md5_append (md5_init st) s (int (length ?m)) = Some p1"
    using md5_append_prefix [of "length ?m" s "md5_init st"] p1(1) length_takeWhile_le [of "\<lambda>c. c \<noteq> 0" s]
    by (simp add: takeWhile_eq_take [symmetric])
  moreover obtain p2 where "md5_finish p1 = Some (rfc_md5 ?m, p2)" using md5_finish_ok [OF p1(2)] by blast
  ultimately show ?thesis by (simp add: conhash_md5_digest_def assms(2))
qed

lemma le32_bytes_word:
  "(push_bit 24 (ucast (le32 w ! 3) :: u32) OR push_bit 16 (ucast (le32 w ! 2)) OR
     push_bit 8 (ucast (le32 w ! 1)) OR ucast (le32 w ! 0)) = w"
  using un_le32_id [of w] by (simp add: le32_def ac_simps)

lemma hash_def_ok:
  assumes "length (buf st) = 64" "0 \<in> set s" "length (takeWhile (\<lambda>c. c \<noteq> 0) s) < 2 ^ 28"
  shows "conhash_hash_def st s =
    Some (sint (sum_list (regs_list (fold rfc_block (blocks64 (rfc_pad (takeWhile (\<lambda>c. c \<noteq> 0) s))) rfc_init))))"
proof -
  obtain a b c d where r: "fold rfc_block (blocks64 (rfc_pad (takeWhile (\<lambda>c. c \<noteq> 0) s))) rfc_init = (a, b, c, d)"
    by (metis surj_pair)
  let ?digest = "le32 a @ le32 b @ le32 c @ le32 d"
  have "conhash_md5_digest st s = Some ?digest" using digest_ok [OF assms] by (simp add: rfc_md5_def r)
  moreover have "?digest ! 0 = le32 a ! 0" "?digest ! 1 = le32 a ! 1" "?digest ! 2 = le32 a ! 2" "?digest ! 3 = le32 a ! 3"
    "?digest ! 4 = le32 b ! 0" "?digest ! 5 = le32 b ! 1" "?digest ! 6 = le32 b ! 2" "?digest ! 7 = le32 b ! 3"
    "?digest ! 8 = le32 c ! 0" "?digest ! 9 = le32 c ! 1" "?digest ! 10 = le32 c ! 2" "?digest ! 11 = le32 c ! 3"
    "?digest ! 12 = le32 d ! 0" "?digest ! 13 = le32 d ! 1" "?digest ! 14 = le32 d ! 2" "?digest ! 15 = le32 d ! 3"
    "?digest ! Suc (Suc 0) = le32 a ! 2"
    by (simp_all add: nth_append numeral_2_eq_2 [symmetric])
  moreover have "[0..<4] = [0, 1, 2, 3 :: nat]" by (simp add: upt_rec)
  ultimately show ?thesis
    by (simp add: conhash_hash_def_def r le32_bytes_word [simplified] add.assoc del: append.simps)
qed

section \<open>Properties\<close>

text \<open>C31: the streaming implementation computes MD5. However a message of any total length is cut into
  chunks below 2^28 bytes, feeding them with \<open>md5_append\<close> and calling \<open>md5_finish\<close> succeeds, reads
  nothing behind the chunks and returns the digest RFC 1321 defines for the whole message, whatever the
  uninitialised state holds.\<close>

theorem md5_streaming_rfc:
  assumes "length (buf st) = 64" "\<forall>c \<in> set cs. length c < 2 ^ 28"
  shows "\<exists>p1 p2. md5_appends (md5_init st) cs = Some p1 \<and> md5_finish p1 = Some (rfc_md5 (concat cs), p2)"
  using md5_appends_repr [OF md5_init_repr [OF assms(1)] assms(2)] md5_finish_ok by fastforce

definition scratch_state :: md5_state_s where
  "scratch_state = \<lparr>count0 = 7, count1 = 7, abcd = (1, 2, 3, 4), buf = replicate 64 9\<rparr>"

theorem md5_streaming_rfc_witness:
  "\<exists>p1 p2. md5_appends (md5_init scratch_state) [[1, 2], [], [3]] = Some p1 \<and>
     md5_finish p1 = Some (rfc_md5 [1, 2, 3], p2)"
  using md5_streaming_rfc [of scratch_state "[[1, 2], [], [3]]"] by (simp add: scratch_state_def)

text \<open>C32: the table's default hash function is the sum of the four 32-bit words of the MD5 digest of the
  string up to its terminator, as a signed 32-bit number; a table made without a hash function uses it.\<close>

theorem default_hash_is_md5_sum:
  assumes "conhash_init True h (\<lambda>s. the (conhash_hash_def st (s @ [0]))) None = Some c"
    and "length (buf st) = 64" "length s < 2 ^ 28" "0 \<notin> set s"
  shows "conhash_hash_def st (s @ [0]) = Some (cb_hashfunc c s) \<and>
    cb_hashfunc c s = sint (sum_list (regs_list (fold rfc_block (blocks64 (rfc_pad s)) rfc_init)))"
proof -
  have "takeWhile (\<lambda>c. c \<noteq> 0) (s @ [0]) = s" using assms(4) by (simp add: takeWhile_append takeWhile_eq_all_conv)
  then show ?thesis using assms(1) hash_def_ok [OF assms(2), of "s @ [0]"] assms(3) by (auto simp: conhash_init_def)
qed

theorem default_hash_is_md5_sum_witness:
  "\<exists>c. conhash_init True (\<lambda>_. None) (\<lambda>s. the (conhash_hash_def scratch_state (s @ [0]))) None = Some c \<and>
     conhash_hash_def scratch_state [65, 0] = Some (cb_hashfunc c [65])"
  using default_hash_is_md5_sum [of "\<lambda>_. None" scratch_state _ "[65]"]
  by (auto simp: conhash_init_def scratch_state_def)

text \<open>test vectors of RFC 1321 on the code's model, with a used state on the stack: the digests of
  the empty string and of "abc".\<close>

theorem md5_test_vectors:
  "conhash_md5_digest scratch_state [0] = Some [0xd4, 0x1d, 0x8c, 0xd9, 0x8f, 0x00, 0xb2, 0x04,
     0xe9, 0x80, 0x09, 0x98, 0xec, 0xf8, 0x42, 0x7e] \<and>
   conhash_md5_digest scratch_state [0x61, 0x62, 0x63, 0] = Some [0x90, 0x01, 0x50, 0x98, 0x3c, 0xd2,
     0x4f, 0xb0, 0xd6, 0x96, 0x3f, 0x7d, 0x28, 0xe1, 0x7f, 0x72]"
  by (intro conjI; code_simp)

end
