(* ===== verification/BitMem.thy ===== *)
theory BitMem
  imports Prelude "HOL-Library.Monad_Syntax"
begin

text \<open>
  Heap blocks of the bit array (BaseLayer/SFBitArray.cpp): byte and 16-bit accesses, the bit macros,
  \<open>memmove\<close>, \<open>memset\<close> and the zeroing allocators, each \<open>None\<close> outside the block. A block has exactly
  the size that was asked for, which is what \<open>_msize\<close> reports on the project's Windows targets.
  Lengths and bit numbers are nonnegative values of the signed 32-bit \<open>int\<close>: a computed one goes
  through \<open>int_val\<close>, which is \<open>None\<close> when the computation overflows, undefined behaviour in C++.
\<close>

section \<open>Values of type int\<close>

definition INT_MAX :: nat where "INT_MAX = 2147483647"

definition int_val :: "nat \<Rightarrow> nat option" where
  "int_val n = (if n \<le> INT_MAX then Some n else None)"

lemma int_val_ok [simp]: "n \<le> INT_MAX \<Longrightarrow> int_val n = Some n"
  by (simp add: int_val_def)

lemma int_val_code [code]: "int_val n = (if int n \<le> 2147483647 then Some n else None)"
  by (simp add: int_val_def INT_MAX_def)

text \<open>The numbers of a loop \<open>for(n = s; n <= e; n++)\<close>, which counts on to \<open>e + 1\<close>.\<close>

definition count_to :: "nat \<Rightarrow> nat \<Rightarrow> nat list option" where
  "count_to s e = (if s \<le> e then map_option (\<lambda>n. [s..<n]) (int_val (e + 1)) else Some [])"

lemma count_to_ok [simp]: "e < INT_MAX \<Longrightarrow> count_to s e = Some [s..<e + 1]"
  by (simp add: count_to_def)

section \<open>Accesses\<close>

definition byte_at :: "u8 list \<Rightarrow> nat \<Rightarrow> u8 option" where
  "byte_at p i = (if i < length p then Some (p ! i) else None)"

definition byte_put :: "nat \<Rightarrow> u8 \<Rightarrow> u8 list \<Rightarrow> u8 list option" where
  "byte_put i x p = (if i < length p then Some (p[i := x]) else None)"

definition word_at :: "u8 list \<Rightarrow> nat \<Rightarrow> nat option" where
  "word_at p i = (if i + 2 \<le> length p then Some (unat (un_le16 (mem_read i 2 p))) else None)"

definition word_put :: "nat \<Rightarrow> nat \<Rightarrow> u8 list \<Rightarrow> u8 list option" where
  "word_put i n p = (if i + 2 \<le> length p then Some (mem_write i (le16 (of_nat n)) p) else None)"

definition memmove :: "nat \<Rightarrow> nat \<Rightarrow> int \<Rightarrow> u8 list \<Rightarrow> u8 list option" where
  "memmove dst src n p =
     (if 0 \<le> n \<and> dst + nat n \<le> length p \<and> src + nat n \<le> length p
      then Some (mem_write dst (mem_read src (nat n) p) p) else None)"

definition memset :: "nat \<Rightarrow> u8 \<Rightarrow> nat \<Rightarrow> u8 list \<Rightarrow> u8 list option" where
  "memset off x n p = (if off + n \<le> length p then Some (mem_write off (replicate n x) p) else None)"

section \<open>Allocators\<close>

definition AllocPtr :: "nat \<Rightarrow> u8 list" where
  "AllocPtr n = replicate n 0"

definition ReAllocPtr :: "u8 list \<Rightarrow> nat \<Rightarrow> u8 list" where
  "ReAllocPtr p n = take n p @ replicate (n - length p) 0"

section \<open>Bits\<close>

definition GetBit :: "u8 list \<Rightarrow> nat \<Rightarrow> bool option" where
  "GetBit a b = map_option (\<lambda>x. bit x (b mod 8)) (byte_at a (b div 8))"

definition SetBit :: "nat \<Rightarrow> u8 list \<Rightarrow> u8 list option" where
  "SetBit b a = do { x \<leftarrow> byte_at a (b div 8); byte_put (b div 8) (x OR push_bit (b mod 8) 1) a }"

definition ResetBit :: "nat \<Rightarrow> u8 list \<Rightarrow> u8 list option" where
  "ResetBit b a = do { x \<leftarrow> byte_at a (b div 8); byte_put (b div 8) (x AND NOT (push_bit (b mod 8) 1)) a }"

definition XOrBit :: "nat \<Rightarrow> u8 list \<Rightarrow> u8 list option" where
  "XOrBit b a = do { x \<leftarrow> byte_at a (b div 8); byte_put (b div 8) (x XOR push_bit (b mod 8) 1) a }"

section \<open>Lemmas\<close>

named_theorems blk_simps

lemma byte_at_ok [blk_simps]: "i < length p \<Longrightarrow> byte_at p i = Some (p ! i)"
  by (simp add: byte_at_def)

lemma byte_put_ok [blk_simps]: "i < length p \<Longrightarrow> byte_put i x p = Some (p[i := x])"
  by (simp add: byte_put_def)

lemma length_ReAllocPtr [simp]: "length (ReAllocPtr p n) = n"
  by (simp add: ReAllocPtr_def)

lemma length_AllocPtr [simp]: "length (AllocPtr n) = n"
  by (simp add: AllocPtr_def)

lemma byte_at_mid [blk_simps]: "byte_at (pre @ x # post) (length pre) = Some x"
  by (simp add: byte_at_def)

lemma word_at_mid [blk_simps]: "n < 65536 \<Longrightarrow> word_at (pre @ le16 (of_nat n) @ post) (length pre) = Some n"
  by (simp add: word_at_def mem_read_def un_le16_id unat_of_nat)

lemma word_put_mid [blk_simps]: "length w = 2 \<Longrightarrow> word_put (length pre) n (pre @ w @ post) = Some (pre @ le16 (of_nat n) @ post)"
  by (simp add: word_put_def mem_write_def)

lemma byte_put_mid [blk_simps]: "byte_put (length pre) x (pre @ y # post) = Some (pre @ x # post)"
  by (simp add: byte_put_def)

end
