(* ===== verification/BitRle.thy ===== *)
theory BitRle
  imports BitMem
begin

text \<open>
  The run-length coding of compressed bit arrays (BaseLayer/SFBitArray.cpp, the static functions
  Compress, Decompress, SetAt, GetAt and DecompressLength): a byte 0x00 or 0xff is followed by a
  16-bit repeat count, every other byte stands for itself, and the first byte of a stream is
  reserved. The variable \<open>nLength\<close> of the code is the size of the block \<open>des\<close>.
\<close>

definition COMPRESS_SIZE :: nat where "COMPRESS_SIZE = 2"

definition COMPRESS_COUNT :: nat where "COMPRESS_COUNT = 65535"

section \<open>Compress\<close>

fun trim_len :: "u8 list \<Rightarrow> nat \<Rightarrow> nat option" where
  "trim_len src 0 = Some 0"
| "trim_len src (Suc n) = do { x \<leftarrow> byte_at src n; if x = 0 then trim_len src n else Some (Suc n) }"

partial_function (option) run_scan :: "u8 list \<Rightarrow> nat \<Rightarrow> u8 \<Rightarrow> nat \<Rightarrow> nat \<Rightarrow> (nat \<times> nat) option" where
  "run_scan src nSrcLen byType nByte nRunLength =
     (if nRunLength < COMPRESS_COUNT \<and> nByte < nSrcLen
      then do {
        x \<leftarrow> byte_at src nByte;
        if x = byType then run_scan src nSrcLen byType (nByte + 1) (nRunLength + 1)
        else Some (nByte, nRunLength)
      }
      else Some (nByte, nRunLength))"

partial_function (option) compress_loop :: "u8 list \<Rightarrow> nat \<Rightarrow> nat \<Rightarrow> u8 list \<Rightarrow> nat \<Rightarrow> (u8 list \<times> nat) option" where
  "compress_loop src nSrcLen nByte des nDesLen =
     (if nByte < nSrcLen
      then do {
        let des1 = (if nDesLen + 5 > length des then ReAllocPtr des (length des + 1024) else des);
        byType \<leftarrow> byte_at src nByte;
        des2 \<leftarrow> byte_put nDesLen byType des1;
        if byType = 0 \<or> byType = 0xff
        then do {
          (nByte', nRunLength) \<leftarrow> run_scan src nSrcLen byType (nByte + 1) 1;
          des3 \<leftarrow> word_put (nDesLen + 1) nRunLength des2;
          compress_loop src nSrcLen nByte' des3 (nDesLen + 1 + COMPRESS_SIZE)
        }
        else compress_loop src nSrcLen (nByte + 1) des2 (nDesLen + 1)
      }
      else Some (des, nDesLen))"

text \<open>The new block and length; \<open>None\<close> inside is the null pointer.\<close>

definition rle_Compress :: "u8 list \<Rightarrow> nat \<Rightarrow> (u8 list option \<times> nat) option" where
  "rle_Compress src nSrcLen = do {
     n \<leftarrow> trim_len src nSrcLen;
     if n = 0 then Some (None, 0)
     else do {
       des \<leftarrow> byte_put 0 1 (AllocPtr n);
       (des', nDesLen) \<leftarrow> compress_loop src n 0 des 1;
       Some (Some des', nDesLen)
     }
   }"

section \<open>Decompress\<close>

partial_function (option) decompress_loop ::
  "u8 list \<Rightarrow> nat \<Rightarrow> int \<Rightarrow> nat \<Rightarrow> u8 list \<Rightarrow> nat \<Rightarrow> (u8 list \<times> nat) option" where
  "decompress_loop src nSrcLen nMaxLen nByte des nDesLen =
     (if nByte < nSrcLen \<and> (nMaxLen = - 1 \<or> int nDesLen < nMaxLen)
      then do {
        x \<leftarrow> byte_at src nByte;
        if x = 0 \<or> x = 0xff
        then do {
          nRunLength \<leftarrow> word_at src (nByte + 1);
          let des1 = (if nDesLen + nRunLength + 10 \<ge> length des
            then ReAllocPtr des (nDesLen + nRunLength + 1024) else des);
          des2 \<leftarrow> (if x \<noteq> 0 then memset nDesLen x nRunLength des1 else Some des1);
          decompress_loop src nSrcLen nMaxLen (nByte + 1 + COMPRESS_SIZE) des2 (nDesLen + nRunLength)
        }
        else do {
          let des1 = (if nDesLen + 10 \<ge> length des then ReAllocPtr des (nDesLen + 1024) else des);
          des2 \<leftarrow> byte_put nDesLen x des1;
          decompress_loop src nSrcLen nMaxLen (nByte + 1) des2 (nDesLen + 1)
        }
      }
      else Some (des, nDesLen))"

text \<open>\<open>realloc\<close> to size 0 frees the block and returns the null pointer.\<close>

definition rle_Decompress :: "u8 list option \<Rightarrow> nat \<Rightarrow> int \<Rightarrow> (u8 list option \<times> nat) option" where
  "rle_Decompress srcp nSrcLen nMaxLen =
     (if nSrcLen = 0 then Some (srcp, nSrcLen)
      else do {
        src \<leftarrow> srcp;
        (des, nDesLen) \<leftarrow> decompress_loop src nSrcLen nMaxLen 1 (AllocPtr nSrcLen) 0;
        Some (if nDesLen = 0 then None else Some (ReAllocPtr des nDesLen), nDesLen)
      })"

partial_function (option) length_loop :: "u8 list \<Rightarrow> nat \<Rightarrow> nat \<Rightarrow> nat \<Rightarrow> nat option" where
  "length_loop src nSrcLen nByte nDesLen =
     (if nByte < nSrcLen
      then do {
        x \<leftarrow> byte_at src nByte;
        if x = 0 \<or> x = 0xff
        then do {
          r \<leftarrow> word_at src (nByte + 1);
          length_loop src nSrcLen (nByte + 1 + COMPRESS_SIZE) (nDesLen + r)
        }
        else length_loop src nSrcLen (nByte + 1) (nDesLen + 1)
      }
      else Some nDesLen)"

definition rle_DecompressLength :: "u8 list \<Rightarrow> nat \<Rightarrow> nat option" where
  "rle_DecompressLength src nSrcLen = length_loop src nSrcLen 0 0"

section \<open>GetAt\<close>

partial_function (option) get_loop :: "u8 list \<Rightarrow> nat \<Rightarrow> nat \<Rightarrow> nat \<Rightarrow> nat \<Rightarrow> bool option" where
  "get_loop src nSrcLen nBit nByte nDesLen =
     (if nByte < nSrcLen
      then do {
        x \<leftarrow> byte_at src nByte;
        if x = 0 \<or> x = 0xff
        then do {
          nRunLength \<leftarrow> word_at src (nByte + 1);
          if nDesLen + nRunLength > nBit div 8 then Some (x = 0xff)
          else get_loop src nSrcLen nBit (nByte + COMPRESS_SIZE + 1) (nDesLen + nRunLength)
        }
        else if nDesLen = nBit div 8 then GetBit src (8 * nByte + nBit mod 8)
        else get_loop src nSrcLen nBit (nByte + 1) (nDesLen + 1)
      }
      else Some False)"

definition rle_GetAt :: "u8 list option \<Rightarrow> nat \<Rightarrow> nat \<Rightarrow> bool option" where
  "rle_GetAt srcp nSrcLen nBit =
     (if nSrcLen > 0 then do { src \<leftarrow> srcp; get_loop src nSrcLen nBit 1 0 } else Some False)"

section \<open>SetAt\<close>

text \<open>The target byte lies in a run of zeros; \<open>nByte\<close> is the position of the run's count.\<close>

definition split_zero_run :: "u8 list \<Rightarrow> nat \<Rightarrow> nat \<Rightarrow> nat \<Rightarrow> nat \<Rightarrow> nat \<Rightarrow> (u8 list \<times> nat) option" where
  "split_zero_run src nSrcLen nBit nDesLen nByte nRunLength =
     (let nDesByte = nBit div 8
      in if nRunLength > 1
      then do {
        (src1, nByte1, nAddedSize) \<leftarrow>
          (if nDesByte = nDesLen + nRunLength - 1
           then do { s \<leftarrow> word_put nByte (nDesByte - nDesLen) src; Some (s, nByte + COMPRESS_SIZE, 1) }
           else if nDesByte > nDesLen
           then do {
             s \<leftarrow> word_put nByte (nDesByte - nDesLen) src;
             Some (s, nByte + COMPRESS_SIZE, 1 + (1 + COMPRESS_SIZE))
           }
           else do { c \<leftarrow> word_at src nByte; s \<leftarrow> word_put nByte (c - 1) src; Some (s, nByte - 1, 1) });
        let src2 = ReAllocPtr src1 (nSrcLen + nAddedSize);
        src3 \<leftarrow> memmove (nByte1 + nAddedSize) nByte1 (int nSrcLen - int nByte1) src2;
        src4 \<leftarrow> memset nByte1 0 nAddedSize src3;
        src5 \<leftarrow> (if nAddedSize > 1 then word_put (nByte1 + 2) (nRunLength - 1 - (nDesByte - nDesLen)) src4
          else Some src4);
        src6 \<leftarrow> SetBit (8 * nByte1 + nBit mod 8) src5;
        Some (src6, nSrcLen + nAddedSize)
      }
      else do {
        src1 \<leftarrow> memmove nByte (nByte + COMPRESS_SIZE) (int nSrcLen - int nByte - int COMPRESS_SIZE) src;
        src2 \<leftarrow> memset (nSrcLen - COMPRESS_SIZE) 0 COMPRESS_SIZE src1;
        src3 \<leftarrow> SetBit (8 * (nByte - 1) + nBit mod 8) src2;
        Some (src3, nSrcLen - COMPRESS_SIZE)
      })"

text \<open>The literal at \<open>nByte\<close> has become 0xff: it is merged with the run before it or behind it, or
  becomes a run of its own.\<close>

definition absorb_literal :: "u8 list \<Rightarrow> nat \<Rightarrow> nat \<Rightarrow> nat \<Rightarrow> u8 \<Rightarrow> (u8 list \<times> nat) option" where
  "absorb_literal src nSrcLen nByte nRunLength byType =
     (if nRunLength \<noteq> COMPRESS_COUNT \<and> byType = 0xff
      then do {
        s1 \<leftarrow> memmove nByte (nByte + 1) (int nSrcLen - int nByte - 1) src;
        s2 \<leftarrow> byte_put (nSrcLen - 1) 0 s1;
        s3 \<leftarrow> word_put (nByte - COMPRESS_SIZE) (nRunLength + 1) s2;
        Some (s3, nSrcLen - 1)
      }
      else do {
        nextrun \<leftarrow> (if nByte + 2 < nSrcLen
          then do {
            y \<leftarrow> byte_at src (nByte + 1);
            if y = 0xff then do { w \<leftarrow> word_at src (nByte + 2); Some (w \<noteq> COMPRESS_COUNT) } else Some False
          }
          else Some False);
        if nextrun
        then do {
          s1 \<leftarrow> memmove nByte (nByte + 1) (int nSrcLen - int nByte - 1) src;
          s2 \<leftarrow> byte_put (nSrcLen - 1) 0 s1;
          w \<leftarrow> word_at s2 (nByte + 2);
          s3 \<leftarrow> word_put (nByte + 2) (w + 1) s2;
          Some (s3, nSrcLen - 1)
        }
        else do {
          let s1 = ReAllocPtr src (nSrcLen + COMPRESS_SIZE);
          s2 \<leftarrow> memmove (nByte + 1 + COMPRESS_SIZE) (nByte + 1) (int nSrcLen - int nByte - 1) s1;
          s3 \<leftarrow> word_put (nByte + 1) 1 s2;
          Some (s3, nSrcLen + COMPRESS_SIZE)
        }
      })"

definition set_literal :: "u8 list \<Rightarrow> nat \<Rightarrow> nat \<Rightarrow> nat \<Rightarrow> nat \<Rightarrow> u8 \<Rightarrow> (bool \<times> u8 list \<times> nat) option" where
  "set_literal src nSrcLen nBit nByte nRunLength byType = do {
     g \<leftarrow> GetBit src (8 * nByte + nBit mod 8);
     if g then Some (False, src, nSrcLen)
     else do {
       src1 \<leftarrow> SetBit (8 * nByte + nBit mod 8) src;
       x \<leftarrow> byte_at src1 nByte;
       if x = 0xff
       then do { (s, n) \<leftarrow> absorb_literal src1 nSrcLen nByte nRunLength byType; Some (True, s, n) }
       else Some (True, src1, nSrcLen)
     }
   }"

text \<open>The target lies behind the stream: runs of zeros up to it, then the byte.\<close>

fun fill_runs :: "nat \<Rightarrow> nat \<Rightarrow> u8 list \<Rightarrow> nat \<Rightarrow> u8 list option" where
  "fill_runs 0 nLength src nSrcLen = Some src"
| "fill_runs (Suc nRun) nLength src nSrcLen = do {
     s \<leftarrow> word_put (nSrcLen - Suc nRun * (1 + COMPRESS_SIZE))
       (if nLength \<ge> COMPRESS_COUNT then COMPRESS_COUNT else nLength) src;
     fill_runs nRun (nLength - COMPRESS_COUNT) s nSrcLen
   }"

definition append_tail :: "u8 list option \<Rightarrow> nat \<Rightarrow> nat \<Rightarrow> nat \<Rightarrow> (bool \<times> u8 list \<times> nat) option" where
  "append_tail srcp nSrcLen nBit nDesLen =
     (let nLength = nBit div 8 - nDesLen;
          nRun = nLength div COMPRESS_COUNT + (if nLength mod COMPRESS_COUNT \<noteq> 0 then 1 else 0);
          n1 = (if nRun > 0 then nSrcLen + nRun * (1 + COMPRESS_SIZE) + 1 else nSrcLen + 1)
      in do {
        (src1, n2) \<leftarrow> (if nSrcLen = 0 then do { s \<leftarrow> byte_put 0 1 (AllocPtr (n1 + 1)); Some (s, n1 + 1) }
          else do { src \<leftarrow> srcp; Some (ReAllocPtr src n1, n1) });
        src2 \<leftarrow> fill_runs nRun nLength src1 n2;
        src3 \<leftarrow> SetBit (8 * (n2 - 1) + nBit mod 8) src2;
        Some (True, src3, n2)
      })"

partial_function (option) set_loop ::
  "u8 list \<Rightarrow> nat \<Rightarrow> nat \<Rightarrow> nat \<Rightarrow> nat \<Rightarrow> nat \<Rightarrow> u8 \<Rightarrow> (bool \<times> u8 list \<times> nat) option" where
  "set_loop src nSrcLen nBit nByte nDesLen nRunLength byType =
     (if nByte < nSrcLen
      then do {
        x \<leftarrow> byte_at src nByte;
        if x = 0 \<or> x = 0xff
        then do {
          r \<leftarrow> word_at src (nByte + 1);
          if nDesLen + r > nBit div 8
          then if x = 0xff then Some (False, src, nSrcLen)
            else do { (s, n) \<leftarrow> split_zero_run src nSrcLen nBit nDesLen (nByte + 1) r; Some (True, s, n) }
          else set_loop src nSrcLen nBit (nByte + 1 + COMPRESS_SIZE) (nDesLen + r) r x
        }
        else if nDesLen = nBit div 8 then set_literal src nSrcLen nBit nByte nRunLength byType
        else set_loop src nSrcLen nBit (nByte + 1) (nDesLen + 1) nRunLength 0
      }
      else append_tail (Some src) nSrcLen nBit nDesLen)"

definition rle_SetAt :: "u8 list option \<Rightarrow> nat \<Rightarrow> nat \<Rightarrow> (bool \<times> u8 list \<times> nat) option" where
  "rle_SetAt srcp nSrcLen nBit =
     (if nSrcLen > 0 then do { src \<leftarrow> srcp; set_loop src nSrcLen nBit 1 0 0 0 }
      else append_tail srcp nSrcLen nBit 0)"

declare run_scan.simps [code] compress_loop.simps [code] decompress_loop.simps [code]
  length_loop.simps [code] get_loop.simps [code] set_loop.simps [code]

end
