(* ===== verification/BitArray.thy ===== *)
theory BitArray
  imports BitRle
begin

text \<open>
  The bit array class (BaseLayer/SFBitArray.h, SFBitArray.cpp): its state and every operation on the
  bits; counting and indexing follow in the next theory. Bit numbers and lengths are nonnegative values
  of \<open>int\<close>; every product and sum that may leave \<open>int\<close>, \<open>m_nLength*8\<close> and \<open>m_nLength<<3\<close> among them, is
  checked (\<open>int_val\<close>) and makes the result \<open>None\<close>.
  Objects are values; a null pointer is \<open>None\<close>, an access outside the buffer makes the result \<open>None\<close>.
\<close>

section \<open>State\<close>

record sfbitarray =
  m_pBuffer :: "u8 list option"
  m_nLength :: nat
  m_nAllocLength :: nat
  m_nCount :: int
  m_nIndexes :: "nat list option"
  m_nIndexesCount :: nat
  m_nBitSeg :: nat
  m_bModified :: bool
  m_bCompressed :: bool

text \<open>\<open>InitValues\<close> leaves \<open>m_nIndexesCount\<close> uninitialised.\<close>

definition InitValues :: "nat \<Rightarrow> sfbitarray" where
  "InitValues cnt = \<lparr>m_pBuffer = None, m_nLength = 0, m_nAllocLength = 0, m_nCount = - 1, m_nIndexes = None,
     m_nIndexesCount = cnt, m_nBitSeg = 1, m_bModified = False, m_bCompressed = False\<rparr>"

definition SFBitArray_ctor :: "nat \<Rightarrow> bool \<Rightarrow> sfbitarray" where
  "SFBitArray_ctor cnt bCompressed = (InitValues cnt)\<lparr>m_bCompressed := bCompressed\<rparr>"

definition FreeBuffer :: "sfbitarray \<Rightarrow> sfbitarray" where
  "FreeBuffer a = a\<lparr>m_nIndexes := None, m_pBuffer := None, m_nLength := 0, m_nAllocLength := 0, m_nCount := - 1\<rparr>"

definition SetModified :: "sfbitarray \<Rightarrow> sfbitarray" where
  "SetModified a = a\<lparr>m_nCount := - 1, m_nIndexes := None, m_bModified := True\<rparr>"

definition SetLength :: "nat \<Rightarrow> sfbitarray \<Rightarrow> sfbitarray option" where
  "SetLength nLength a = do {
     a1 \<leftarrow> (if nLength = 0 then Some (FreeBuffer a)
       else if nLength > m_nAllocLength a
       then do {
         al \<leftarrow> int_val (nLength + (if m_bCompressed a then 0 else 100));
         Some (a\<lparr>m_nAllocLength := al,
           m_pBuffer := Some (case m_pBuffer a of None \<Rightarrow> AllocPtr al | Some p \<Rightarrow> ReAllocPtr p al)\<rparr>)
       }
       else Some a);
     Some (a1\<lparr>m_nLength := nLength, m_bModified := True\<rparr>)
   }"

text \<open>\<open>m_nLength<<3\<close>, and the growth that several operations begin with.\<close>

definition bit_length :: "sfbitarray \<Rightarrow> nat option" where
  "bit_length a = int_val (8 * m_nLength a)"

definition ensure_bit :: "nat \<Rightarrow> sfbitarray \<Rightarrow> sfbitarray option" where
  "ensure_bit nBit a = do {
     n \<leftarrow> bit_length a;
     if nBit \<ge> n then SetLength (nBit div 8 + 1) a else Some a
   }"

definition Detach :: "sfbitarray \<Rightarrow> u8 list option \<times> sfbitarray" where
  "Detach a = (m_pBuffer a, FreeBuffer (a\<lparr>m_pBuffer := None\<rparr>))"

definition Attach :: "u8 list \<Rightarrow> nat \<Rightarrow> sfbitarray \<Rightarrow> sfbitarray" where
  "Attach pBuffer nLength a =
     (let a1 = FreeBuffer a;
          a2 = (if nLength > 0 then a1\<lparr>m_pBuffer := Some pBuffer, m_nLength := nLength, m_nAllocLength := nLength\<rparr> else a1)
      in a2\<lparr>m_bModified := True\<rparr>)"

section \<open>Single bits\<close>

definition on_buf :: "(u8 list \<Rightarrow> u8 list option) \<Rightarrow> sfbitarray \<Rightarrow> sfbitarray option" where
  "on_buf f a = do { p \<leftarrow> m_pBuffer a; p' \<leftarrow> f p; Some (a\<lparr>m_pBuffer := Some p'\<rparr>) }"

definition GetAt :: "sfbitarray \<Rightarrow> nat \<Rightarrow> bool option" where
  "GetAt a nBit =
     (if m_bCompressed a then rle_GetAt (m_pBuffer a) (m_nLength a) nBit
      else do {
        n \<leftarrow> bit_length a;
        if nBit \<ge> n then Some False else do { p \<leftarrow> m_pBuffer a; GetBit p nBit }
      })"

definition SetAt :: "nat \<Rightarrow> sfbitarray \<Rightarrow> sfbitarray option" where
  "SetAt nBit a = do {
     a1 \<leftarrow> (if m_bCompressed a
       then do {
         (_, p, n) \<leftarrow> rle_SetAt (m_pBuffer a) (m_nLength a) nBit;
         Some (a\<lparr>m_pBuffer := Some p, m_nLength := n, m_nAllocLength := n\<rparr>)
       }
       else do { a0 \<leftarrow> ensure_bit nBit a; on_buf (SetBit nBit) a0 });
     Some (SetModified a1)
   }"

definition ResetAt :: "nat \<Rightarrow> sfbitarray \<Rightarrow> sfbitarray option" where
  "ResetAt nBit a = do {
     n \<leftarrow> bit_length a;
     a1 \<leftarrow> (if nBit < n then on_buf (ResetBit nBit) a else Some a);
     Some (SetModified a1)
   }"

definition XOrAt :: "nat \<Rightarrow> sfbitarray \<Rightarrow> sfbitarray option" where
  "XOrAt nBit a = do {
     a0 \<leftarrow> ensure_bit nBit a;
     a1 \<leftarrow> on_buf (XOrBit nBit) a0;
     Some (SetModified a1)
   }"

definition fill_all :: "u8 \<Rightarrow> sfbitarray \<Rightarrow> sfbitarray option" where
  "fill_all x a = do {
     a1 \<leftarrow> (if m_nLength a = 0 then Some a else on_buf (memset 0 x (m_nLength a)) a);
     Some (SetModified a1)
   }"

definition SetAll :: "sfbitarray \<Rightarrow> sfbitarray option" where
  "SetAll = fill_all 0xff"

definition ResetAll :: "sfbitarray \<Rightarrow> sfbitarray option" where
  "ResetAll = fill_all 0"

section \<open>Ranges\<close>

definition SetRange :: "nat \<Rightarrow> nat \<Rightarrow> sfbitarray \<Rightarrow> sfbitarray option" where
  "SetRange nStartBit nEndBit a = do {
     a0 \<leftarrow> ensure_bit nEndBit a;
     ns \<leftarrow> count_to nStartBit nEndBit;
     a1 \<leftarrow> for_each (\<lambda>nBit. on_buf (SetBit nBit)) ns a0;
     Some (SetModified a1)
   }"

text \<open>The loop runs to the last bit, \<open>m_nLength*8-1\<close> at most; the list is given by the number behind it.\<close>

definition ResetRange :: "nat \<Rightarrow> nat \<Rightarrow> sfbitarray \<Rightarrow> sfbitarray option" where
  "ResetRange nStartBit nEndBit a = do {
     n \<leftarrow> bit_length a;
     let nEnd = (if nEndBit \<ge> n then n else nEndBit + 1);
     a1 \<leftarrow> for_each (\<lambda>nBit. on_buf (ResetBit nBit)) [nStartBit..<nEnd] a;
     Some (SetModified a1)
   }"

definition XOrRange :: "nat \<Rightarrow> nat \<Rightarrow> sfbitarray \<Rightarrow> sfbitarray option" where
  "XOrRange nStartBit nEndBit a = do {
     a0 \<leftarrow> ensure_bit nEndBit a;
     ns \<leftarrow> count_to nStartBit nEndBit;
     a1 \<leftarrow> for_each (\<lambda>nBit. on_buf (XOrBit nBit)) ns a0;
     Some (SetModified a1)
   }"

definition ResetAt_array :: "sfbitarray \<Rightarrow> sfbitarray \<Rightarrow> sfbitarray option" where
  "ResetAt_array b a = do {
     nLength \<leftarrow> int_val (min (m_nLength a) (m_nLength b) * 8);
     a1 \<leftarrow> for_each (\<lambda>nBit a. do { g \<leftarrow> GetAt b nBit; if g then on_buf (ResetBit nBit) a else Some a }) [0..<nLength] a;
     Some (SetModified a1)
   }"

definition copy_bit :: "sfbitarray \<Rightarrow> nat \<Rightarrow> sfbitarray \<Rightarrow> sfbitarray option" where
  "copy_bit src nBit a = do {
     p \<leftarrow> m_pBuffer src;
     g \<leftarrow> GetBit p nBit;
     on_buf (if g then SetBit nBit else ResetBit nBit) a
   }"

definition CopyRange :: "sfbitarray \<Rightarrow> nat \<Rightarrow> nat \<Rightarrow> sfbitarray \<Rightarrow> sfbitarray option" where
  "CopyRange src nStartBit nEndBit a = do {
     n \<leftarrow> bit_length src;
     if nStartBit \<ge> n then Some a
     else do {
        let nEnd = min nEndBit (n - 1);
        a0 \<leftarrow> ensure_bit nEnd a;
        let bFirstByte = (nStartBit mod 8 \<noteq> 0);
        let nStartByte = nStartBit div 8 + (if bFirstByte then 1 else 0);
        let nEndByte = max nStartByte (nEnd div 8);
        a1 \<leftarrow> (if bFirstByte then for_each (copy_bit src) [nStartBit..<nStartByte * 8] a0 else Some a0);
        a2 \<leftarrow> (if nEndByte > nStartByte
          then do {
            p \<leftarrow> m_pBuffer src;
            if nEndByte \<le> length p
            then on_buf (\<lambda>q. if nEndByte \<le> length q
                then Some (mem_write nStartByte (mem_read nStartByte (nEndByte - nStartByte) p) q) else None) a1
            else None
          }
          else Some a1);
        a3 \<leftarrow> for_each (copy_bit src) [nEndByte * 8..<nEnd + 1] a2;
        Some (SetModified a3)
     }
   }"

section \<open>Construction, assignment and boolean operators\<close>

definition trim_zeros :: "sfbitarray \<Rightarrow> sfbitarray option" where
  "trim_zeros a =
     (if m_nLength a = 0 then Some a
      else do { p \<leftarrow> m_pBuffer a; n \<leftarrow> trim_len p (m_nLength a); Some (a\<lparr>m_nLength := n\<rparr>) })"

definition Init :: "u8 list option \<Rightarrow> nat \<Rightarrow> sfbitarray \<Rightarrow> sfbitarray option" where
  "Init pBuffer nLength a = do {
     let a1 = (FreeBuffer a)\<lparr>m_nLength := nLength, m_nAllocLength := nLength\<rparr>;
     a2 \<leftarrow> (if nLength > 0
       then do {
         p \<leftarrow> pBuffer;
         if nLength \<le> length p then trim_zeros (a1\<lparr>m_pBuffer := Some (take nLength p)\<rparr>) else None
       }
       else Some a1);
     Some (a2\<lparr>m_bModified := True\<rparr>)
   }"

definition SFBitArray_ctor_buffer :: "nat \<Rightarrow> u8 list option \<Rightarrow> nat \<Rightarrow> bool \<Rightarrow> sfbitarray option" where
  "SFBitArray_ctor_buffer cnt pBuffer nLength bCompressed =
     Init pBuffer nLength ((InitValues cnt)\<lparr>m_bCompressed := bCompressed\<rparr>)"

definition assign :: "sfbitarray \<Rightarrow> sfbitarray \<Rightarrow> sfbitarray option" where
  "assign src a = do {
     a1 \<leftarrow> Init (m_pBuffer src) (m_nLength src) a;
     let a2 = a1\<lparr>m_nCount := m_nCount src\<rparr>;
     a3 \<leftarrow> (case m_nIndexes src of None \<Rightarrow> Some a2
       | Some ix \<Rightarrow> if m_nIndexesCount src \<le> length ix
           then Some (a2\<lparr>m_nIndexesCount := m_nIndexesCount src, m_nIndexes := Some (take (m_nIndexesCount src) ix),
             m_nBitSeg := m_nBitSeg src\<rparr>)
           else None);
     Some (a3\<lparr>m_bModified := True\<rparr>)
   }"

definition SFBitArray_ctor_copy :: "nat \<Rightarrow> sfbitarray \<Rightarrow> sfbitarray option" where
  "SFBitArray_ctor_copy cnt src = assign src (InitValues cnt)"

definition zip_byte :: "(u8 \<Rightarrow> u8 \<Rightarrow> u8) \<Rightarrow> sfbitarray \<Rightarrow> nat \<Rightarrow> sfbitarray \<Rightarrow> sfbitarray option" where
  "zip_byte f src nByte a = do {
     p \<leftarrow> m_pBuffer src;
     y \<leftarrow> byte_at p nByte;
     on_buf (\<lambda>q. do { x \<leftarrow> byte_at q nByte; byte_put nByte (f x y) q }) a
   }"

definition or_assign :: "sfbitarray \<Rightarrow> sfbitarray \<Rightarrow> sfbitarray option" where
  "or_assign src a = do {
     a0 \<leftarrow> (if m_nLength a < m_nLength src then SetLength (m_nLength src) a else Some a);
     a1 \<leftarrow> for_each (zip_byte (OR) src) [0..<m_nLength src] a0;
     Some (SetModified a1)
   }"

definition xor_assign :: "sfbitarray \<Rightarrow> sfbitarray \<Rightarrow> sfbitarray option" where
  "xor_assign src a = do {
     a0 \<leftarrow> (if m_nLength a < m_nLength src then SetLength (m_nLength src) a else Some a);
     a1 \<leftarrow> for_each (zip_byte (XOR) src) [0..<m_nLength src] a0;
     Some (SetModified a1)
   }"

definition and_assign :: "sfbitarray \<Rightarrow> sfbitarray \<Rightarrow> sfbitarray option" where
  "and_assign src a = do {
     let a0 = a\<lparr>m_nLength := min (m_nLength a) (m_nLength src)\<rparr>;
     a1 \<leftarrow> for_each (zip_byte (AND) src) [0..<m_nLength a0] a0;
     a2 \<leftarrow> trim_zeros a1;
     let a3 = (if m_nLength a2 = 0 then FreeBuffer a2 else a2);
     Some (SetModified a3)
   }"

definition op_with :: "(sfbitarray \<Rightarrow> sfbitarray \<Rightarrow> sfbitarray option) \<Rightarrow> nat \<Rightarrow> sfbitarray \<Rightarrow> sfbitarray \<Rightarrow> sfbitarray option" where
  "op_with f cnt this src = do { bitArray \<leftarrow> SFBitArray_ctor_copy cnt this; f src bitArray }"

definition op_and :: "nat \<Rightarrow> sfbitarray \<Rightarrow> sfbitarray \<Rightarrow> sfbitarray option" where
  "op_and = op_with and_assign"

definition op_or :: "nat \<Rightarrow> sfbitarray \<Rightarrow> sfbitarray \<Rightarrow> sfbitarray option" where
  "op_or = op_with or_assign"

definition op_xor :: "nat \<Rightarrow> sfbitarray \<Rightarrow> sfbitarray \<Rightarrow> sfbitarray option" where
  "op_xor = op_with xor_assign"

definition buf_prefix :: "sfbitarray \<Rightarrow> nat \<Rightarrow> u8 list option" where
  "buf_prefix a n = (if n = 0 then Some []
     else do { p \<leftarrow> m_pBuffer a; if n \<le> length p then Some (take n p) else None })"

definition op_eq :: "sfbitarray \<Rightarrow> sfbitarray \<Rightarrow> bool option" where
  "op_eq a b = (if m_nLength a \<noteq> m_nLength b then Some False
     else do { p \<leftarrow> buf_prefix a (m_nLength a); q \<leftarrow> buf_prefix b (m_nLength a); Some (p = q) })"

definition op_ne :: "sfbitarray \<Rightarrow> sfbitarray \<Rightarrow> bool option" where
  "op_ne a b = (if m_nLength a \<noteq> m_nLength b then Some True
     else do { p \<leftarrow> buf_prefix a (m_nLength a); q \<leftarrow> buf_prefix b (m_nLength a); Some (p \<noteq> q) })"

text \<open>A search loop that returns at the first hit.\<close>

fun any_of :: "('b \<Rightarrow> bool option) \<Rightarrow> 'b list \<Rightarrow> bool option" where
  "any_of f [] = Some False"
| "any_of f (x # xs) = do { b \<leftarrow> f x; if b then Some True else any_of f xs }"

definition byte_of :: "sfbitarray \<Rightarrow> nat \<Rightarrow> u8 option" where
  "byte_of a i = do { p \<leftarrow> m_pBuffer a; byte_at p i }"

definition op_intersects :: "sfbitarray \<Rightarrow> sfbitarray \<Rightarrow> bool option" where
  "op_intersects a b =
     any_of (\<lambda>i. do { x \<leftarrow> byte_of a i; y \<leftarrow> byte_of b i; Some (x AND y \<noteq> 0) }) [0..<min (m_nLength a) (m_nLength b)]"

section \<open>Tests, inversion, deletion and insertion\<close>

definition byte_set :: "sfbitarray \<Rightarrow> nat \<Rightarrow> bool option" where
  "byte_set a i = map_option (\<lambda>x. x \<noteq> 0) (byte_of a i)"

definition IsEmpty :: "sfbitarray \<Rightarrow> bool option" where
  "IsEmpty a =
     (if m_nLength a = 0 then Some True
      else if m_nCount a > 0 then Some False
      else map_option Not (any_of (byte_set a) [0..<m_nLength a]))"

definition IsRangeEmpty :: "sfbitarray \<Rightarrow> nat \<Rightarrow> nat \<Rightarrow> bool option" where
  "IsRangeEmpty a nStartBit nEndBit =
     (if m_nLength a = 0 then Some True
      else do {
        n \<leftarrow> bit_length a;
        let nEnd = (if nEndBit \<ge> n then n - 1 else nEndBit);
        k \<leftarrow> int_val ((nStartBit div 8 + 1) * 8);
        r1 \<leftarrow> any_of (GetAt a) [nStartBit..<k];
        if r1 then Some False
        else do {
          r2 \<leftarrow> any_of (byte_set a) [nStartBit div 8 + 1..<nEnd div 8];
          if r2 then Some False
          else if (nEnd + 1) mod 8 \<noteq> 0
          then map_option Not (any_of (GetAt a) [nEnd div 8 * 8..<nEnd + 1])
          else Some True
        }
      })"

definition invert_byte :: "nat \<Rightarrow> u8 list \<Rightarrow> u8 list option" where
  "invert_byte i p = do { x \<leftarrow> byte_at p i; byte_put i (NOT x) p }"

definition Invert :: "nat \<Rightarrow> sfbitarray \<Rightarrow> sfbitarray option" where
  "Invert nMaxBits a = do {
     n \<leftarrow> int_val (nMaxBits + 7);
     let a1 = (SetModified a)\<lparr>m_nLength := n div 8\<rparr>;
     let a2 = (if m_nLength a1 > m_nAllocLength a1
       then a1\<lparr>m_nAllocLength := m_nLength a1,
              m_pBuffer := Some (case m_pBuffer a1 of None \<Rightarrow> AllocPtr (m_nLength a1) | Some p \<Rightarrow> ReAllocPtr p (m_nLength a1))\<rparr>
       else a1);
     a3 \<leftarrow> for_each (\<lambda>i. on_buf (invert_byte i)) [0..<m_nLength a2] a2;
     for_each (\<lambda>nBit. on_buf (ResetBit nBit)) [nMaxBits..<8 * m_nLength a2] a3
   }"

text \<open>The loop of \<open>Delete\<close>: bit \<open>nIndex\<close> moves down to \<open>nStart+nIndex-(nEnd+1)\<close>.\<close>

definition move_down :: "nat \<Rightarrow> nat \<Rightarrow> nat \<Rightarrow> sfbitarray \<Rightarrow> sfbitarray option" where
  "move_down nStart nEnd nIndex a = do {
     g \<leftarrow> GetAt a nIndex;
     if g then do { a1 \<leftarrow> ResetAt nIndex a; n \<leftarrow> int_val (nStart + nIndex); SetAt (n - (nEnd + 1)) a1 }
     else do { n \<leftarrow> int_val (nStart + nIndex); ResetAt (n - (nEnd + 1)) a }
   }"

definition Delete :: "nat \<Rightarrow> nat \<Rightarrow> sfbitarray \<Rightarrow> sfbitarray option" where
  "Delete nStart nEnd0 a = do {
     nMaxBits \<leftarrow> bit_length a;
     if nStart \<ge> nMaxBits \<or> nStart > nEnd0 then Some a
     else do {
       let nEnd = min nEnd0 (nMaxBits - 1);
       a1 \<leftarrow> ResetRange nStart nEnd a;
       a2 \<leftarrow> for_each (move_down nStart nEnd) [nEnd + 1..<nMaxBits] a1;
       let n = nMaxBits - (nEnd - nStart + 1);
       let a3 = a2\<lparr>m_bModified := True, m_nLength := n div 8 + (if n mod 8 \<noteq> 0 then 1 else 0)\<rparr>;
       for_each (\<lambda>nIndex. on_buf (ResetBit nIndex)) [n..<n + (8 - n mod 8)] a3
     }
   }"

definition move_up :: "nat \<Rightarrow> nat \<Rightarrow> sfbitarray \<Rightarrow> sfbitarray option" where
  "move_up nCount nIndex a = do {
     p \<leftarrow> m_pBuffer a;
     g \<leftarrow> GetBit p nIndex;
     if g then do { a1 \<leftarrow> on_buf (ResetBit nIndex) a; on_buf (SetBit (nIndex + nCount)) a1 } else Some a
   }"

text \<open>An empty range (\<open>nCount = 0\<close>) sets or resets nothing, but still grows and marks the array.\<close>

definition Insert :: "nat \<Rightarrow> nat \<Rightarrow> bool \<Rightarrow> sfbitarray \<Rightarrow> sfbitarray option" where
  "Insert nStart nCount bSet a = do {
     nMaxBits \<leftarrow> bit_length a;
     nLength \<leftarrow> int_val (nMaxBits + nCount + (nStart - nMaxBits));
     a0 \<leftarrow> SetLength nLength a;
     a1 \<leftarrow> for_each (move_up nCount) (rev [nStart + 1..<nMaxBits]) a0;
     if bSet then SetRange (nStart + 1) (nStart + nCount) a1 else ResetRange (nStart + 1) (nStart + nCount) a1
   }"

section \<open>Compression of an array\<close>

definition Compress :: "sfbitarray \<Rightarrow> sfbitarray option" where
  "Compress a =
     (if m_bCompressed a \<or> m_nLength a = 0 then Some a
      else do {
        p \<leftarrow> buf_prefix a (m_nLength a);
        (q, n) \<leftarrow> rle_Compress p (m_nLength a);
        Some ((FreeBuffer a)\<lparr>m_bCompressed := True, m_pBuffer := q, m_nLength := n\<rparr>)
      })"

definition Decompress :: "sfbitarray \<Rightarrow> sfbitarray option" where
  "Decompress a =
     (if \<not> m_bCompressed a \<or> m_nLength a = 0 then Some a
      else do {
        (q, n) \<leftarrow> rle_Decompress (m_pBuffer a) (m_nLength a) (- 1);
        Some (a\<lparr>m_bCompressed := False, m_pBuffer := q, m_nLength := n\<rparr>)
      })"

section \<open>Static helpers on raw blocks\<close>

datatype operation = OpOR | OpAND | OpXOR | OpCOPY

definition grow_block :: "u8 list option \<Rightarrow> nat \<Rightarrow> nat \<Rightarrow> u8 list option \<times> nat" where
  "grow_block des desLen n =
     (if desLen < n
      then (Some (if desLen = 0 then AllocPtr n else case des of None \<Rightarrow> AllocPtr n | Some d \<Rightarrow> ReAllocPtr d n), n)
      else (des, desLen))"

definition zip_block :: "(u8 \<Rightarrow> u8 \<Rightarrow> u8) \<Rightarrow> u8 list option \<Rightarrow> nat \<Rightarrow> u8 list option \<Rightarrow> u8 list option option" where
  "zip_block f srcp i desp = do {
     src \<leftarrow> srcp; y \<leftarrow> byte_at src i; des \<leftarrow> desp; x \<leftarrow> byte_at des i; d \<leftarrow> byte_put i (f x y) des; Some (Some d)
   }"

definition Mem :: "operation \<Rightarrow> u8 list option \<Rightarrow> nat \<Rightarrow> u8 list option \<Rightarrow> nat \<Rightarrow> (u8 list option \<times> nat) option" where
  "Mem op src srcLen des desLen =
     (if op = OpAND
      then do {
        let n = min desLen srcLen;
        d \<leftarrow> for_each (zip_block (AND) src) [0..<n] des;
        n' \<leftarrow> (if n = 0 then Some 0 else do { p \<leftarrow> d; trim_len p n });
        Some (d, n')
      }
      else do {
        let (d0, n) = grow_block des desLen srcLen;
        d1 \<leftarrow> for_each (zip_block (case op of OpOR \<Rightarrow> (OR) | OpXOR \<Rightarrow> (XOR) | _ \<Rightarrow> (\<lambda>x y. y)) src) [0..<srcLen] d0;
        Some (d1, n)
      })"

definition Mem_array :: "operation \<Rightarrow> sfbitarray \<Rightarrow> sfbitarray \<Rightarrow> sfbitarray option" where
  "Mem_array op src des = (case op of OpAND \<Rightarrow> and_assign src des | OpCOPY \<Rightarrow> assign src des
     | OpOR \<Rightarrow> or_assign src des | OpXOR \<Rightarrow> xor_assign src des)"

definition BitsNot :: "u8 list option \<Rightarrow> nat \<Rightarrow> nat \<Rightarrow> (u8 list option \<times> nat) option" where
  "BitsNot pp nLength nNewBitsLen = do {
     n7 \<leftarrow> int_val (nNewBitsLen + 7);
     let nNewLen = n7 div 8;
     let (q, n) = (if nNewLen > nLength
       then (Some (if nLength = 0 then AllocPtr nNewLen else case pp of None \<Rightarrow> AllocPtr nNewLen | Some p \<Rightarrow> ReAllocPtr p nNewLen), nNewLen)
       else (pp, nLength));
     if nNewLen = 0 then Some (q, n)
     else do {
       p \<leftarrow> q;
       p1 \<leftarrow> for_each invert_byte [0..<nNewLen] p;
       p2 \<leftarrow> for_each ResetBit [nNewBitsLen..<8 * nNewLen] p1;
       Some (Some p2, n)
     }
   }"

text \<open>\<open>nValue\<close> is the four bytes of an \<open>int\<close>.\<close>

definition GetBitsValue :: "u8 list \<Rightarrow> nat \<Rightarrow> nat \<Rightarrow> int option" where
  "GetBitsValue p nStartBit nBitCount = do {
     nEnd \<leftarrow> int_val (nStartBit + nBitCount);
     v \<leftarrow> for_each (\<lambda>nBit v. do { g \<leftarrow> GetBit p nBit; if g then SetBit (nBit - nStartBit) v else Some v })
       [nStartBit..<nEnd] (replicate 4 0);
     Some (sint (un_le32 v))
   }"

definition SetAt_bits :: "u8 list \<Rightarrow> nat \<Rightarrow> u8 list \<Rightarrow> nat \<Rightarrow> nat \<Rightarrow> u8 list option" where
  "SetAt_bits src nSrcStartBit des nDesStartBit nBitCount = do {
     _ \<leftarrow> int_val (nSrcStartBit + nBitCount);
     _ \<leftarrow> int_val (nDesStartBit + nBitCount);
     for_each (\<lambda>i d. do {
       g \<leftarrow> GetBit src (nSrcStartBit + i);
       if g then SetBit (nDesStartBit + i) d else ResetBit (nDesStartBit + i) d
     }) [0..<nBitCount] des
   }"

end
