(* ===== verification/BitIndex.thy ===== *)
theory BitIndex
  imports BitArray
begin

text \<open>
  Counting and indexing the ones of a bit array (BaseLayer/SFBitArray.cpp: GetCount, GetRangeCount,
  Index, GetIndexBit, GetBitIndex, GetHeadBit, GetTailBit, GetActualBit, the conversions to arrays).
  The index holds the positions of every \<open>m_nBitSeg\<close>-th one; it is built on demand and dropped by
  \<open>SetModified\<close>. The methods update the caches of the object they are called on.
\<close>

section \<open>Counting\<close>

text \<open>The table \<open>bitCount\<close> of \<open>GetRangeCount\<close>, and the 256 entries of \<open>GetCount\<close>.\<close>

definition bitCount16 :: "nat list" where
  "bitCount16 = [0,1,1,2,1,2,2,3,1,2,2,3,2,3,3,4]"

definition bitCount :: "nat list" where
  "bitCount = [
    0,1,1,2,1,2,2,3,1,2,2,3,2,3,3,4,1,2,2,3,2,3,3,4,2,3,3,4,3,4,4,5,
    1,2,2,3,2,3,3,4,2,3,3,4,3,4,4,5,2,3,3,4,3,4,4,5,3,4,4,5,4,5,5,6,
    1,2,2,3,2,3,3,4,2,3,3,4,3,4,4,5,2,3,3,4,3,4,4,5,3,4,4,5,4,5,5,6,
    2,3,3,4,3,4,4,5,3,4,4,5,4,5,5,6,3,4,4,5,4,5,5,6,4,5,5,6,5,6,6,7,
    1,2,2,3,2,3,3,4,2,3,3,4,3,4,4,5,2,3,3,4,3,4,4,5,3,4,4,5,4,5,5,6,
    2,3,3,4,3,4,4,5,3,4,4,5,4,5,5,6,3,4,4,5,4,5,5,6,4,5,5,6,5,6,6,7,
    2,3,3,4,3,4,4,5,3,4,4,5,4,5,5,6,3,4,4,5,4,5,5,6,4,5,5,6,5,6,6,7,
    3,4,4,5,4,5,5,6,4,5,5,6,5,6,6,7,4,5,5,6,5,6,6,7,5,6,6,7,6,7,7,8]"

definition GetCount :: "sfbitarray \<Rightarrow> (int \<times> sfbitarray) option" where
  "GetCount a =
     (if m_nCount a = - 1
      then do {
        n \<leftarrow> for_each (\<lambda>i n. do { by \<leftarrow> byte_of a i; if by \<noteq> 0 then int_val (n + bitCount ! unat by) else Some n })
          [0..<m_nLength a] 0;
        Some (int n, a\<lparr>m_nCount := int n\<rparr>)
      }
      else Some (m_nCount a, a))"

text \<open>Adds one for every set bit of the list of bit numbers.\<close>

definition count_bits :: "sfbitarray \<Rightarrow> nat list \<Rightarrow> nat \<Rightarrow> nat option" where
  "count_bits a = for_each (\<lambda>nBit n. do { g \<leftarrow> GetAt a nBit; if g then int_val (n + 1) else Some n })"

definition GetRangeCount :: "sfbitarray \<Rightarrow> nat \<Rightarrow> nat \<Rightarrow> nat option" where
  "GetRangeCount a nStartBit nEndBit = do {
     let bFirstByte = (nStartBit mod 8 \<noteq> 0);
     n1 \<leftarrow> (if bFirstByte then do { k \<leftarrow> int_val ((nStartBit div 8 + 1) * 8); count_bits a [nStartBit..<k] 0 } else Some 0);
     let nEndByte = nEndBit div 8;
     n2 \<leftarrow> for_each (\<lambda>i n. do {
         by \<leftarrow> byte_of a i;
         if by \<noteq> 0
         then int_val (n + (if by = 0xff then 8 else bitCount16 ! unat (by AND 0x0f) + bitCount16 ! unat (drop_bit 4 (by AND 0xf0))))
         else Some n
       }) [nStartBit div 8 + (if bFirstByte then 1 else 0)..<nEndByte] n1;
     ns \<leftarrow> count_to (nEndByte * 8) nEndBit;
     count_bits a ns n2
   }"

section \<open>The index\<close>

definition SEG_COUNT :: int where "SEG_COUNT = 10240"

text \<open>The inner loop \<open>while(by)\<close>: the positions of the ones of a byte, from \<open>nBit\<close> on.\<close>

function byte_ones :: "u8 \<Rightarrow> nat \<Rightarrow> nat list" where
  "byte_ones by nBit =
     (if by = 0 then []
      else if bit by 0 then nBit # byte_ones (drop_bit 1 by) (nBit + 1)
      else byte_ones (drop_bit 1 by) (nBit + 1))"
  by pat_completeness auto

text \<open>A visit of every one of the buffer, in ascending order. The bit number \<open>nBit\<close> starts at \<open>nByte<<3\<close>
  and ends behind the last one of the byte.\<close>

definition each_one :: "(nat \<Rightarrow> 's \<Rightarrow> 's option) \<Rightarrow> sfbitarray \<Rightarrow> nat list \<Rightarrow> 's \<Rightarrow> 's option" where
  "each_one f a = for_each (\<lambda>i s. do {
     by \<leftarrow> byte_of a i;
     let ns = byte_ones by (8 * i);
     if ns = [] then Some s else do { _ \<leftarrow> int_val (last ns + 1); for_each f ns s }
   })"

text \<open>The index array is allocated with \<open>cap\<close> entries; a store behind them is \<open>None\<close>.\<close>

definition index_one :: "nat \<Rightarrow> nat \<Rightarrow> nat \<Rightarrow> nat list \<times> nat \<Rightarrow> (nat list \<times> nat) option" where
  "index_one seg cap nBit st =
     (case st of (ix, cnt) \<Rightarrow>
        if cnt mod seg = 0
        then (if length ix < cap then Some (ix @ [nBit], cnt + 1) else None)
        else Some (ix, cnt + 1))"

definition Index :: "sfbitarray \<Rightarrow> sfbitarray option" where
  "Index a =
     (if m_nLength a = 0 then Some a
      else do {
        (n, a1) \<leftarrow> GetCount a;
        let seg = nat (n div SEG_COUNT + 1);
        let cap = nat n div seg + 1;
        (ix, cnt) \<leftarrow> each_one (index_one seg cap) a1 [0..<m_nLength a1] ([], 0);
        Some (a1\<lparr>m_nBitSeg := seg, m_nIndexes := Some ix, m_nIndexesCount := length ix, m_nCount := int cnt\<rparr>)
      })"

definition ensure_index :: "sfbitarray \<Rightarrow> sfbitarray option" where
  "ensure_index a = (case m_nIndexes a of None \<Rightarrow> Index a | Some _ \<Rightarrow> Some a)"

definition index_at :: "sfbitarray \<Rightarrow> nat \<Rightarrow> nat option" where
  "index_at a i = do { ix \<leftarrow> m_nIndexes a; if i < length ix then Some (ix ! i) else None }"

partial_function (option) skip_ones :: "sfbitarray \<Rightarrow> nat \<Rightarrow> nat \<Rightarrow> nat \<Rightarrow> int option" where
  "skip_ones a nMaxBit lReminder bitmap =
     (if lReminder > 0
      then if bitmap + 1 \<ge> nMaxBit then Some (- 1)
        else do {
          g \<leftarrow> GetAt a (bitmap + 1);
          skip_ones a nMaxBit (if g then lReminder - 1 else lReminder) (bitmap + 1)
        }
      else Some (int bitmap))"

definition GetIndexBit :: "int \<Rightarrow> sfbitarray \<Rightarrow> (int \<times> sfbitarray) option" where
  "GetIndexBit nIndex a =
     (if nIndex \<le> - 1 then Some (- 1, a)
      else do {
        (n, a1) \<leftarrow> GetCount a;
        if nIndex \<ge> n then Some (- 1, a1)
        else do {
          a2 \<leftarrow> ensure_index a1;
          let nMapIndex = nat nIndex div m_nBitSeg a2;
          if nMapIndex \<ge> m_nIndexesCount a2 then Some (- 1, a2)
          else if m_nBitSeg a2 = 1 then do { b \<leftarrow> index_at a2 (nat nIndex); Some (int b, a2) }
          else do {
            b \<leftarrow> index_at a2 nMapIndex;
            nMaxBit \<leftarrow> bit_length a2;
            r \<leftarrow> skip_ones a2 nMaxBit (nat nIndex mod m_nBitSeg a2) b;
            Some (r, a2)
          }
        }
      })"

partial_function (option) find_seg :: "sfbitarray \<Rightarrow> nat \<Rightarrow> int \<Rightarrow> int \<Rightarrow> nat \<Rightarrow> nat option" where
  "find_seg a nBit nStart nEnd nMapIndex =
     (if nStart < nEnd
      then do {
        let m = nat ((nEnd + nStart) div 2);
        x \<leftarrow> index_at a m;
        if nBit = x then Some m
        else if nBit < x then find_seg a nBit nStart (int m - 1) m
        else find_seg a nBit (int m + 1) nEnd m
      }
      else Some nMapIndex)"

partial_function (option) step_back :: "sfbitarray \<Rightarrow> nat \<Rightarrow> nat \<Rightarrow> nat option" where
  "step_back a nBit nMapIndex =
     (if nMapIndex > 0
      then do { x \<leftarrow> index_at a nMapIndex; if nBit < x then step_back a nBit (nMapIndex - 1) else Some nMapIndex }
      else Some nMapIndex)"

definition GetBitIndex :: "nat \<Rightarrow> sfbitarray \<Rightarrow> (int \<times> sfbitarray) option" where
  "GetBitIndex nBit a = do {
     (n, a1) \<leftarrow> GetCount a;
     if n = 0 then Some (- 1, a1)
     else do {
       a2 \<leftarrow> ensure_index a1;
       m0 \<leftarrow> find_seg a2 nBit 0 (int (m_nIndexesCount a2)) 0;
       m \<leftarrow> step_back a2 nBit m0;
       x \<leftarrow> index_at a2 m;
       r \<leftarrow> count_bits a2 [x..<nBit] (m * m_nBitSeg a2);
       g \<leftarrow> GetAt a2 nBit;
       Some (if g then int r else int r - 1, a2)
     }
   }"

definition GetHeadBit :: "sfbitarray \<Rightarrow> (int \<times> sfbitarray) option" where
  "GetHeadBit a = GetIndexBit 0 a"

definition GetTailBit :: "sfbitarray \<Rightarrow> (int \<times> sfbitarray) option" where
  "GetTailBit a = do { (n, a1) \<leftarrow> GetCount a; GetIndexBit (n - 1) a1 }"

definition GetActualBit :: "nat \<Rightarrow> sfbitarray \<Rightarrow> (int \<times> sfbitarray) option" where
  "GetActualBit dwIndexBit a = do {
     g \<leftarrow> GetAt a dwIndexBit;
     if g then Some (int dwIndexBit, a)
     else do {
       (nIndex, a1) \<leftarrow> GetBitIndex dwIndexBit a;
       if nIndex = 0 then GetHeadBit a1
       else do {
         (n, a2) \<leftarrow> GetCount a1;
         if nIndex = n then GetTailBit a2 else GetIndexBit nIndex a2
       }
     }
   }"

section \<open>Arrays of positions\<close>

text \<open>The result array has \<open>GetCount\<close> elements; \<open>put_next\<close> stores at the running index.\<close>

definition put_next :: "nat \<Rightarrow> int list \<times> nat \<Rightarrow> (int list \<times> nat) option" where
  "put_next nBit st = (case st of (xs, n) \<Rightarrow> if n < length xs then Some (xs[n := int nBit], n + 1) else None)"

text \<open>\<open>Bmp2Array(int*&, bool)\<close>: \<open>buf\<close> is the caller's block when \<open>bAllocated\<close>.\<close>

definition Bmp2Array :: "int list option \<Rightarrow> bool \<Rightarrow> sfbitarray \<Rightarrow> (nat \<times> int list option \<times> sfbitarray) option" where
  "Bmp2Array buf bAllocated a = do {
     (nCount, a1) \<leftarrow> GetCount a;
     if nCount = 0 then Some (0, buf, a1)
     else do {
       b \<leftarrow> (if bAllocated then buf else do { _ \<leftarrow> int_val (4 * nat nCount); Some (replicate (nat nCount) 0) });
       (xs, n) \<leftarrow> each_one put_next a1 [0..<m_nLength a1] (b, 0);
       Some (n, Some xs, a1)
     }
   }"

text \<open>\<open>Bmp2Array(vector<int>&)\<close>: \<open>(int*&)*nArray.begin()\<close> takes the bytes of the first element for the
  pointer; after \<open>resize\<close> of an empty vector these are zero, the null pointer.\<close>

definition Bmp2Array_vector :: "sfbitarray \<Rightarrow> (nat \<times> sfbitarray) option" where
  "Bmp2Array_vector a = do {
     (nCount, a1) \<leftarrow> GetCount a;
     if nCount = 0 then None
     else do { (n, _, a2) \<leftarrow> Bmp2Array None True a1; Some (n, a2) }
   }"

definition Append2Array :: "int list \<Rightarrow> sfbitarray \<Rightarrow> (int list \<times> sfbitarray) option" where
  "Append2Array nArray a = do {
     (nCount, a1) \<leftarrow> GetCount a;
     n \<leftarrow> int_val (length nArray + nat nCount);
     (xs, _) \<leftarrow> each_one put_next a1 [0..<m_nLength a1] (nArray @ replicate (n - length nArray) 0, length nArray);
     Some (xs, a1)
   }"

definition push_bit_no :: "sfbitarray \<Rightarrow> nat \<Rightarrow> int list \<Rightarrow> int list option" where
  "push_bit_no a nBit xs = do { g \<leftarrow> GetAt a nBit; Some (if g then xs @ [int nBit] else xs) }"

definition Range2Array :: "nat \<Rightarrow> nat \<Rightarrow> int list \<Rightarrow> sfbitarray \<Rightarrow> (nat \<times> int list) option" where
  "Range2Array nStartBit nEndBit nArray a = do {
     n \<leftarrow> bit_length a;
     if nStartBit \<ge> n then Some (0, nArray)
     else do {
        let nEnd = min nEndBit (n - 1);
        let bFirstByte = (nStartBit mod 8 \<noteq> 0);
        x1 \<leftarrow> (if bFirstByte then for_each (push_bit_no a) [nStartBit..<(nStartBit div 8 + 1) * 8] nArray else Some nArray);
        x2 \<leftarrow> each_one (\<lambda>nBit xs. Some (xs @ [int nBit])) a
          [nStartBit div 8 + (if bFirstByte then 1 else 0)..<nEnd div 8] x1;
        x3 \<leftarrow> for_each (push_bit_no a) [nEnd div 8 * 8..<nEnd + 1] x2;
        Some (length x3 - length nArray, x3)
     }
   }"

lemma drop_bit_less: "by \<noteq> 0 \<Longrightarrow> unat (drop_bit 1 (by :: u8)) < unat by"
proof -
  assume "by \<noteq> 0"
  then have "0 < unat by" by (simp add: unat_gt_0)
  moreover have "unat (drop_bit 1 by) = drop_bit 1 (unat by)" by (rule unat_drop_bit_eq)
  moreover have "drop_bit 1 (unat by) = unat by div 2" by (simp only: drop_bit_eq_div) simp
  ultimately show ?thesis by linarith
qed

termination byte_ones
  by (relation "measure (\<lambda>(by, _). unat by)") (use drop_bit_less in \<open>auto simp only: in_measure prod.case wf_measure\<close>)

declare byte_ones.simps [simp del]
declare skip_ones.simps [code] find_seg.simps [code] step_back.simps [code]

end
