(* ===== verification/BitRleProps.thy ===== *)
theory BitRleProps
  imports BitRle
begin

text \<open>
  The run-length coding of bit arrays is read as a sequence of tokens: compressing and decompressing
  gives back the bytes without trailing zeros, reading a bit of the compressed stream agrees with the
  bytes it stands for, and setting a bit in the stream sets it in these bytes, except where a literal
  that becomes 0xff is merged with the run behind it.
\<close>

section \<open>Tokens\<close>

datatype tok = TLit u8 | TRun u8 nat

fun tok_ok :: "tok \<Rightarrow> bool" where
  "tok_ok (TLit x) \<longleftrightarrow> x \<noteq> 0 \<and> x \<noteq> 0xff"
| "tok_ok (TRun x n) \<longleftrightarrow> (x = 0 \<or> x = 0xff) \<and> 0 < n \<and> n \<le> 65535"

fun enc :: "tok \<Rightarrow> u8 list" where
  "enc (TLit x) = [x]"
| "enc (TRun x n) = x # le16 (of_nat n)"

fun expand1 :: "tok \<Rightarrow> u8 list" where
  "expand1 (TLit x) = [x]"
| "expand1 (TRun x n) = replicate n x"

definition encs :: "tok list \<Rightarrow> u8 list" where
  "encs ts = concat (map enc ts)"

definition expands :: "tok list \<Rightarrow> u8 list" where
  "expands ts = concat (map expand1 ts)"

abbreviation toks_ok :: "tok list \<Rightarrow> bool" where
  "toks_ok ts \<equiv> list_all tok_ok ts"

lemma encs_simps [simp]: "encs [] = []" "encs (t # ts) = enc t @ encs ts" "encs (ts @ us) = encs ts @ encs us"
  by (simp_all add: encs_def)

lemma expands_simps [simp]: "expands [] = []" "expands (t # ts) = expand1 t @ expands ts"
  "expands (ts @ us) = expands ts @ expands us"
  by (simp_all add: expands_def)

lemmas sizes = COMPRESS_SIZE_def COMPRESS_COUNT_def

section \<open>Decompress\<close>

lemma byte_at_head [blk_simps]: "byte_at (pre @ (x # post) @ more) (length pre) = Some x"
  by (simp add: byte_at_def)

lemma word_at_run [blk_simps]:
  "n \<le> 65535 \<Longrightarrow> word_at (pre @ (x # le16 (of_nat n)) @ post) (Suc (length pre)) = Some n"
  using word_at_mid [of n "pre @ [x]" post] by simp

text \<open>A block whose first bytes are \<open>out\<close> and whose other bytes are zero.\<close>

definition zero_tail :: "u8 list \<Rightarrow> u8 list \<Rightarrow> bool" where
  "zero_tail out des \<longleftrightarrow> (\<exists>k. des = out @ replicate k 0)"

lemma zero_tail_realloc: "\<lbrakk>zero_tail out des; length out \<le> n\<rbrakk> \<Longrightarrow> zero_tail out (ReAllocPtr des n)"
  by (auto simp: zero_tail_def ReAllocPtr_def replicate_add [symmetric] min_def)

lemma zero_tail_run: "\<lbrakk>zero_tail out des; length out + n \<le> length des\<rbrakk> \<Longrightarrow>
    \<exists>d. (if x \<noteq> 0 then memset (length out) x n des else Some des) = Some d \<and> zero_tail (out @ replicate n x) d \<and>
      length d = length des"
proof -
  assume a: "zero_tail out des" "length out + n \<le> length des"
  then obtain k where k: "des = out @ replicate k 0" "n \<le> k" by (auto simp: zero_tail_def)
  then have "des = out @ replicate n 0 @ replicate (k - n) 0" by (simp add: replicate_add [symmetric])
  then show ?thesis
    using k by (cases "x = 0") (auto simp: memset_def mem_write_def zero_tail_def)
qed

lemma zero_tail_lit: "\<lbrakk>zero_tail out des; length out < length des\<rbrakk> \<Longrightarrow>
    \<exists>d. byte_put (length out) x des = Some d \<and> zero_tail (out @ [x]) d \<and> length d = length des"
proof -
  assume a: "zero_tail out des" "length out < length des"
  then obtain k where k: "des = out @ replicate k 0" "0 < k" by (auto simp: zero_tail_def)
  then obtain j where "des = out @ 0 # replicate j 0" by (cases k) auto
  then show ?thesis by (auto simp: byte_put_def zero_tail_def)
qed

lemma decompress_run:
  assumes "nByte < n" "byte_at src nByte = Some x" "x = 0 \<or> x = 0xff" "word_at src (nByte + 1) = Some r"
    and "(if x \<noteq> 0 then memset nD x r (if nD + r + 10 \<ge> length des then ReAllocPtr des (nD + r + 1024) else des)
      else Some (if nD + r + 10 \<ge> length des then ReAllocPtr des (nD + r + 1024) else des)) = Some d"
  shows "decompress_loop src n (- 1) nByte des nD = decompress_loop src n (- 1) (nByte + 3) d (nD + r)"
  using assms(1-4) by (subst decompress_loop.simps) (simp add: Let_def assms(5) sizes numeral_3_eq_3 split del: if_split)

lemma decompress_lit:
  assumes "nByte < n" "byte_at src nByte = Some x" "x \<noteq> 0" "x \<noteq> 0xff"
    and "byte_put nD x (if nD + 10 \<ge> length des then ReAllocPtr des (nD + 1024) else des) = Some d"
  shows "decompress_loop src n (- 1) nByte des nD = decompress_loop src n (- 1) (nByte + 1) d (nD + 1)"
  using assms(1-4) by (subst decompress_loop.simps) (simp add: Let_def assms(5) split del: if_split)

text \<open>The token at the position a loop stands at.\<close>

lemma tok_at:
  "byte_at (pre @ encs (TLit x # ts) @ post) (length pre) = Some x"
  "byte_at (pre @ encs (TRun x r # ts) @ post) (length pre) = Some x"
  "r \<le> 65535 \<Longrightarrow> word_at (pre @ encs (TRun x r # ts) @ post) (length pre + 1) = Some r"
  using word_at_run [of r pre x "encs ts @ post"] by (simp_all add: byte_at_def)

lemma rle_decompress_loop_toks:
  "\<lbrakk>toks_ok ts; zero_tail out des\<rbrakk> \<Longrightarrow>
    \<exists>des'. decompress_loop (pre @ encs ts @ post) (length pre + length (encs ts)) (- 1) (length pre) des (length out) =
      Some (des', length (out @ expands ts)) \<and> zero_tail (out @ expands ts) des'"
proof (induction ts arbitrary: pre out des)
  case Nil
  then show ?case by (subst decompress_loop.simps) simp
next
  case (Cons t ts)
  let ?src = "pre @ encs (t # ts) @ post" and ?n = "length pre + length (encs (t # ts))"
  have ok: "tok_ok t" "toks_ok ts" using Cons.prems(1) by simp_all
  have lt: "length pre < ?n" by (cases t) simp_all
  have IH: "\<exists>des'. decompress_loop ?src ?n (- 1) (length pre + length (enc t)) d (length o') =
      Some (des', length (o' @ expands ts)) \<and> zero_tail (o' @ expands ts) des'" if "zero_tail o' d" for o' d
    using Cons.IH [OF ok(2) that, of "pre @ enc t"] by (simp add: add.assoc)
  show ?case
  proof (cases t)
    case (TLit x)
    let ?d = "if length out + 10 \<ge> length des then ReAllocPtr des (length out + 1024) else des"
    have "zero_tail out ?d" "length out < length ?d" using Cons.prems(2) zero_tail_realloc by auto
    from zero_tail_lit [OF this] obtain d where d: "byte_put (length out) x ?d = Some d" "zero_tail (out @ [x]) d" by blast
    have "decompress_loop ?src ?n (- 1) (length pre) des (length out) = decompress_loop ?src ?n (- 1) (length pre + 1) d (length out + 1)"
      using decompress_lit [OF lt _ _ _ d(1)] tok_at(1) ok(1) TLit by simp
    then show ?thesis using IH [OF d(2)] TLit by simp
  next
    case (TRun x r)
    let ?d = "if length out + r + 10 \<ge> length des then ReAllocPtr des (length out + r + 1024) else des"
    have "zero_tail out ?d" "length out + r \<le> length ?d" using Cons.prems(2) zero_tail_realloc by auto
    from zero_tail_run [OF this, of x] obtain d where
      d: "(if x \<noteq> 0 then memset (length out) x r ?d else Some ?d) = Some d" "zero_tail (out @ replicate r x) d" by blast
    have "decompress_loop ?src ?n (- 1) (length pre) des (length out) =
        decompress_loop ?src ?n (- 1) (length pre + 3) d (length out + r)"
      using decompress_run [OF lt _ _ _ d(1)] tok_at(2,3) ok(1) TRun by (simp del: encs_simps)
    then show ?thesis using IH [OF d(2)] TRun by simp
  qed
qed

section \<open>GetAt\<close>

definition nth_bit :: "u8 list \<Rightarrow> nat \<Rightarrow> bool" where
  "nth_bit bs n \<longleftrightarrow> n div 8 < length bs \<and> bit (bs ! (n div 8)) (n mod 8)"

lemma bit_ff: "bit (0xff :: u8) (n mod 8)"
proof -
  have "bit (mask 8 :: u8) (n mod 8)" by (simp only: bit_mask_iff) simp
  then show ?thesis by (simp add: mask_eq_exp_minus_1)
qed

lemma get_run:
  "\<lbrakk>nByte < n; byte_at src nByte = Some x; x = 0 \<or> x = 0xff; word_at src (nByte + 1) = Some r\<rbrakk> \<Longrightarrow>
    get_loop src n nBit nByte nD = (if nBit div 8 < nD + r then Some (x = 0xff) else get_loop src n nBit (nByte + 3) (nD + r))"
  by (subst get_loop.simps) (simp add: sizes numeral_3_eq_3 numeral_2_eq_2)

lemma get_lit:
  "\<lbrakk>nByte < n; byte_at src nByte = Some x; x \<noteq> 0; x \<noteq> 0xff\<rbrakk> \<Longrightarrow>
    get_loop src n nBit nByte nD = (if nD = nBit div 8 then Some (bit x (nBit mod 8)) else get_loop src n nBit (nByte + 1) (nD + 1))"
  by (subst get_loop.simps) (simp add: GetBit_def)

lemma get_loop_toks:
  "\<lbrakk>toks_ok ts; length out \<le> nBit div 8\<rbrakk> \<Longrightarrow>
    get_loop (pre @ encs ts @ post) (length pre + length (encs ts)) nBit (length pre) (length out) =
      Some (nth_bit (out @ expands ts) nBit)"
proof (induction ts arbitrary: pre out)
  case Nil
  then show ?case by (subst get_loop.simps) (simp add: nth_bit_def)
next
  case (Cons t ts)
  let ?src = "pre @ encs (t # ts) @ post" and ?n = "length pre + length (encs (t # ts))"
  have ok: "tok_ok t" "toks_ok ts" using Cons.prems(1) by simp_all
  have lt: "length pre < ?n" by (cases t) simp_all
  have IH: "get_loop ?src ?n nBit (length pre + length (enc t)) (length (out @ expand1 t)) =
      Some (nth_bit (out @ expand1 t @ expands ts) nBit)" if "length (out @ expand1 t) \<le> nBit div 8"
    using Cons.IH [OF ok(2) that, of "pre @ enc t"] by (simp add: add.assoc)
  show ?case
  proof (cases t)
    case (TLit x)
    have "get_loop ?src ?n nBit (length pre) (length out) = (if length out = nBit div 8 then Some (bit x (nBit mod 8))
        else get_loop ?src ?n nBit (length pre + 1) (length out + 1))"
      using get_lit [OF lt] tok_at(1) ok(1) TLit by simp
    then show ?thesis using IH TLit Cons.prems(2) by (auto simp: nth_bit_def nth_append)
  next
    case (TRun x r)
    have "get_loop ?src ?n nBit (length pre) (length out) =
        (if nBit div 8 < length out + r then Some (x = 0xff)
         else get_loop ?src ?n nBit (length pre + 3) (length out + r))"
      using get_run [OF lt] tok_at(2,3) ok(1) TRun by (simp del: encs_simps)
    then show ?thesis using IH TRun ok(1) Cons.prems(2) bit_ff by (auto simp: nth_bit_def nth_append)
  qed
qed

section \<open>Compress\<close>

lemma zero_tail_word: "\<lbrakk>zero_tail out des; length out + 2 \<le> length des\<rbrakk> \<Longrightarrow>
    \<exists>d. word_put (length out) r des = Some d \<and> zero_tail (out @ le16 (of_nat r)) d \<and> length d = length des"
proof -
  assume a: "zero_tail out des" "length out + 2 \<le> length des"
  then obtain k where k: "des = out @ replicate k 0" "2 \<le> k" by (auto simp: zero_tail_def)
  then show ?thesis by (auto simp: word_put_def mem_write_def zero_tail_def)
qed

definition strip :: "u8 list \<Rightarrow> u8 list" where
  "strip xs = rev (dropWhile (\<lambda>x. x = 0) (rev xs))"

lemma strip_snoc [simp]: "strip (xs @ [x]) = (if x = 0 then strip xs else xs @ [x])" "strip [] = []"
  by (simp_all add: strip_def)

lemma trim_len_ok: "n \<le> length src \<Longrightarrow>
    trim_len src n = Some (length (strip (take n src))) \<and> take (length (strip (take n src))) src = strip (take n src)"
  by (induction n) (auto simp: byte_at_def take_Suc_conv_app_nth)

lemma length_strip: "length (strip xs) \<le> length xs"
  using length_dropWhile_le [of "\<lambda>x. x = 0" "rev xs"] by (simp add: strip_def)

lemma run_scan_ok:
  "\<lbrakk>n \<le> length src; nByte \<le> n; r \<le> 65535\<rbrakk> \<Longrightarrow>
    \<exists>k. run_scan src n x nByte r = Some (nByte + k, r + k) \<and> nByte + k \<le> n \<and> r + k \<le> 65535 \<and>
      drop nByte (take n src) = replicate k x @ drop (nByte + k) (take n src)"
proof (induction "n - nByte" arbitrary: nByte r)
  case 0
  then show ?case by (subst run_scan.simps) (auto simp: sizes intro: exI [of _ 0])
next
  case (Suc d)
  then have lt: "nByte < n" by simp
  have hd: "drop nByte (take n src) = src ! nByte # drop (Suc nByte) (take n src)"
    using lt Suc.prems(1) by (simp add: Cons_nth_drop_Suc [symmetric])
  show ?case
  proof (cases "r < 65535 \<and> src ! nByte = x")
    case True
    have d: "d = n - Suc nByte" "Suc nByte \<le> n" "Suc r \<le> 65535" using Suc.hyps(2) True lt by simp_all
    obtain k where k: "run_scan src n x (Suc nByte) (Suc r) = Some (Suc nByte + k, Suc r + k)" "Suc nByte + k \<le> n"
      "Suc r + k \<le> 65535" "drop (Suc nByte) (take n src) = replicate k x @ drop (Suc nByte + k) (take n src)"
      using Suc.hyps(1) [OF d(1) Suc.prems(1) d(2,3)] by blast
    have "run_scan src n x nByte r = run_scan src n x (Suc nByte) (Suc r)"
      using True lt Suc.prems(1) by (subst run_scan.simps) (simp add: sizes byte_at_def)
    then show ?thesis using k hd True by (intro exI [of _ "Suc k"]) simp
  next
    case False
    then have "run_scan src n x nByte r = Some (nByte, r)"
      using lt Suc.prems by (subst run_scan.simps) (auto simp: sizes byte_at_def)
    then show ?thesis using Suc.prems by (intro exI [of _ 0]) simp
  qed
qed

lemma compress_step:
  assumes "nByte < n" "byte_at src nByte = Some x" "byte_put nD x (if nD + 5 > length des then ReAllocPtr des (length des + 1024) else des) = Some d"
  shows "compress_loop src n nByte des nD =
    (if x = 0 \<or> x = 0xff
     then run_scan src n x (nByte + 1) 1 \<bind> (\<lambda>(j, r). word_put (nD + 1) r d \<bind> (\<lambda>d'. compress_loop src n j d' (nD + 3)))
     else compress_loop src n (nByte + 1) d (nD + 1))"
  using assms(1,2) by (subst compress_loop.simps) (simp add: Let_def assms(3) sizes numeral_3_eq_3 split del: if_split cong: if_cong)

lemma rle_compress_loop_ok:
  "\<lbrakk>n \<le> length src; nByte \<le> n; zero_tail out des\<rbrakk> \<Longrightarrow>
    \<exists>ts des'. compress_loop src n nByte des (length out) = Some (des', length (out @ encs ts)) \<and> toks_ok ts \<and>
      zero_tail (out @ encs ts) des' \<and> expands ts = drop nByte (take n src)"
proof (induction "n - nByte" arbitrary: nByte out des rule: less_induct)
  case less
  show ?case
  proof (cases "nByte < n")
    case False
    then show ?thesis using less.prems by (subst compress_loop.simps) (auto intro!: exI [of _ "[]"])
  next
    case True
    let ?x = "src ! nByte"
    let ?d = "if length out + 5 > length des then ReAllocPtr des (length des + 1024) else des"
    have hd: "drop nByte (take n src) = ?x # drop (Suc nByte) (take n src)"
      using True less.prems(1) by (simp add: Cons_nth_drop_Suc [symmetric])
    have at: "byte_at src nByte = Some ?x" using True less.prems(1) by (simp add: byte_at_def)
    have "length out \<le> length des" using less.prems(3) by (auto simp: zero_tail_def)
    then have "zero_tail out ?d" "length out + 3 \<le> length ?d" using less.prems(3) zero_tail_realloc by auto
    with zero_tail_lit [of out ?d ?x] obtain d where
      d: "byte_put (length out) ?x ?d = Some d" "zero_tail (out @ [?x]) d" "length out + 3 \<le> length d" by auto
    note step = compress_step [OF True at d(1)]
    have lt: "n - (nByte + 1) < n - nByte" "nByte + 1 \<le> n" using True by simp_all
    show ?thesis
    proof (cases "?x = 0 \<or> ?x = 0xff")
      case lit: False
      from less.hyps [OF lt(1) less.prems(1) lt(2) d(2)] obtain ts des' where
        "compress_loop src n (nByte + 1) d (length (out @ [?x])) = Some (des', length ((out @ [?x]) @ encs ts))"
        "toks_ok ts" "zero_tail ((out @ [?x]) @ encs ts) des'" "expands ts = drop (nByte + 1) (take n src)" by blast
      then show ?thesis using lit hd by (intro exI [of _ "TLit ?x # ts"] exI [of _ des']) (simp add: step)
    next
      case run: True
      obtain k where k: "run_scan src n ?x (nByte + 1) 1 = Some (nByte + 1 + k, 1 + k)" "nByte + 1 + k \<le> n" "1 + k \<le> 65535"
        "drop (nByte + 1) (take n src) = replicate k ?x @ drop (nByte + 1 + k) (take n src)"
        using run_scan_ok [OF less.prems(1), of "nByte + 1" 1 ?x] True by auto
      obtain d' where d': "word_put (length out + 1) (1 + k) d = Some d'" "zero_tail (out @ enc (TRun ?x (1 + k))) d'"
        using zero_tail_word [OF d(2), of "1 + k"] d(3) by auto
      let ?out = "out @ enc (TRun ?x (1 + k))"
      have lk: "n - (nByte + 1 + k) < n - nByte" using True by simp
      from less.hyps [OF lk less.prems(1) k(2) d'(2)] obtain ts des' where
        r: "compress_loop src n (nByte + 1 + k) d' (length ?out) = Some (des', length (?out @ encs ts))"
        "toks_ok ts" "zero_tail (?out @ encs ts) des'" "expands ts = drop (nByte + 1 + k) (take n src)" by blast
      have "length ?out = length out + 3" by simp
      then have "compress_loop src n nByte des (length out) = Some (des', length (?out @ encs ts))"
        using run r(1) by (simp only: step k(1) d'(1) bind.bind_lunit prod.case if_True simp_thms)
      then show ?thesis using run hd r(2-4) k(3,4)
        by (intro exI [of _ "TRun ?x (1 + k) # ts"] exI [of _ des']) simp
    qed
  qed
qed

lemma compress_ok:
  assumes "n \<le> length src"
  shows "strip (take n src) = [] \<Longrightarrow> rle_Compress src n = Some (None, 0)"
    "strip (take n src) \<noteq> [] \<Longrightarrow> \<exists>ts k. toks_ok ts \<and> expands ts = strip (take n src) \<and>
      rle_Compress src n = Some (Some (1 # encs ts @ replicate k 0), 1 + length (encs ts))"
proof -
  let ?m = "length (strip (take n src))"
  note t = trim_len_ok [OF assms]
  show "strip (take n src) = [] \<Longrightarrow> rle_Compress src n = Some (None, 0)" using t by (simp add: rle_Compress_def)
  assume ne: "strip (take n src) \<noteq> []"
  have m: "?m \<le> length src" using length_strip [of "take n src"] assms by simp
  obtain j where j: "?m = Suc j" using ne by (cases ?m) auto
  have "zero_tail [1] ((AllocPtr ?m)[0 := 1])" by (auto simp: zero_tail_def AllocPtr_def j)
  from rle_compress_loop_ok [OF m _ this, of 0] obtain ts des' where
    r: "compress_loop src ?m 0 ((AllocPtr ?m)[0 := 1]) 1 = Some (des', Suc (length (encs ts)))" "toks_ok ts"
      "zero_tail ([1] @ encs ts) des'" "expands ts = take ?m src" by auto
  then obtain k where "des' = 1 # encs ts @ replicate k 0" by (auto simp: zero_tail_def)
  then have "rle_Compress src n = Some (Some (1 # encs ts @ replicate k 0), 1 + length (encs ts))"
    using t ne r(1) by (simp add: rle_Compress_def byte_put_def)
  then show "\<exists>ts k. toks_ok ts \<and> expands ts = strip (take n src) \<and>
      rle_Compress src n = Some (Some (1 # encs ts @ replicate k 0), 1 + length (encs ts))"
    using r(2,4) t by auto
qed

lemma decompress_ok:
  assumes "toks_ok ts" "expands ts \<noteq> []"
  shows "rle_Decompress (Some (c # encs ts @ post)) (1 + length (encs ts)) (- 1) = Some (Some (expands ts), length (expands ts))"
proof -
  have "zero_tail [] (AllocPtr (Suc (length (encs ts))))" unfolding zero_tail_def AllocPtr_def by blast
  from rle_decompress_loop_toks [OF assms(1) this, of "[c]" post] obtain des' where
    d: "decompress_loop (c # encs ts @ post) (Suc (length (encs ts))) (- 1) (Suc 0) (AllocPtr (Suc (length (encs ts)))) 0 =
      Some (des', length (expands ts))" "zero_tail (expands ts) des'" by auto
  then have "ReAllocPtr des' (length (expands ts)) = expands ts" by (auto simp: zero_tail_def ReAllocPtr_def)
  then show ?thesis using d(1) assms(2) by (simp add: rle_Decompress_def)
qed

lemma get_ok: "toks_ok ts \<Longrightarrow>
    rle_GetAt (Some (c # encs ts @ post)) (1 + length (encs ts)) nBit = Some (nth_bit (expands ts) nBit)"
  using get_loop_toks [of ts "[]" nBit "[c]" post] by (simp add: rle_GetAt_def)

section \<open>Moving bytes inside a stream\<close>

lemma open_gap:
  assumes "a = length A" "n = length A + length B"
  shows "\<exists>s. memmove (a + g) a (int n - int a) (ReAllocPtr (A @ B @ replicate k 0) (n + g)) = Some s \<and>
    memset a 0 g s = Some (A @ replicate g 0 @ B)"
proof -
  have r: "ReAllocPtr (A @ B @ replicate k 0) (n + g) = A @ B @ replicate g 0"
    using assms by (auto simp: ReAllocPtr_def min_def replicate_add [symmetric])
  let ?s = "A @ take g (B @ replicate g 0) @ B"
  have "memmove (a + g) a (int n - int a) (A @ B @ replicate g 0) = Some ?s"
    using assms by (simp add: memmove_def mem_write_def mem_read_def)
  moreover have "memset a 0 g ?s = Some (A @ replicate g 0 @ B)"
    using assms by (simp add: memset_def mem_write_def)
  ultimately show ?thesis unfolding r by blast
qed

lemma close_gap:
  assumes "a = length A" "g = length G" "n = length A + length G + length B"
  shows "\<exists>s. memmove a (a + g) (int n - int a - int g) (A @ G @ B @ Z) = Some s \<and>
    memset (n - g) 0 g s = Some (A @ B @ replicate g 0 @ Z)"
proof -
  let ?s = "A @ B @ drop (length B) (G @ B) @ Z"
  have "memmove a (a + g) (int n - int a - int g) (A @ G @ B @ Z) = Some ?s"
    using assms by (simp add: memmove_def mem_write_def mem_read_def)
  moreover have "memset (n - g) 0 g ?s = Some (A @ B @ replicate g 0 @ Z)"
    using assms by (simp add: memset_def mem_write_def)
  ultimately show ?thesis by blast
qed

lemma memset_one: "memset i x 1 p = byte_put i x p"
  by (simp add: memset_def byte_put_def mem_write_def upd_conv_take_nth_drop)

lemma SetBit_mid: "\<lbrakk>a = length A; j < 8\<rbrakk> \<Longrightarrow> SetBit (8 * a + j) (A @ x # B) = Some (A @ (x OR push_bit j 1) # B)"
  by (simp add: SetBit_def byte_at_def byte_put_def)

lemma GetBit_mid: "\<lbrakk>a = length A; j < 8\<rbrakk> \<Longrightarrow> GetBit (A @ x # B) (8 * a + j) = Some (bit x j)"
  by (simp add: GetBit_def byte_at_def)

lemma single_bit: "j < 8 \<Longrightarrow> push_bit j 1 \<noteq> (0 :: u8) \<and> push_bit j 1 \<noteq> (0xff :: u8)"
proof -
  have "\<forall>j \<in> set [0..<8]. push_bit j 1 \<noteq> (0 :: u8) \<and> push_bit j 1 \<noteq> (0xff :: u8)" by code_simp
  then show "j < 8 \<Longrightarrow> ?thesis" by simp
qed

section \<open>SetAt\<close>

lemma split_one:
  assumes "memmove p (p + 2) (int n - int p - int 2) src = Some s1" "memset (n - 2) 0 2 s1 = Some s2"
    and "SetBit (8 * (p - 1) + nBit mod 8) s2 = Some s3"
  shows "split_zero_run src n nBit dl p 1 = Some (s3, n - 2)"
  using assms by (simp add: split_zero_run_def sizes)

lemma split_last:
  assumes "1 < r" "nBit div 8 = dl + r - 1" "word_put p (nBit div 8 - dl) src = Some s1"
    and "memmove (p + 2 + 1) (p + 2) (int n - int (p + 2)) (ReAllocPtr s1 (n + 1)) = Some s3" "memset (p + 2) 0 1 s3 = Some s4"
    and "SetBit (8 * (p + 2) + nBit mod 8) s4 = Some s5"
  shows "split_zero_run src n nBit dl p r = Some (s5, n + 1)"
  using assms by (simp add: split_zero_run_def sizes)

lemma split_middle:
  assumes "1 < r" "nBit div 8 \<noteq> dl + r - 1" "dl < nBit div 8" "word_put p (nBit div 8 - dl) src = Some s1"
    and "memmove (p + 2 + 4) (p + 2) (int n - int (p + 2)) (ReAllocPtr s1 (n + 4)) = Some s3" "memset (p + 2) 0 4 s3 = Some s4"
    and "word_put (p + 2 + 2) (r - 1 - (nBit div 8 - dl)) s4 = Some s5"
    and "SetBit (8 * (p + 2) + nBit mod 8) s5 = Some s6"
  shows "split_zero_run src n nBit dl p r = Some (s6, n + 4)"
proof -
  have e: "1 + (1 + 2) = (4 :: nat)" "1 < (4 :: nat)" by simp_all
  show ?thesis
    unfolding split_zero_run_def Let_def sizes e
    by (simp only: assms if_True if_False bind.bind_lunit prod.case e)
qed

lemma split_first:
  assumes "1 < r" "nBit div 8 = dl" "word_at src p = Some r" "word_put p (r - 1) src = Some s1"
    and "memmove (p - 1 + 1) (p - 1) (int n - int (p - 1)) (ReAllocPtr s1 (n + 1)) = Some s3" "memset (p - 1) 0 1 s3 = Some s4"
    and "SetBit (8 * (p - 1) + nBit mod 8) s4 = Some s5"
  shows "split_zero_run src n nBit dl p r = Some (s5, n + 1)"
  using assms by (auto simp: split_zero_run_def sizes)

lemma split_zero_run_ok:
  assumes r: "0 < r" "r \<le> 65535" and d: "dl \<le> nBit div 8" "nBit div 8 < dl + r"
    and src: "src = A @ 0 # le16 (of_nat r) @ B @ replicate k 0" and n: "n = length A + 3 + length B"
  shows "\<exists>us k'. split_zero_run src n nBit dl (length A + 1) r =
      Some (A @ encs us @ B @ replicate k' 0, length A + length (encs us) + length B) \<and>
    toks_ok us \<and> expands us = (replicate r 0)[nBit div 8 - dl := push_bit (nBit mod 8) 1]"
proof -
  define m :: u8 where "m = push_bit (nBit mod 8) 1"
  let ?t = "nBit div 8 - dl" and ?p = "length A + 1" and ?j = "nBit mod 8"
  have m: "m \<noteq> 0" "m \<noteq> 0xff" "?j < 8" using single_bit [of ?j] unfolding m_def by auto
  have upd: "(replicate r 0)[?t := m] = replicate ?t 0 @ m # replicate (r - 1 - ?t) 0"
    using d by (auto intro!: nth_equalityI simp: nth_list_update nth_append nth_Cons')
  have put: "word_put ?p w src = Some ((A @ 0 # le16 (of_nat w)) @ B @ replicate k 0)" for w
    using word_put_mid [of "le16 (of_nat r)" "A @ [0]" w] by (simp add: src)
  have res: ?thesis if "split_zero_run src n nBit dl ?p r = Some (A @ encs us @ B @ replicate k' 0, length A + length (encs us) + length B)"
    "toks_ok us" "expands us = replicate ?t 0 @ m # replicate (r - 1 - ?t) 0" for us k'
    using that unfolding upd [unfolded m_def] m_def by blast
  consider "r = 1" | "r > 1" "?t = r - 1" | "r > 1" "?t < r - 1" "?t > 0" | "r > 1" "?t = 0" using d r by linarith
  then show ?thesis
  proof cases
    case 1
    have "?p = length (A @ [0])" "2 = length (le16 (of_nat r))" "n = length (A @ [0]) + length (le16 (of_nat r)) + length B"
      using n by simp_all
    from close_gap [OF this, of "replicate k 0"] obtain s where
      s: "memmove ?p (?p + 2) (int n - int ?p - int 2) src = Some s"
        "memset (n - 2) 0 2 s = Some (A @ 0 # B @ replicate 2 0 @ replicate k 0)" by (auto simp: src)
    have "SetBit (8 * (?p - 1) + ?j) (A @ 0 # B @ replicate 2 0 @ replicate k 0) = Some (A @ m # B @ replicate (2 + k) 0)"
      using SetBit_mid [OF refl m(3), of A 0 "B @ replicate 2 0 @ replicate k 0"] by (simp only: replicate_add m_def) simp
    from split_one [OF s this, of dl] show ?thesis
      using 1 m n d by (intro res [of "[TLit m]" "2 + k"]) simp_all
  next
    case 2
    let ?A = "A @ 0 # le16 (of_nat ?t)"
    have "?p + 2 = length ?A" "n = length ?A + length B" using n by simp_all
    from open_gap [OF this, of 1 k] obtain s where
      s: "memmove (?p + 2 + 1) (?p + 2) (int n - int (?p + 2)) (ReAllocPtr (?A @ B @ replicate k 0) (n + 1)) = Some s"
        "memset (?p + 2) 0 1 s = Some (?A @ 0 # B)" by auto
    have b: "SetBit (8 * (?p + 2) + ?j) (?A @ 0 # B) = Some (?A @ m # B)"
      using SetBit_mid [of "?p + 2" ?A ?j 0 B] m(3) by (simp add: m_def)
    have "nBit div 8 = dl + r - 1" using 2 d by simp
    from split_last [OF 2(1) this put s b] show ?thesis
      using 2 m n r by (intro res [of "[TRun 0 ?t, TLit m]" 0]) simp_all
  next
    case 3
    let ?A = "A @ 0 # le16 (of_nat ?t)" and ?q = "r - 1 - ?t"
    have "?p + 2 = length ?A" "n = length ?A + length B" using n by simp_all
    from open_gap [OF this, of 4 k] obtain s where
      s: "memmove (?p + 2 + 4) (?p + 2) (int n - int (?p + 2)) (ReAllocPtr (?A @ B @ replicate k 0) (n + 4)) = Some s"
        "memset (?p + 2) 0 4 s = Some (?A @ replicate 4 0 @ B)" by auto
    have z4: "replicate 4 0 = [0, 0, 0, 0 :: u8]" by (simp add: numeral_eq_Suc)
    have len: "length (?A @ [0, 0]) = ?p + 2 + 2" by simp
    have w: "word_put (?p + 2 + 2) ?q (?A @ replicate 4 0 @ B) = Some (?A @ [0, 0] @ le16 (of_nat ?q) @ B)"
      using word_put_mid [of "[0, 0]" "?A @ [0, 0]" ?q B] unfolding len z4 by simp
    have b: "SetBit (8 * (?p + 2) + ?j) (?A @ [0, 0] @ le16 (of_nat ?q) @ B) = Some (?A @ m # 0 # le16 (of_nat ?q) @ B)"
      using SetBit_mid [of "?p + 2" ?A ?j 0] m(3) by (simp add: m_def)
    have "nBit div 8 \<noteq> dl + r - 1" "dl < nBit div 8" using 3 d by auto
    note split = split_middle [OF 3(1) this put s w b]
    have tq: "0 < ?t" "?t \<le> 65535" "0 < ?q" "?q \<le> 65535" using 3 r by linarith+
    show ?thesis
    proof (rule res [of "[TRun 0 ?t, TLit m, TRun 0 ?q]" 0])
      show "split_zero_run src n nBit dl ?p r = Some (A @ encs [TRun 0 ?t, TLit m, TRun 0 ?q] @ B @ replicate 0 0,
          length A + length (encs [TRun 0 ?t, TLit m, TRun 0 ?q]) + length B)"
        using split n by simp
      show "toks_ok [TRun 0 ?t, TLit m, TRun 0 ?q]" using tq m by simp
    qed simp
  next
    case 4
    let ?B = "0 # le16 (of_nat (r - 1)) @ B"
    have wa: "word_at src ?p = Some r"
      using word_at_run [OF r(2), of A 0 "B @ replicate k 0"] by (simp add: src)
    have "?p - 1 = length A" "n = length A + length ?B" using n by simp_all
    from open_gap [OF this, of 1 k] obtain s where
      s: "memmove (?p - 1 + 1) (?p - 1) (int n - int (?p - 1)) (ReAllocPtr ((A @ 0 # le16 (of_nat (r - 1))) @ B @ replicate k 0) (n + 1)) = Some s"
        "memset (?p - 1) 0 1 s = Some (A @ 0 # ?B)" by auto
    have b: "SetBit (8 * (?p - 1) + ?j) (A @ 0 # ?B) = Some (A @ m # ?B)"
      using SetBit_mid [of "?p - 1" A ?j 0] m(3) by (simp add: m_def)
    have "nBit div 8 = dl" using 4 d by simp
    from split_first [OF 4(1) this wa put s b] show ?thesis
      using 4 m n r by (intro res [of "[TLit m, TRun 0 (r - 1)]" 0]) simp_all
  qed
qed

text \<open>What the loop remembers of the token before its position.\<close>

definition prev_ok :: "tok list \<Rightarrow> nat \<Rightarrow> u8 \<Rightarrow> bool" where
  "prev_ok us r b \<longleftrightarrow> (if \<exists>vs q. us = vs @ [TRun 0xff q] then b = 0xff \<and> (\<exists>vs. us = vs @ [TRun 0xff r]) else b \<noteq> 0xff)"

lemma prev_ok_simps [simp]:
  "prev_ok [] r 0" "prev_ok (us @ [TLit x]) r 0" "prev_ok (us @ [TRun x r]) r x"
  by (auto simp: prev_ok_def)

lemma open_gap_raw:
  assumes "a = length A" "n = length A + length B"
  shows "\<exists>G. length G = g \<and> memmove (a + g) a (int n - int a) (ReAllocPtr (A @ B @ replicate k 0) (n + g)) = Some (A @ G @ B)"
proof -
  have r: "ReAllocPtr (A @ B @ replicate k 0) (n + g) = A @ B @ replicate g 0"
    using assms by (auto simp: ReAllocPtr_def min_def replicate_add [symmetric])
  have "memmove (a + g) a (int n - int a) (A @ B @ replicate g 0) = Some (A @ take g (B @ replicate g 0) @ B)"
    using assms by (simp add: memmove_def mem_write_def mem_read_def)
  then show ?thesis unfolding r by (intro exI [of _ "take g (B @ replicate g 0)"]) simp
qed

lemma absorb_prev:
  assumes "A = P @ encs (vs @ [TRun 0xff q])" "q < 65535" "n = length A + 1 + length B"
  shows "absorb_literal (A @ x # B @ Z) n (length A) q 0xff =
    Some (P @ encs (vs @ [TRun 0xff (q + 1)]) @ B @ 0 # Z, n - 1)"
proof -
  from close_gap [of "length A" A 1 "[x]" n B Z] assms(3) obtain s where
    s: "memmove (length A) (length A + 1) (int n - int (length A) - 1) (A @ x # B @ Z) = Some s"
      "byte_put (n - 1) 0 s = Some (A @ B @ 0 # Z)" by (auto simp: memset_one [simplified])
  have "word_put (length A - 2) (q + 1) (A @ B @ 0 # Z) = Some (P @ encs (vs @ [TRun 0xff (q + 1)]) @ B @ 0 # Z)"
    using word_put_mid [of "le16 (of_nat q)" "P @ encs vs @ [0xff]" "q + 1" "B @ 0 # Z"] by (simp add: assms(1))
  then show ?thesis using s assms(2) by (simp add: absorb_literal_def sizes)
qed

lemma absorb_alone:
  assumes "b = 0xff \<Longrightarrow> r = 65535" "toks_ok ts" "\<nexists>q vs. ts = TRun 0xff q # vs" "n = length A + 1 + length (encs ts)"
  shows "absorb_literal (A @ 0xff # encs ts @ replicate k 0) n (length A) r b =
    Some (A @ encs (TRun 0xff 1 # ts), n + 2)"
proof -
  let ?src = "A @ 0xff # encs ts @ replicate k 0"
  have nxt: "(if length A + 2 < n
      then do { y \<leftarrow> byte_at ?src (length A + 1);
        if y = 0xff then do { w \<leftarrow> word_at ?src (length A + 2); Some (w \<noteq> 65535) } else Some False }
      else Some False) = Some False"
  proof (cases ts)
    case (Cons t us)
    then have "byte_at ?src (length A + 1) = Some (case t of TLit y \<Rightarrow> y | TRun y _ \<Rightarrow> y)"
      by (cases t) (simp_all add: byte_at_def nth_append)
    moreover have "(case t of TLit y \<Rightarrow> y | TRun y _ \<Rightarrow> y) \<noteq> 0xff" using assms(2,3) Cons by (cases t) auto
    ultimately show ?thesis by simp
  qed (use assms(4) in simp)
  have "length A + 1 = length (A @ [0xff])" "n = length (A @ [0xff]) + length (encs ts)" using assms(4) by simp_all
  from open_gap_raw [OF this, of 2 k] obtain G where
    G: "length G = 2" "memmove (length A + 1 + 2) (length A + 1) (int n - int (length A) - 1) (ReAllocPtr ?src (n + 2)) =
      Some ((A @ [0xff]) @ G @ encs ts)" by (auto simp: diff_diff_eq ac_simps)
  have "word_put (length A + 1) 1 ((A @ [0xff]) @ G @ encs ts) = Some (A @ encs (TRun 0xff 1 # ts))"
    using word_put_mid [OF G(1), of "A @ [0xff]" 1 "encs ts"] by simp
  then show ?thesis
    unfolding absorb_literal_def sizes nxt bind.bind_lunit using G(2) assms(1) by auto
qed

lemma byte_OR_bit: "bit x j \<Longrightarrow> x OR push_bit j 1 = (x :: u8)"
  by (rule bit_eqI) (auto simp: bit_simps)

lemma set_literal_ok:
  assumes "toks_ok (us @ TLit x # ts)" "prev_ok us r b" "n = length P + length (encs (us @ TLit x # ts))"
    and nx: "x OR push_bit (nBit mod 8) 1 = 0xff \<Longrightarrow> \<nexists>q vs. ts = TRun 0xff q # vs"
  shows "\<exists>ts' k'. set_literal (P @ encs (us @ TLit x # ts) @ replicate k 0) n nBit (length (P @ encs us)) r b =
      Some (\<not> bit x (nBit mod 8), P @ encs ts' @ replicate k' 0, length P + length (encs ts')) \<and> toks_ok ts' \<and>
    expands ts' = expands us @ (x OR push_bit (nBit mod 8) 1) # expands ts"
proof -
  let ?A = "P @ encs us" and ?j = "nBit mod 8" and ?src = "P @ encs (us @ TLit x # ts) @ replicate k 0"
  define y where "y = x OR push_bit ?j 1"
  have g: "GetBit ?src (8 * length ?A + ?j) = Some (bit x ?j)"
    using GetBit_mid [of "length ?A" ?A ?j x "encs ts @ replicate k 0"] by simp
  show ?thesis
  proof (cases "bit x ?j")
    case True
    then have "set_literal ?src n nBit (length ?A) r b = Some (False, ?src, n)"
      unfolding set_literal_def g by simp
    then show ?thesis using True assms(1,3) byte_OR_bit [OF True]
      by (intro exI [of _ "us @ TLit x # ts"] exI [of _ k]) simp
  next
    case False
    have st: "SetBit (8 * length ?A + ?j) ?src = Some (?A @ y # encs ts @ replicate k 0)"
      using SetBit_mid [of "length ?A" ?A ?j x "encs ts @ replicate k 0"] by (simp add: y_def)
    have at: "byte_at (?A @ y # encs ts @ replicate k 0) (length ?A) = Some y" by (simp add: byte_at_def nth_append)
    have run: "set_literal ?src n nBit (length ?A) r b = (if y = 0xff
        then do { (s, n) \<leftarrow> absorb_literal (?A @ y # encs ts @ replicate k 0) n (length ?A) r b; Some (True, s, n) }
        else Some (True, ?A @ y # encs ts @ replicate k 0, n))"
      unfolding set_literal_def g st using False at by simp
    have n: "n = length ?A + 1 + length (encs ts)" using assms(3) by simp
    show ?thesis
    proof (cases "y = 0xff")
      case lit: False
      have "y \<noteq> 0"
      proof
        assume "y = 0"
        then have "\<not> bit y ?j" by simp
        then show False by (simp add: y_def bit_simps)
      qed
      then show ?thesis using run lit False assms(1) n
        by (intro exI [of _ "us @ TLit y # ts"] exI [of _ k]) (simp add: y_def)
    next
      case ff: True
      show ?thesis
      proof (cases "b = 0xff \<and> r \<noteq> 65535")
        case True
        then obtain vs where vs: "us = vs @ [TRun 0xff r]" using assms(2) by (auto simp: prev_ok_def split: if_splits)
        then have r: "r < 65535" "0 < r" using True assms(1) by auto
        from absorb_prev [of ?A P vs r n "encs ts" y "replicate k 0"] vs r(1) n
        have ab: "absorb_literal (?A @ y # encs ts @ replicate k 0) n (length ?A) r b =
            Some (P @ encs (vs @ [TRun 0xff (r + 1)]) @ encs ts @ 0 # replicate k 0, n - 1)" using True by simp
        show ?thesis unfolding run using ab ff False assms(1) n r vs
          by (intro exI [of _ "vs @ TRun 0xff (r + 1) # ts"] exI [of _ "Suc k"])
            (simp add: y_def [symmetric] replicate_append_same [symmetric] del: push_bit_of_1)
      next
        case nprev: False
        from absorb_alone [of b r ts n ?A k] nprev assms(1) nx ff n
        have ab: "absorb_literal (?A @ y # encs ts @ replicate k 0) n (length ?A) r b = Some (?A @ encs (TRun 0xff 1 # ts), n + 2)"
          by (auto simp: y_def)
        show ?thesis unfolding run using ab ff False assms(1) n
          by (intro exI [of _ "us @ TRun 0xff 1 # ts"] exI [of _ 0]) (simp add: y_def [symmetric] del: push_bit_of_1)
      qed
    qed
  qed
qed

lemma fill_runs_ok:
  "\<lbrakk>L \<le> nRun * 65535; nRun * 65535 < L + 65535\<rbrakk> \<Longrightarrow>
    \<exists>ts. fill_runs nRun L (X @ replicate (3 * nRun + 1) 0) (length X + 3 * nRun + 1) = Some (X @ encs ts @ [0]) \<and>
      length (encs ts) = 3 * nRun \<and> toks_ok ts \<and> expands ts = replicate L 0"
proof (induction nRun arbitrary: L X)
  case 0
  then show ?case by (intro exI [of _ "[]"]) simp
next
  case (Suc m)
  let ?c = "if L \<ge> 65535 then 65535 else L" and ?Z = "replicate (3 * m + 1) 0 :: u8 list"
  let ?X = "X @ enc (TRun 0 ?c)"
  have num: "3 * Suc m + 1 = 1 + (2 + (3 * m + 1))" by simp
  have "replicate (3 * Suc m + 1) (0 :: u8) = [0] @ replicate 2 0 @ ?Z"
    unfolding num replicate_add by simp
  moreover have "length X + 3 * Suc m + 1 - Suc m * 3 = length (X @ [0])" by simp
  ultimately have w: "word_put (length X + 3 * Suc m + 1 - Suc m * 3) ?c (X @ replicate (3 * Suc m + 1) 0) = Some (?X @ ?Z)"
    using word_put_mid [of "replicate 2 0" "X @ [0]" ?c ?Z] by (simp del: replicate.simps)
  have "L - 65535 \<le> m * 65535" "m * 65535 < L - 65535 + 65535" using Suc.prems by simp_all
  from Suc.IH [OF this, of ?X] obtain ts where
    ts: "fill_runs m (L - 65535) (?X @ ?Z) (length ?X + 3 * m + 1) = Some (?X @ encs ts @ [0])"
      "length (encs ts) = 3 * m" "toks_ok ts" "expands ts = replicate (L - 65535) 0" by blast
  have n: "length X + 3 * Suc m + 1 = length ?X + 3 * m + 1" by simp
  have "fill_runs (Suc m) L (X @ replicate (3 * Suc m + 1) 0) (length X + 3 * Suc m + 1) = Some (?X @ encs ts @ [0])"
    unfolding fill_runs.simps sizes using w ts(1) n by (simp only: one_add_one [symmetric]) simp
  moreover have "0 < ?c" "?c \<le> 65535" "replicate ?c (0 :: u8) @ replicate (L - 65535) 0 = replicate L 0"
    using Suc.prems by (auto simp: replicate_add [symmetric])
  ultimately show ?case using ts(2-4) by (intro exI [of _ "TRun 0 ?c # ts"]) simp
qed

lemma append_tail_ok:
  assumes "sp = Some (Y @ replicate k 0) \<and> n = length Y \<and> 0 < n \<and> X = Y \<or> n = 0 \<and> X = [1]" "dl \<le> nBit div 8"
  shows "\<exists>ts. append_tail sp n nBit dl = Some (True, X @ encs ts, length X + length (encs ts)) \<and> toks_ok ts \<and>
    expands ts = replicate (nBit div 8 - dl) 0 @ [push_bit (nBit mod 8) 1]"
proof -
  define m :: u8 where "m = push_bit (nBit mod 8) 1"
  have m: "m \<noteq> 0" "m \<noteq> 0xff" "nBit mod 8 < 8" using single_bit [of "nBit mod 8"] unfolding m_def by auto
  define L where "L = nBit div 8 - dl"
  define nRun where "nRun = L div 65535 + (if L mod 65535 \<noteq> 0 then 1 else 0)"
  have L: "L \<le> nRun * 65535" "nRun * 65535 < L + 65535"
  proof -
    define q r where "q = L div 65535" "r = L mod 65535"
    have "L = q * 65535 + r" "r < 65535" by (simp_all add: q_r_def)
    then show "L \<le> nRun * 65535" "nRun * 65535 < L + 65535"
      unfolding nRun_def q_r_def [symmetric] by auto
  qed
  from fill_runs_ok [OF L, of X] obtain ts where
    ts: "fill_runs nRun L (X @ replicate (3 * nRun + 1) 0) (length X + 3 * nRun + 1) = Some (X @ encs ts @ [0])"
      "length (encs ts) = 3 * nRun" "toks_ok ts" "expands ts = replicate L 0" by blast
  have b: "SetBit (8 * (length X + 3 * nRun + 1 - 1) + nBit mod 8) (X @ encs ts @ [0]) = Some (X @ encs ts @ [m])"
    using SetBit_mid [OF _ m(3), of "length X + 3 * nRun" "X @ encs ts" 0 "[]"] ts(2) by (simp add: m_def)
  have three: "1 + COMPRESS_SIZE = 3" by (simp add: sizes)
  have n1: "(if nRun > 0 then n + nRun * 3 + 1 else n + 1) = n + 3 * nRun + 1" by simp
  have src: "(if n = 0 then do { s \<leftarrow> byte_put 0 1 (AllocPtr (n + 3 * nRun + 1 + 1)); Some (s, n + 3 * nRun + 1 + 1) }
      else do { src \<leftarrow> sp; Some (ReAllocPtr src (n + 3 * nRun + 1), n + 3 * nRun + 1) }) =
    Some (X @ replicate (3 * nRun + 1) 0, length X + 3 * nRun + 1)"
    using assms(1) by (auto simp: byte_put_def AllocPtr_def ReAllocPtr_def min_def replicate_add [symmetric])
  have "append_tail sp n nBit dl = Some (True, X @ encs ts @ [m], length X + 3 * nRun + 1)"
    unfolding append_tail_def Let_def COMPRESS_COUNT_def L_def [symmetric] nRun_def [symmetric] three n1 src
      bind.bind_lunit prod.case ts(1) b by (rule refl)
  then show ?thesis using ts(3,4) m(1,2) unfolding m_def [symmetric] L_def [symmetric]
    by (intro exI [of _ "ts @ [TLit m]"]) (simp add: ts(2))
qed

definition put_bit :: "u8 list \<Rightarrow> nat \<Rightarrow> u8 list" where
  "put_bit e n = (let e' = e @ replicate (n div 8 + 1 - length e) 0
     in e'[n div 8 := e' ! (n div 8) OR push_bit (n mod 8) 1])"

lemma put_bit_append: "length us \<le> n div 8 \<Longrightarrow>
    put_bit (us @ e) n = us @ (e @ replicate (n div 8 - length us + 1 - length e) 0)
      [n div 8 - length us := (e @ replicate (n div 8 - length us + 1 - length e) 0) ! (n div 8 - length us) OR push_bit (n mod 8) 1]"
  by (simp add: put_bit_def Let_def list_update_append nth_append Suc_diff_le diff_diff_add)

lemma put_bit_same: "nth_bit e n \<Longrightarrow> put_bit e n = e"
  using byte_OR_bit [of "e ! (n div 8)" "n mod 8"] by (simp add: put_bit_def nth_bit_def)

text \<open>The byte that becomes 0xff is followed by another 0xff.\<close>

definition merges_next :: "u8 list \<Rightarrow> nat \<Rightarrow> bool" where
  "merges_next e n \<longleftrightarrow> n div 8 + 1 < length e \<and> e ! (n div 8) \<noteq> 0xff \<and>
     e ! (n div 8) OR push_bit (n mod 8) 1 = 0xff \<and> e ! (n div 8 + 1) = 0xff"

lemma set_step_end:
  "\<not> nByte < n \<Longrightarrow> set_loop src n nBit nByte nD r b = append_tail (Some src) n nBit nD"
  by (subst set_loop.simps) simp

lemma set_step_lit:
  "\<lbrakk>nByte < n; byte_at src nByte = Some x; x \<noteq> 0; x \<noteq> 0xff\<rbrakk> \<Longrightarrow>
    set_loop src n nBit nByte nD r b = (if nD = nBit div 8 then set_literal src n nBit nByte r b
      else set_loop src n nBit (nByte + 1) (nD + 1) r 0)"
  by (subst set_loop.simps) simp

lemma set_step_run:
  "\<lbrakk>nByte < n; byte_at src nByte = Some x; x = 0 \<or> x = 0xff; word_at src (nByte + 1) = Some q\<rbrakk> \<Longrightarrow>
    set_loop src n nBit nByte nD r b = (if nD + q > nBit div 8
      then if x = 0xff then Some (False, src, n)
        else do { (s, n') \<leftarrow> split_zero_run src n nBit nD (nByte + 1) q; Some (True, s, n') }
      else set_loop src n nBit (nByte + 3) (nD + q) q x)"
  by (subst set_loop.simps) (simp add: sizes numeral_3_eq_3 cong: if_cong)

lemma set_loop_ok:
  "\<lbrakk>P \<noteq> []; toks_ok (us @ ts); prev_ok us r b; length (expands us) \<le> nBit div 8; \<not> merges_next (expands (us @ ts)) nBit\<rbrakk> \<Longrightarrow>
    \<exists>ts' k'. set_loop (P @ encs (us @ ts) @ replicate k 0) (length P + length (encs (us @ ts))) nBit
        (length P + length (encs us)) (length (expands us)) r b =
      Some (\<not> nth_bit (expands (us @ ts)) nBit, P @ encs ts' @ replicate k' 0, length P + length (encs ts')) \<and>
      toks_ok ts' \<and> expands ts' = put_bit (expands (us @ ts)) nBit"
proof (induction ts arbitrary: us r b)
  case Nil
  let ?Y = "P @ encs us"
  from append_tail_ok [of "Some (?Y @ replicate k 0)" ?Y k "length ?Y" ?Y "length (expands us)" nBit] Nil.prems(1,4)
  obtain ts' where t: "append_tail (Some (?Y @ replicate k 0)) (length ?Y) nBit (length (expands us)) =
      Some (True, ?Y @ encs ts', length ?Y + length (encs ts'))" "toks_ok ts'"
    "expands ts' = replicate (nBit div 8 - length (expands us)) 0 @ [push_bit (nBit mod 8) 1]" by auto
  have "\<not> nth_bit (expands us) nBit" using Nil.prems(4) by (simp add: nth_bit_def)
  moreover have "put_bit (expands us) nBit = expands us @ expands ts'"
    using put_bit_append [OF Nil.prems(4), of "[]"] unfolding t(3)
    by (simp add: list_update_append replicate_append_same [symmetric] nth_append del: push_bit_of_1)
  ultimately show ?case using t(1,2) Nil.prems(2)
    by (intro exI [of _ "us @ ts'"] exI [of _ 0]) (simp add: set_step_end)
next
  case (Cons t ts)
  let ?src = "P @ encs (us @ t # ts) @ replicate k 0" and ?n = "length P + length (encs (us @ t # ts))"
  let ?p = "length P + length (encs us)" and ?d = "nBit div 8"
  have ok: "toks_ok us" "tok_ok t" "toks_ok ts" using Cons.prems(2) by simp_all
  have lt: "?p < ?n" by (cases t) simp_all
  have IH: "\<exists>ts' k'. set_loop ?src ?n nBit (?p + length (enc t)) (length (expands us) + length (expand1 t)) r' b' =
      Some (\<not> nth_bit (expands (us @ t # ts)) nBit, P @ encs ts' @ replicate k' 0, length P + length (encs ts')) \<and>
      toks_ok ts' \<and> expands ts' = put_bit (expands (us @ t # ts)) nBit"
    if "prev_ok (us @ [t]) r' b'" "length (expands us) + length (expand1 t) \<le> ?d" for r' b'
    using Cons.IH [of "us @ [t]" r' b'] Cons.prems(1,2,5) that by (simp add: add.assoc)
  show ?case
  proof (cases t)
    case (TLit x)
    have at: "byte_at ?src ?p = Some x" using tok_at(1) [of "P @ encs us" x ts "replicate k 0"] TLit by simp
    have step: "set_loop ?src ?n nBit ?p (length (expands us)) r b =
        (if length (expands us) = ?d then set_literal ?src ?n nBit ?p r b
         else set_loop ?src ?n nBit (?p + 1) (length (expands us) + 1) r 0)"
      using set_step_lit [OF lt at] ok(2) TLit by simp
    show ?thesis
    proof (cases "length (expands us) = ?d")
      case False
      then show ?thesis using step IH [of r 0] TLit Cons.prems(4) by simp
    next
      case True
      have nx: "\<nexists>q vs. ts = TRun 0xff q # vs" if "x OR push_bit (nBit mod 8) 1 = 0xff"
      proof
        assume "\<exists>q vs. ts = TRun 0xff q # vs"
        then obtain q vs where "ts = TRun 0xff q # vs" "0 < q" using ok(3) by auto
        then have "merges_next (expands (us @ t # ts)) nBit"
          using that TLit ok(2) True unfolding merges_next_def by (simp add: nth_append del: push_bit_of_1)
        then show False using Cons.prems(5) by simp
      qed
      from set_literal_ok [OF Cons.prems(2) [unfolded TLit] Cons.prems(3) refl, of nBit, OF nx, where P = P and k = k] TLit obtain ts' k' where
        r: "set_literal ?src ?n nBit ?p r b = Some (\<not> bit x (nBit mod 8), P @ encs ts' @ replicate k' 0, length P + length (encs ts'))"
          "toks_ok ts'" "expands ts' = expands us @ (x OR push_bit (nBit mod 8) 1) # expands ts" by (auto simp del: push_bit_of_1)
      have "nth_bit (expands (us @ t # ts)) nBit = bit x (nBit mod 8)"
        "put_bit (expands (us @ t # ts)) nBit = expands us @ (x OR push_bit (nBit mod 8) 1) # expands ts"
        using True [symmetric] TLit by (simp_all add: nth_bit_def put_bit_append del: push_bit_of_1)
      then show ?thesis using step True r by auto
    qed
  next
    case (TRun x q)
    have at: "byte_at ?src ?p = Some x" "word_at ?src (?p + 1) = Some q"
      using tok_at(2) [of "P @ encs us" x q ts "replicate k 0"] tok_at(3) [of q "P @ encs us" x ts "replicate k 0"] TRun ok(2) by auto
    have step: "set_loop ?src ?n nBit ?p (length (expands us)) r b = (if length (expands us) + q > ?d
      then if x = 0xff then Some (False, ?src, ?n)
        else do { (s, n') \<leftarrow> split_zero_run ?src ?n nBit (length (expands us)) (?p + 1) q; Some (True, s, n') }
      else set_loop ?src ?n nBit (?p + 3) (length (expands us) + q) q x)"
      using set_step_run [OF lt at(1) _ at(2)] ok(2) TRun by simp
    show ?thesis
    proof (cases "length (expands us) + q > ?d")
      case False
      then show ?thesis using step IH [of q x] TRun by simp
    next
      case True
      let ?e = "expands (us @ t # ts)"
      have dq: "?d - length (expands us) < q" using True Cons.prems(4) by linarith
      then have e: "?e ! ?d = x" "?d < length ?e" using True TRun Cons.prems(4) by (simp_all add: nth_append)
      show ?thesis
      proof (cases "x = 0xff")
        case ff: True
        then have "nth_bit ?e nBit" using e bit_ff by (simp add: nth_bit_def)
        then show ?thesis using step True ff put_bit_same ok
          by (intro exI [of _ "us @ t # ts"] exI [of _ k]) simp
      next
        case False
        then have x0: "x = 0" "0 < q" "q \<le> 65535" using ok(2) TRun by auto
        have "?src = (P @ encs us) @ 0 # le16 (of_nat q) @ encs ts @ replicate k 0"
          "?n = length (P @ encs us) + 3 + length (encs ts)" using TRun x0 by simp_all
        from split_zero_run_ok [OF x0(2,3) Cons.prems(4) True this] obtain vs k' where
          v: "split_zero_run ?src ?n nBit (length (expands us)) (?p + 1) q =
            Some (P @ encs (us @ vs @ ts) @ replicate k' 0, length P + length (encs (us @ vs @ ts)))"
            "toks_ok vs" "expands vs = (replicate q 0)[?d - length (expands us) := push_bit (nBit mod 8) 1]" by auto
        have "\<not> nth_bit ?e nBit" using e x0 by (simp add: nth_bit_def)
        moreover have "put_bit ?e nBit = expands (us @ vs @ ts)"
          using dq TRun x0(1) v(3) put_bit_append [OF Cons.prems(4), of "expands (t # ts)"]
          by (simp add: list_update_append nth_append del: push_bit_of_1)
        ultimately show ?thesis using step True False v(1,2) ok by (intro exI [of _ "us @ vs @ ts"] exI [of _ k']) simp
      qed
    qed
  qed
qed

section \<open>What a stream stands for\<close>

definition rle_repr :: "u8 list option \<Rightarrow> nat \<Rightarrow> u8 list \<Rightarrow> bool" where
  "rle_repr sp n e \<longleftrightarrow> n = 0 \<and> e = [] \<or>
     (\<exists>ts k. sp = Some (1 # encs ts @ replicate k 0) \<and> n = 1 + length (encs ts) \<and> toks_ok ts \<and> expands ts = e)"

lemma repr_compress:
  "n \<le> length src \<Longrightarrow> \<exists>p m. rle_Compress src n = Some (p, m) \<and> rle_repr p m (strip (take n src)) \<and>
     (m = 0 \<longleftrightarrow> strip (take n src) = [])"
  using compress_ok [of n src] by (cases "strip (take n src) = []") (auto simp: rle_repr_def)

lemma repr_get: "rle_repr sp n e \<Longrightarrow> rle_GetAt sp n b = Some (nth_bit e b)"
  using get_ok by (auto simp: rle_repr_def rle_GetAt_def nth_bit_def)

lemma repr_decompress: "\<lbrakk>rle_repr sp n e; e \<noteq> []\<rbrakk> \<Longrightarrow> rle_Decompress sp n (- 1) = Some (Some e, length e)"
  using decompress_ok by (auto simp: rle_repr_def)

lemma repr_set:
  assumes "rle_repr sp n e" "\<not> merges_next e b"
  shows "\<exists>s n'. rle_SetAt sp n b = Some (\<not> nth_bit e b, s, n') \<and> rle_repr (Some s) n' (put_bit e b)"
proof (cases "n = 0")
  case True
  then have e: "e = []" using assms(1) by (auto simp: rle_repr_def)
  from append_tail_ok [of sp _ _ n "[1]" 0 b] True obtain ts where
    t: "append_tail sp 0 b 0 = Some (True, 1 # encs ts, 1 + length (encs ts))" "toks_ok ts"
      "expands ts = replicate (b div 8) 0 @ [push_bit (b mod 8) 1]" by auto
  have "put_bit e b = expands ts"
    using put_bit_append [of "[]" b "[]"] unfolding t(3) e
    by (simp add: list_update_append replicate_append_same [symmetric] nth_append del: push_bit_of_1)
  moreover have "\<not> nth_bit e b" by (simp add: nth_bit_def e)
  moreover have "rle_repr (Some (1 # encs ts)) (1 + length (encs ts)) (expands ts)"
    unfolding rle_repr_def using t(2) by (intro disjI2 exI [of _ ts] exI [of _ 0]) simp
  ultimately show ?thesis using t(1) True by (simp add: rle_SetAt_def del: push_bit_of_1)
next
  case False
  then obtain ts k where ts: "sp = Some (1 # encs ts @ replicate k 0)" "n = 1 + length (encs ts)" "toks_ok ts" "expands ts = e"
    using assms(1) by (auto simp: rle_repr_def)
  from set_loop_ok [of "[1]" "[]" ts 0 0 b k] ts assms(2) obtain ts' k' where
    r: "set_loop (1 # encs ts @ replicate k 0) n b 1 0 0 0 = Some (\<not> nth_bit e b, 1 # encs ts' @ replicate k' 0, 1 + length (encs ts'))"
      "toks_ok ts'" "expands ts' = put_bit e b" by auto
  have "rle_repr (Some (1 # encs ts' @ replicate k' 0)) (1 + length (encs ts')) (put_bit e b)"
    unfolding rle_repr_def using r(2,3) by blast
  then show ?thesis using r(1) ts(1) False by (simp add: rle_SetAt_def)
qed

lemma nth_bit_put: "nth_bit (put_bit e n) b \<longleftrightarrow> b = n \<or> nth_bit e b"
proof -
  let ?e = "e @ replicate (n div 8 + 1 - length e) 0"
  have same: "nth_bit ?e b \<longleftrightarrow> nth_bit e b" by (auto simp: nth_bit_def nth_append)
  have l: "n div 8 < length ?e" by simp
  show ?thesis
  proof (cases "b div 8 = n div 8")
    case True
    then have "nth_bit (put_bit e n) b \<longleftrightarrow> bit (?e ! (n div 8) OR push_bit (n mod 8) 1) (b mod 8)"
      using l by (simp add: nth_bit_def put_bit_def Let_def del: push_bit_of_1)
    also have "\<dots> \<longleftrightarrow> bit (?e ! (n div 8)) (b mod 8) \<or> b mod 8 = n mod 8"
      by (auto simp: bit_simps simp del: push_bit_of_1)
    also have "bit (?e ! (n div 8)) (b mod 8) \<longleftrightarrow> nth_bit ?e b" using l True by (simp add: nth_bit_def)
    also have "b mod 8 = n mod 8 \<longleftrightarrow> b = n" using True by (metis mod_div_mult_eq)
    finally show ?thesis using same by blast
  next
    case False
    then have "nth_bit (put_bit e n) b \<longleftrightarrow> nth_bit ?e b" by (simp add: nth_bit_def put_bit_def Let_def del: push_bit_of_1)
    then show ?thesis using same False by auto
  qed
qed

lemma nth_bit_strip: "nth_bit (strip bs) b = nth_bit bs b"
proof (induction bs rule: rev_induct)
  case (snoc x bs)
  then show ?case by (auto simp: nth_bit_def nth_append)
qed simp

lemma length_loop_ok:
  "toks_ok ts \<Longrightarrow> length_loop (pre @ encs ts @ post) (length pre + length (encs ts)) (length pre) d = Some (d + length (expands ts))"
proof (induction ts arbitrary: pre d)
  case Nil
  then show ?case by (subst length_loop.simps) simp
next
  case (Cons t ts)
  let ?src = "pre @ encs (t # ts) @ post" and ?n = "length pre + length (encs (t # ts))"
  have lt: "length pre < ?n" by (cases t) simp_all
  have IH: "length_loop ?src ?n (length pre + length (enc t)) d' = Some (d' + length (expands ts))" for d'
    using Cons.IH [of "pre @ enc t" d'] Cons.prems by (simp add: add.assoc)
  show ?case
  proof (cases t)
    case (TLit x)
    then show ?thesis using lt tok_at(1) [of pre x ts post] IH [of "d + 1"] Cons.prems
      by (subst length_loop.simps) simp
  next
    case (TRun x q)
    then have at: "byte_at ?src (length pre) = Some x" "word_at ?src (length pre + 1) = Some q" "x = 0 \<or> x = 0xff"
      using tok_at(2) [of pre x q ts post] tok_at(3) [of q pre x ts post] Cons.prems by auto
    have "length_loop ?src ?n (length pre) d = length_loop ?src ?n (length pre + 3) (d + q)"
      using lt at by (subst length_loop.simps) (simp add: sizes numeral_3_eq_3 cong: if_cong)
    then show ?thesis using IH [of "d + q"] TRun by simp
  qed
qed

lemma repr_length: "\<lbrakk>rle_repr (Some s) n e; e \<noteq> []\<rbrakk> \<Longrightarrow> rle_DecompressLength s n = Some (length e + 1)"
proof -
  assume "rle_repr (Some s) n e" "e \<noteq> []"
  then obtain ts k where "s = 1 # encs ts @ replicate k 0" "n = 1 + length (encs ts)" "toks_ok ts" "expands ts = e"
    by (auto simp: rle_repr_def)
  then show ?thesis using length_loop_ok [of "TLit 1 # ts" "[]" "replicate k 0" 0] by (simp add: rle_DecompressLength_def)
qed

section \<open>Properties\<close>

text \<open>C33: compressing the bytes of an array and decompressing the stream gives back the bytes without
  trailing zeros, with no access outside a block, for every content; nothing is stored for an array of
  zeros. \<open>DecompressLength\<close> of the stream is one more than the number of bytes, because it reads the
  reserved first byte as data.\<close>

theorem rle_roundtrip:
  assumes "n \<le> length src"
  shows "\<exists>p m. rle_Compress src n = Some (p, m) \<and>
    (if strip (take n src) = [] then p = None \<and> m = 0
     else rle_Decompress p m (- 1) = Some (Some (strip (take n src)), length (strip (take n src))) \<and>
       rle_DecompressLength (the p) m = Some (length (strip (take n src)) + 1))"
proof (cases "strip (take n src) = []")
  case True
  then show ?thesis using compress_ok(1) [OF assms] by simp
next
  case False
  obtain p m where pm: "rle_Compress src n = Some (p, m)" "rle_repr p m (strip (take n src))"
    using repr_compress [OF assms] by blast
  moreover obtain s where "p = Some s" using pm(2) False by (auto simp: rle_repr_def)
  ultimately show ?thesis using False repr_decompress repr_length by fastforce
qed

theorem rle_roundtrip_witness:
  "\<exists>p m. rle_Compress [5, 0, 0, 255, 7, 0] 6 = Some (p, m) \<and>
    rle_Decompress p m (- 1) = Some (Some [5, 0, 0, 255, 7], 5)"
  using rle_roundtrip [of 6 "[5, 0, 0, 255, 7, 0]"] by (auto simp: strip_def)

text \<open>C35: reading any bit of the compressed stream gives the bit of the bytes it was made from, and no
  bit behind them is set.\<close>

theorem rle_getat_equiv:
  assumes "n \<le> length src"
  shows "\<exists>p m. rle_Compress src n = Some (p, m) \<and> (\<forall>b. rle_GetAt p m b = Some (nth_bit (take n src) b))"
proof -
  obtain p m where pm: "rle_Compress src n = Some (p, m)" "rle_repr p m (strip (take n src))"
    using repr_compress [OF assms] by blast
  have "rle_GetAt p m b = Some (nth_bit (take n src) b)" for b
    using repr_get [OF pm(2)] by (simp only: nth_bit_strip)
  then show ?thesis using pm(1) by blast
qed

theorem rle_getat_equiv_witness:
  "\<exists>p m. rle_Compress [0, 0, 4] 3 = Some (p, m) \<and> rle_GetAt p m 18 = Some True \<and> rle_GetAt p m 700 = Some False"
  using rle_getat_equiv [of 3 "[0, 0, 4]"] by (auto simp: nth_bit_def)

text \<open>C34: setting a bit in a compressed stream works on the stream as on the bytes: it reports whether the
  bit was clear, the stream then stands for the bytes with this bit set (extended by zeros where it lies
  behind them), and it never leaves its blocks; unless the byte becomes 0xff in front of a byte 0xff.\<close>

theorem rle_setat_refines:
  assumes "rle_repr sp n e" "\<not> merges_next e b"
  shows "\<exists>s n'. rle_SetAt sp n b = Some (\<not> nth_bit e b, s, n') \<and> rle_repr (Some s) n' (put_bit e b) \<and>
    (\<forall>b'. rle_GetAt (Some s) n' b' = Some (b' = b \<or> nth_bit e b'))"
proof -
  obtain s n' where r: "rle_SetAt sp n b = Some (\<not> nth_bit e b, s, n')" "rle_repr (Some s) n' (put_bit e b)"
    using repr_set [OF assms] by blast
  have "rle_GetAt (Some s) n' b' = Some (b' = b \<or> nth_bit e b')" for b'
    using repr_get [OF r(2)] by (simp only: nth_bit_put)
  then show ?thesis using r by blast
qed

theorem rle_setat_refines_witness:
  "\<exists>s n'. rle_SetAt None 0 70 = Some (True, s, n') \<and> rle_GetAt (Some s) n' 70 = Some True \<and>
     rle_GetAt (Some s) n' 3 = Some False"
proof -
  have "rle_repr None 0 []" by (simp add: rle_repr_def)
  from rle_setat_refines [OF this, of 70] show ?thesis by (auto simp: merges_next_def nth_bit_def)
qed

text \<open>A literal that becomes 0xff is merged with the run of 0xff behind it by adding one to the wrong
  two bytes: the two bytes 0x7f 0xff with bit 7 set become 257 bytes, so bit 2055, which was clear, reads
  as set.\<close>

theorem rle_setat_merge_bug:
  "rle_GetAt (Some [1, 0x7f, 0xff, 1, 0]) 5 2055 = Some False \<and>
   rle_SetAt (Some [1, 0x7f, 0xff, 1, 0]) 5 7 = Some (True, [1, 0xff, 1, 1, 0], 4) \<and>
   rle_GetAt (Some [1, 0xff, 1, 1, 0]) 4 2055 = Some True"
proof (intro conjI)
  have w: "word_at [1, 0x7f, 0xff, 1, 0] 3 = Some 1" "word_at [1, 0xff, 1, 1, 0] 2 = Some 257" by code_simp+
  have at: "byte_at [1, 0x7f, 0xff, 1, 0] 1 = Some 0x7f" "byte_at [1, 0x7f, 0xff, 1, 0] 2 = Some 0xff"
    "byte_at [1, 0xff, 1, 1, 0] 1 = Some 0xff" by code_simp+
  have "get_loop [1, 0x7f, 0xff, 1, 0] 5 2055 1 0 = get_loop [1, 0x7f, 0xff, 1, 0] 5 2055 2 1"
    by (subst get_lit [OF _ at(1)]) (simp_all, simp add: numeral_2_eq_2)
  also have "\<dots> = get_loop [1, 0x7f, 0xff, 1, 0] 5 2055 5 (Suc (Suc 0))"
    using get_run [OF _ at(2), of 5 1 2055 1] w(1) by simp
  also have "\<dots> = Some False" by (subst get_loop.simps) simp
  finally show "rle_GetAt (Some [1, 0x7f, 0xff, 1, 0]) 5 2055 = Some False" by (simp add: rle_GetAt_def)
  have "set_loop [1, 0x7f, 0xff, 1, 0] 5 7 1 0 0 0 = set_literal [1, 0x7f, 0xff, 1, 0] 5 7 1 0 0"
    by (subst set_step_lit [OF _ at(1)]) simp_all
  moreover have "set_literal [1, 0x7f, 0xff, 1, 0] 5 7 1 0 0 = Some (True, [1, 0xff, 1, 1, 0], 4)"
  proof -
    have "GetBit [1, 0x7f, 0xff, 1, 0] 15 = Some False" "SetBit 15 [1, 0x7f, 0xff, 1, 0] = Some [1, 0xff, 0xff, 1, 0]"
      "byte_at [1, 0xff, 0xff, 1, 0] 1 = Some 0xff" "byte_at [1, 0xff, 0xff, 1, 0] 2 = Some 0xff"
      "word_at [1, 0xff, 0xff, 1, 0] 3 = Some 1" "memmove 1 2 3 [1, 0xff, 0xff, 1, 0] = Some [1, 0xff, 1, 0, 0]"
      "byte_put 4 0 [1, 0xff, 1, 0, 0] = Some [1, 0xff, 1, 0, 0]"
      "word_at [1, 0xff, 1, 0, 0] 3 = Some 0" "word_put 3 1 [1, 0xff, 1, 0, 0] = Some [1, 0xff, 1, 1, 0]"
      by code_simp+
    then show ?thesis by (simp add: set_literal_def absorb_literal_def sizes del: One_nat_def)
  qed
  ultimately show "rle_SetAt (Some [1, 0x7f, 0xff, 1, 0]) 5 7 = Some (True, [1, 0xff, 1, 1, 0], 4)"
    by (simp add: rle_SetAt_def)
  have "get_loop [1, 0xff, 1, 1, 0] 4 2055 1 0 = Some True"
    using get_run [OF _ at(3), of 4 257 2055 0] w(2) by (simp add: numeral_2_eq_2)
  then show "rle_GetAt (Some [1, 0xff, 1, 1, 0]) 4 2055 = Some True" by (simp add: rle_GetAt_def)
qed

end
