(* ===== verification/BitArrayProps.thy ===== *)
theory BitArrayProps
  imports BitIndex BitRleProps
begin

text \<open>
  An uncompressed bit array is a finite set of bit numbers: the operations on bits and ranges are the
  set operations, \<open>Delete\<close> closes the gap, the index answers rank and select queries. Where the class
  breaks its own invariant (a buffer with old bits behind the length, an allocation length that is
  larger than the buffer) or looks at the wrong bytes, the failing runs are theorems.
\<close>

section \<open>The set of bits\<close>

definition view :: "sfbitarray \<Rightarrow> u8 list" where
  "view a = (case m_pBuffer a of None \<Rightarrow> [] | Some p \<Rightarrow> take (m_nLength a) p)"

definition bits :: "sfbitarray \<Rightarrow> nat set" where
  "bits a = {n. nth_bit (view a) n}"

definition buf_ok :: "sfbitarray \<Rightarrow> bool" where
  "buf_ok a \<longleftrightarrow> \<not> m_bCompressed a \<and> 8 * m_nLength a \<le> INT_MAX \<and>
     (case m_pBuffer a of None \<Rightarrow> m_nLength a = 0 \<and> m_nAllocLength a = 0
      | Some p \<Rightarrow> m_nLength a \<le> length p \<and> m_nAllocLength a \<le> length p \<and>
          (\<forall>i < length p. m_nLength a \<le> i \<longrightarrow> p ! i = 0))"

lemma bit_length_ok [simp]: "buf_ok a \<Longrightarrow> bit_length a = Some (8 * m_nLength a)"
  by (simp add: bit_length_def buf_ok_def)

lemma short_length: "8 * n \<le> INT_MAX \<Longrightarrow> n + 100 \<le> INT_MAX"
  by (simp add: INT_MAX_def)

lemma nth_bit_take: "nth_bit (take k p) n \<longleftrightarrow> n div 8 < k \<and> nth_bit p n"
  by (auto simp: nth_bit_def)

lemma bits_Some: "m_pBuffer a = Some p \<Longrightarrow> bits a = {n. n div 8 < m_nLength a \<and> nth_bit p n}"
  by (auto simp: bits_def view_def nth_bit_take)

lemma bits_None: "m_pBuffer a = None \<Longrightarrow> bits a = {}"
  by (auto simp: bits_def view_def nth_bit_def)

lemma bits_less: "n \<in> bits a \<Longrightarrow> n < 8 * m_nLength a"
  by (cases "m_pBuffer a") (auto simp: bits_None bits_Some)

lemma finite_bits [simp]: "finite (bits a)"
  using bits_less [of _ a] by (intro finite_subset [of "bits a" "{..<8 * m_nLength a}"]) auto

lemma SetModified_simps [simp]:
  "bits (SetModified a) = bits a" "buf_ok (SetModified a) = buf_ok a" "m_nLength (SetModified a) = m_nLength a"
  "m_nCount (SetModified a) = - 1" "m_nIndexes (SetModified a) = None" "m_pBuffer (SetModified a) = m_pBuffer a"
  "m_bCompressed (SetModified a) = m_bCompressed a" "view (SetModified a) = view a"
  by (simp_all add: SetModified_def bits_def view_def buf_ok_def split: option.split)

section \<open>Bits of a block\<close>

lemma SetBit_ok: "n div 8 < length p \<Longrightarrow>
    \<exists>q. SetBit n p = Some q \<and> length q = length p \<and> (\<forall>b. nth_bit q b \<longleftrightarrow> b = n \<or> nth_bit p b)"
proof -
  assume n: "n div 8 < length p"
  have "put_bit p n = p[n div 8 := p ! (n div 8) OR push_bit (n mod 8) 1]"
    using n by (simp add: put_bit_def Let_def del: push_bit_of_1)
  then show ?thesis
    using n nth_bit_put [of p n] by (simp add: SetBit_def byte_at_def byte_put_def del: push_bit_of_1)
qed

lemma byte_bit_cases:
  assumes "n div 8 < length p" "\<And>j. j < 8 \<Longrightarrow> bit x j \<longleftrightarrow> (if j = n mod 8 then v else bit (p ! (n div 8)) j)"
  shows "nth_bit (p[n div 8 := x]) b \<longleftrightarrow> (if b = n then v else nth_bit p b)"
proof (cases "b div 8 = n div 8")
  case True
  then have "nth_bit (p[n div 8 := x]) b \<longleftrightarrow> bit x (b mod 8)" using assms(1) by (simp add: nth_bit_def)
  moreover have "b mod 8 = n mod 8 \<longleftrightarrow> b = n" using True by (metis mod_div_mult_eq)
  ultimately show ?thesis using True assms by (simp add: nth_bit_def)
next
  case False
  then show ?thesis by (auto simp: nth_bit_def)
qed

lemma ResetBit_ok: "n div 8 < length p \<Longrightarrow>
    \<exists>q. ResetBit n p = Some q \<and> length q = length p \<and> (\<forall>b. nth_bit q b \<longleftrightarrow> b \<noteq> n \<and> nth_bit p b)"
proof -
  assume n: "n div 8 < length p"
  let ?x = "p ! (n div 8) AND NOT (push_bit (n mod 8) 1)"
  have "bit ?x j \<longleftrightarrow> (if j = n mod 8 then False else bit (p ! (n div 8)) j)" if "j < 8" for j
    using that by (auto simp: bit_simps simp del: push_bit_of_1)
  from byte_bit_cases [OF n this]
  have "nth_bit (p[n div 8 := ?x]) b \<longleftrightarrow> (if b = n then False else nth_bit p b)" for b .
  then show ?thesis using n by (simp add: ResetBit_def byte_at_def byte_put_def del: push_bit_of_1)
qed

lemma XOrBit_ok: "n div 8 < length p \<Longrightarrow>
    \<exists>q. XOrBit n p = Some q \<and> length q = length p \<and> (\<forall>b. nth_bit q b \<longleftrightarrow> (if b = n then \<not> nth_bit p n else nth_bit p b))"
proof -
  assume n: "n div 8 < length p"
  let ?x = "p ! (n div 8) XOR push_bit (n mod 8) 1"
  have "bit ?x j \<longleftrightarrow> (if j = n mod 8 then \<not> nth_bit p n else bit (p ! (n div 8)) j)" if "j < 8" for j
    using that n by (auto simp: nth_bit_def bit_simps simp del: push_bit_of_1)
  from byte_bit_cases [OF n this] show ?thesis
    using n by (simp add: XOrBit_def byte_at_def byte_put_def del: push_bit_of_1)
qed

lemma GetBit_ok: "n div 8 < length p \<Longrightarrow> GetBit p n = Some (nth_bit p n)"
  by (simp add: GetBit_def byte_at_def nth_bit_def)

lemma zero_bytes: "\<forall>i < length p. k \<le> i \<longrightarrow> p ! i = 0 \<Longrightarrow> nth_bit p n \<Longrightarrow> n div 8 < k"
  by (auto simp: nth_bit_def)

text \<open>The tail of a block is zero exactly if no bit behind the length is set.\<close>

lemma zero_bytes_iff: "(\<forall>i < length p. k \<le> i \<longrightarrow> p ! i = 0) \<longleftrightarrow> (\<forall>n. nth_bit p n \<longrightarrow> n div 8 < k)"
proof
  assume r: "\<forall>n. nth_bit p n \<longrightarrow> n div 8 < k"
  show "\<forall>i < length p. k \<le> i \<longrightarrow> p ! i = 0"
  proof (intro allI impI)
    fix i assume i: "i < length p" "k \<le> i"
    have "\<not> bit (p ! i) j" if "j < 8" for j
      using r [rule_format, of "8 * i + j"] that i by (auto simp: nth_bit_def)
    then show "p ! i = 0" by (intro bit_word_eqI) simp
  qed
qed (use zero_bytes in blast)

lemma buf_ok_Some: "m_pBuffer a = Some p \<Longrightarrow>
    buf_ok a \<longleftrightarrow> \<not> m_bCompressed a \<and> 8 * m_nLength a \<le> INT_MAX \<and> m_nLength a \<le> length p \<and> m_nAllocLength a \<le> length p \<and> (\<forall>n. nth_bit p n \<longrightarrow> n div 8 < m_nLength a)"
  unfolding buf_ok_def zero_bytes_iff by simp

lemma bits_full: "\<lbrakk>buf_ok a; m_pBuffer a = Some p\<rbrakk> \<Longrightarrow> bits a = {n. nth_bit p n}"
  by (auto simp: bits_Some buf_ok_Some)

lemma on_buf_ok:
  assumes "buf_ok a" "m_pBuffer a = Some p" "f p = Some q" "length q = length p" "\<forall>b. nth_bit q b \<longrightarrow> b div 8 < m_nLength a"
  shows "\<exists>a'. on_buf f a = Some a' \<and> buf_ok a' \<and> bits a' = {b. nth_bit q b} \<and> m_nLength a' = m_nLength a \<and> m_pBuffer a' = Some q"
proof -
  let ?a = "a\<lparr>m_pBuffer := Some q\<rparr>"
  have "buf_ok ?a" using assms by (simp add: buf_ok_Some [of a p] buf_ok_Some [of ?a q])
  then show ?thesis using assms bits_full [of ?a q] by (simp add: on_buf_def)
qed

lemma nonempty_buf: "\<lbrakk>buf_ok a; n < 8 * m_nLength a\<rbrakk> \<Longrightarrow> \<exists>p. m_pBuffer a = Some p \<and> n div 8 < length p \<and> n div 8 < m_nLength a"
  by (cases "m_pBuffer a") (auto simp: buf_ok_def)

lemma bit_ops_ok:
  assumes "buf_ok a" "n < 8 * m_nLength a"
  shows "\<exists>a'. on_buf (SetBit n) a = Some a' \<and> buf_ok a' \<and> bits a' = insert n (bits a) \<and> m_nLength a' = m_nLength a"
    "\<exists>a'. on_buf (ResetBit n) a = Some a' \<and> buf_ok a' \<and> bits a' = bits a - {n} \<and> m_nLength a' = m_nLength a"
    "\<exists>a'. on_buf (XOrBit n) a = Some a' \<and> buf_ok a' \<and> bits a' = (if n \<in> bits a then bits a - {n} else insert n (bits a)) \<and>
      m_nLength a' = m_nLength a"
proof -
  obtain p where p: "m_pBuffer a = Some p" "n div 8 < length p" "n div 8 < m_nLength a" using nonempty_buf [OF assms] by blast
  note ok = assms(1) [unfolded buf_ok_Some [OF p(1)]]
  note b = bits_full [OF assms(1) p(1)]
  have res: "\<exists>a'. on_buf f a = Some a' \<and> buf_ok a' \<and> bits a' = S \<and> m_nLength a' = m_nLength a"
    if "f p = Some q" "length q = length p" "{b. nth_bit q b} = S" "\<forall>b \<in> S. b = n \<or> nth_bit p b" for f q S
  proof -
    have "\<forall>b. nth_bit q b \<longrightarrow> b div 8 < m_nLength a" using that(4) p(3) ok unfolding that(3) [symmetric] by auto
    then show ?thesis using on_buf_ok [of a p f q] assms(1) p(1) that(1-3) by blast
  qed
  obtain q where q: "SetBit n p = Some q" "length q = length p" "\<forall>b. nth_bit q b \<longleftrightarrow> b = n \<or> nth_bit p b" using SetBit_ok [OF p(2)] by blast
  have "{b. nth_bit q b} = insert n (bits a)" unfolding b using q(3) by auto
  note qS = this
  show "\<exists>a'. on_buf (SetBit n) a = Some a' \<and> buf_ok a' \<and> bits a' = insert n (bits a) \<and> m_nLength a' = m_nLength a"
    by (rule res [of "SetBit n" q, OF q(1,2) qS]) (use q(3) b in \<open>auto split: if_splits\<close>)
  obtain r where r: "ResetBit n p = Some r" "length r = length p" "\<forall>b. nth_bit r b \<longleftrightarrow> b \<noteq> n \<and> nth_bit p b" using ResetBit_ok [OF p(2)] by blast
  have "{b. nth_bit r b} = bits a - {n}" unfolding b using r(3) by auto
  note rS = this
  show "\<exists>a'. on_buf (ResetBit n) a = Some a' \<and> buf_ok a' \<and> bits a' = bits a - {n} \<and> m_nLength a' = m_nLength a"
    by (rule res [of "ResetBit n" r, OF r(1,2) rS]) (use r(3) b in \<open>auto split: if_splits\<close>)
  obtain x where x: "XOrBit n p = Some x" "length x = length p" "\<forall>b. nth_bit x b \<longleftrightarrow> (if b = n then \<not> nth_bit p n else nth_bit p b)"
    using XOrBit_ok [OF p(2)] by blast
  have "{b. nth_bit x b} = (if n \<in> bits a then bits a - {n} else insert n (bits a))" unfolding b using x(3) by auto
  note xS = this
  show "\<exists>a'. on_buf (XOrBit n) a = Some a' \<and> buf_ok a' \<and> bits a' = (if n \<in> bits a then bits a - {n} else insert n (bits a)) \<and>
      m_nLength a' = m_nLength a"
    by (rule res [of "XOrBit n" x, OF x(1,2) xS]) (use x(3) b in \<open>auto split: if_splits\<close>)
qed

lemma SetLength_grow:
  assumes "buf_ok a" "m_nLength a \<le> n" "0 < n" "8 * n \<le> INT_MAX"
  shows "\<exists>a'. SetLength n a = Some a' \<and> buf_ok a' \<and> bits a' = bits a \<and> m_nLength a' = n"
proof (cases "m_nAllocLength a < n")
  case False
  then obtain p where p: "m_pBuffer a = Some p" using assms by (cases "m_pBuffer a") (auto simp: buf_ok_def)
  let ?a = "a\<lparr>m_nLength := n, m_bModified := True\<rparr>"
  have l: "SetLength n a = Some ?a" using False assms(3) by (simp add: SetLength_def)
  have "\<forall>b. nth_bit p b \<longrightarrow> b div 8 < n" using assms(1,2) by (auto simp: buf_ok_Some [OF p])
  then have "buf_ok ?a" using assms(1,4) False p by (simp add: buf_ok_Some [OF p] buf_ok_Some [of ?a p])
  then show ?thesis using bits_full [of ?a p] bits_full [OF assms(1) p] p by (simp add: l)
next
  case True
  define q where "q = (case m_pBuffer a of None \<Rightarrow> AllocPtr (n + 100) | Some p \<Rightarrow> ReAllocPtr p (n + 100))"
  let ?a = "a\<lparr>m_nAllocLength := n + 100, m_pBuffer := Some q, m_nLength := n, m_bModified := True\<rparr>"
  have l: "SetLength n a = Some ?a"
    using True assms(1,3) short_length [OF assms(4)] by (simp add: SetLength_def Let_def q_def buf_ok_def)
  have len: "length q = n + 100" by (simp add: q_def split: option.splits)
  have same: "nth_bit q b \<longleftrightarrow> b \<in> bits a" for b
  proof (cases "m_pBuffer a")
    case None
    then show ?thesis by (simp add: q_def bits_None) (simp add: nth_bit_def AllocPtr_def)
  next
    case (Some p)
    have "nth_bit p b \<Longrightarrow> b div 8 < n + 100" using assms(1,2) by (fastforce simp: buf_ok_Some [OF Some])
    then have "nth_bit (ReAllocPtr p (n + 100)) b \<longleftrightarrow> nth_bit p b"
      by (auto simp: nth_bit_def ReAllocPtr_def nth_append min_def)
    then show ?thesis using Some bits_full [OF assms(1) Some] by (simp add: q_def)
  qed
  have "\<forall>b. nth_bit q b \<longrightarrow> b div 8 < n" using same bits_less [of _ a] assms(2) by fastforce
  then have "buf_ok ?a" using assms(1,4) len by (simp add: buf_ok_Some [of _ q]) (simp add: buf_ok_def)
  then show ?thesis using bits_full [of ?a q] same by (auto simp: l)
qed

section \<open>Bits and ranges\<close>

lemma buf_compressed: "buf_ok a \<Longrightarrow> \<not> m_bCompressed a"
  by (simp add: buf_ok_def)

lemma GetAt_ok: "buf_ok a \<Longrightarrow> GetAt a n = Some (n \<in> bits a)"
proof -
  assume ok: "buf_ok a"
  show ?thesis
  proof (cases "n < 8 * m_nLength a")
    case True
    obtain p where p: "m_pBuffer a = Some p" "n div 8 < length p" using nonempty_buf [OF ok True] by blast
    then show ?thesis using True ok buf_compressed [OF ok] bits_full [OF ok p(1)] by (simp add: GetAt_def GetBit_ok)
  next
    case False
    then show ?thesis using ok buf_compressed [OF ok] bits_less [of n a] by (auto simp: GetAt_def)
  qed
qed

text \<open>Bit numbers that fit with their byte into an \<open>int\<close>.\<close>

lemma grow_ok:
  assumes "buf_ok a" "n + 8 \<le> INT_MAX"
  shows "\<exists>a'. ensure_bit n a = Some a' \<and> buf_ok a' \<and> bits a' = bits a \<and> n < 8 * m_nLength a' \<and> m_nLength a \<le> m_nLength a' \<and>
    (n < 8 * m_nLength a \<longrightarrow> a' = a)"
proof (cases "n \<ge> 8 * m_nLength a")
  case True
  then have "m_nLength a \<le> n div 8 + 1" by linarith
  moreover have "n < 8 * (n div 8 + 1)" by presburger
  moreover have "8 * (n div 8 + 1) \<le> INT_MAX"
  proof -
    have "8 * (n div 8 + 1) \<le> n + 8" by presburger
    then show ?thesis using assms(2) by (rule le_trans)
  qed
  ultimately show ?thesis using SetLength_grow [OF assms(1), of "n div 8 + 1"] True assms(1) by (auto simp: ensure_bit_def)
next
  case False
  then show ?thesis using assms by (simp add: ensure_bit_def)
qed

lemma SetAt_ok: "\<lbrakk>buf_ok a; n + 8 \<le> INT_MAX\<rbrakk> \<Longrightarrow> \<exists>a'. SetAt n a = Some a' \<and> buf_ok a' \<and> bits a' = insert n (bits a)"
proof -
  assume ok: "buf_ok a" "n + 8 \<le> INT_MAX"
  from grow_ok [OF ok] obtain g where g: "ensure_bit n a = Some g" "buf_ok g" "bits g = bits a" "n < 8 * m_nLength g" by blast
  from bit_ops_ok(1) [OF g(2,4)] obtain a' where
    "on_buf (SetBit n) g = Some a'" "buf_ok a'" "bits a' = insert n (bits g)" by blast
  then show ?thesis using g buf_compressed [OF ok(1)] by (simp add: SetAt_def)
qed

lemma XOrAt_ok: "\<lbrakk>buf_ok a; n + 8 \<le> INT_MAX\<rbrakk> \<Longrightarrow> \<exists>a'. XOrAt n a = Some a' \<and> buf_ok a' \<and>
    bits a' = (if n \<in> bits a then bits a - {n} else insert n (bits a))"
proof -
  assume ok: "buf_ok a" "n + 8 \<le> INT_MAX"
  from grow_ok [OF ok] obtain g where g: "ensure_bit n a = Some g" "buf_ok g" "bits g = bits a" "n < 8 * m_nLength g" by blast
  from bit_ops_ok(3) [OF g(2,4)] obtain a' where
    "on_buf (XOrBit n) g = Some a'" "buf_ok a'" "bits a' = (if n \<in> bits g then bits g - {n} else insert n (bits g))" by blast
  then show ?thesis using g by (simp add: XOrAt_def)
qed

lemma ResetAt_ok: "buf_ok a \<Longrightarrow> \<exists>a'. ResetAt n a = Some a' \<and> buf_ok a' \<and> bits a' = bits a - {n} \<and> m_nLength a' = m_nLength a"
proof -
  assume ok: "buf_ok a"
  show ?thesis
  proof (cases "n < 8 * m_nLength a")
    case True
    from bit_ops_ok(2) [OF ok True] show ?thesis using True ok by (auto simp: ResetAt_def)
  next
    case False
    then show ?thesis using ok bits_less [of n a] by (auto simp: ResetAt_def)
  qed
qed

lemma set_bits_loop:
  "\<lbrakk>buf_ok a; \<forall>n \<in> set ns. n < 8 * m_nLength a\<rbrakk> \<Longrightarrow>
    \<exists>a'. for_each (\<lambda>n. on_buf (SetBit n)) ns a = Some a' \<and> buf_ok a' \<and> bits a' = bits a \<union> set ns \<and> m_nLength a' = m_nLength a"
proof (induction ns arbitrary: a)
  case (Cons n ns)
  obtain a1 where a1: "on_buf (SetBit n) a = Some a1" "buf_ok a1" "bits a1 = insert n (bits a)" "m_nLength a1 = m_nLength a"
    using bit_ops_ok(1) [OF Cons.prems(1), of n] Cons.prems(2) by auto
  from Cons.IH [OF a1(2)] Cons.prems(2) a1(4) show ?case using a1 by auto
qed simp

lemma reset_bits_loop:
  "\<lbrakk>buf_ok a; \<forall>n \<in> set ns. n < 8 * m_nLength a\<rbrakk> \<Longrightarrow>
    \<exists>a'. for_each (\<lambda>n. on_buf (ResetBit n)) ns a = Some a' \<and> buf_ok a' \<and> bits a' = bits a - set ns \<and> m_nLength a' = m_nLength a"
proof (induction ns arbitrary: a)
  case (Cons n ns)
  obtain a1 where a1: "on_buf (ResetBit n) a = Some a1" "buf_ok a1" "bits a1 = bits a - {n}" "m_nLength a1 = m_nLength a"
    using bit_ops_ok(2) [OF Cons.prems(1), of n] Cons.prems(2) by auto
  from Cons.IH [OF a1(2)] Cons.prems(2) a1(4) show ?case using a1 by auto
qed simp

lemma xor_bits_loop:
  "\<lbrakk>buf_ok a; \<forall>n \<in> set ns. n < 8 * m_nLength a; distinct ns\<rbrakk> \<Longrightarrow>
    \<exists>a'. for_each (\<lambda>n. on_buf (XOrBit n)) ns a = Some a' \<and> buf_ok a' \<and>
      bits a' = (bits a - set ns) \<union> (set ns - bits a) \<and> m_nLength a' = m_nLength a"
proof (induction ns arbitrary: a)
  case (Cons n ns)
  obtain a1 where a1: "on_buf (XOrBit n) a = Some a1" "buf_ok a1"
    "bits a1 = (if n \<in> bits a then bits a - {n} else insert n (bits a))" "m_nLength a1 = m_nLength a"
    using bit_ops_ok(3) [OF Cons.prems(1), of n] Cons.prems(2) by auto
  from Cons.IH [OF a1(2)] Cons.prems(2,3) a1(4) obtain a2 where a2: "for_each (\<lambda>n. on_buf (XOrBit n)) ns a1 = Some a2" "buf_ok a2"
    "bits a2 = (bits a1 - set ns) \<union> (set ns - bits a1)" "m_nLength a2 = m_nLength a1" by auto
  have "bits a2 = (bits a - set (n # ns)) \<union> (set (n # ns) - bits a)"
    using Cons.prems(3) unfolding a2(3) a1(3) by auto
  then show ?case using a1(1,4) a2(1,2,4) by auto
qed simp

lemma SetRange_ok: "\<lbrakk>buf_ok a; e + 8 \<le> INT_MAX\<rbrakk> \<Longrightarrow> \<exists>a'. SetRange s e a = Some a' \<and> buf_ok a' \<and> bits a' = bits a \<union> {s..e} \<and>
    (e < 8 * m_nLength a \<longrightarrow> m_nLength a' = m_nLength a)"
proof -
  assume ok: "buf_ok a" "e + 8 \<le> INT_MAX"
  from grow_ok [OF ok] obtain g where g: "ensure_bit e a = Some g" "buf_ok g" "bits g = bits a" "e < 8 * m_nLength g"
    "e < 8 * m_nLength a \<longrightarrow> g = a" by blast
  have "\<forall>n \<in> set [s..<e + 1]. n < 8 * m_nLength g" using g by auto
  from set_bits_loop [OF g(2) this] obtain a' where
    "for_each (\<lambda>n. on_buf (SetBit n)) [s..<e + 1] g = Some a'" "buf_ok a'" "bits a' = bits g \<union> set [s..<e + 1]" "m_nLength a' = m_nLength g" by blast
  moreover have "set [s..<e + 1] = {s..e}" by auto
  moreover have "count_to s e = Some [s..<e + 1]" using ok(2) by simp
  ultimately show ?thesis using g by (auto simp: SetRange_def simp del: upt_Suc)
qed

lemma XOrRange_ok: "\<lbrakk>buf_ok a; e + 8 \<le> INT_MAX\<rbrakk> \<Longrightarrow>
    \<exists>a'. XOrRange s e a = Some a' \<and> buf_ok a' \<and> bits a' = (bits a - {s..e}) \<union> ({s..e} - bits a)"
proof -
  assume ok: "buf_ok a" "e + 8 \<le> INT_MAX"
  from grow_ok [OF ok] obtain g where g: "ensure_bit e a = Some g" "buf_ok g" "bits g = bits a" "e < 8 * m_nLength g" by blast
  have s: "set [s..<e + 1] = {s..e}" by auto
  have "\<forall>n \<in> set [s..<e + 1]. n < 8 * m_nLength g" using g by auto
  from xor_bits_loop [OF g(2) this distinct_upt] obtain a' where
    "for_each (\<lambda>n. on_buf (XOrBit n)) [s..<e + 1] g = Some a'" "buf_ok a'"
    "bits a' = (bits g - {s..e}) \<union> ({s..e} - bits g)" unfolding s by blast
  moreover have "count_to s e = Some [s..<e + 1]" using ok(2) by simp
  ultimately show ?thesis using g by (simp add: XOrRange_def del: upt_Suc)
qed

lemma ResetRange_ok: "buf_ok a \<Longrightarrow> \<exists>a'. ResetRange s e a = Some a' \<and> buf_ok a' \<and> bits a' = bits a - {s..e} \<and> m_nLength a' = m_nLength a"
proof -
  assume ok: "buf_ok a"
  let ?n = "if e \<ge> 8 * m_nLength a then 8 * m_nLength a else e + 1"
  have "\<forall>n \<in> set [s..<?n]. n < 8 * m_nLength a" by auto
  from reset_bits_loop [OF ok this] obtain a' where
    a': "for_each (\<lambda>n. on_buf (ResetBit n)) [s..<?n] a = Some a'" "buf_ok a'" "bits a' = bits a - set [s..<?n]"
      "m_nLength a' = m_nLength a" by blast
  have "bits a - set [s..<?n] = bits a - {s..e}" using bits_less [of _ a] by (force split: if_splits)
  then show ?thesis using a' ok by (simp add: ResetRange_def Let_def del: upt_Suc)
qed

section \<open>Whole arrays\<close>

lemma zip_loop:
  assumes "m_pBuffer src = Some r" "k \<le> length r"
  shows "\<lbrakk>m_pBuffer a = Some p; k \<le> length p\<rbrakk> \<Longrightarrow>
    \<exists>q. for_each (zip_byte f src) [0..<k] a = Some (a\<lparr>m_pBuffer := Some q\<rparr>) \<and> length q = length p \<and>
      (\<forall>i < length p. q ! i = (if i < k then f (p ! i) (r ! i) else p ! i))"
  using assms(2)
proof (induction k)
  case 0
  then show ?case by (intro exI [of _ p]) simp
next
  case (Suc k)
  then obtain q where q: "for_each (zip_byte f src) [0..<k] a = Some (a\<lparr>m_pBuffer := Some q\<rparr>)" "length q = length p"
    "\<forall>i < length p. q ! i = (if i < k then f (p ! i) (r ! i) else p ! i)" by auto
  have "zip_byte f src k (a\<lparr>m_pBuffer := Some q\<rparr>) = Some (a\<lparr>m_pBuffer := Some (q[k := f (q ! k) (r ! k)])\<rparr>)"
    using Suc.prems(2,3) q(2) assms(1) by (simp add: zip_byte_def on_buf_def byte_at_def byte_put_def)
  then show ?case using q Suc.prems(2)
    by (intro exI [of _ "q[k := f (q ! k) (r ! k)]"]) (auto simp: for_each_append nth_list_update)
qed

lemma zip_bits:
  assumes "length q = length p" "\<forall>i < length p. q ! i = (if i < k then f (p ! i) (r ! i) else p ! i)"
    and "\<And>x y j. j < 8 \<Longrightarrow> bit (f x y) j \<longleftrightarrow> F (bit x j) (bit y j)" "k \<le> length p" "k \<le> length r"
  shows "nth_bit q n \<longleftrightarrow> (if n div 8 < k then F (nth_bit p n) (nth_bit r n) else nth_bit p n)"
  using assms by (auto simp: nth_bit_def)

lemma assign_with:
  assumes ok: "buf_ok a" "buf_ok src" and F: "\<And>x y j. j < 8 \<Longrightarrow> bit (f x y) j \<longleftrightarrow> F (bit x j) (bit y j)"
    and n: "\<not> F False False" "\<And>x. F x False = x"
  shows "\<exists>g a'. (if m_nLength a < m_nLength src then SetLength (m_nLength src) a else Some a) = Some g \<and>
      for_each (zip_byte f src) [0..<m_nLength src] g = Some a' \<and> buf_ok a' \<and> bits a' = {n. F (n \<in> bits a) (n \<in> bits src)}"
proof (cases "m_nLength src = 0")
  case True
  then have "bits src = {}" using bits_less [of _ src] by auto
  then show ?thesis using True ok n by auto
next
  case False
  have "8 * m_nLength src \<le> INT_MAX" using ok(2) by (simp add: buf_ok_def)
  then obtain g where gr: "(if m_nLength a < m_nLength src then SetLength (m_nLength src) a else Some a) = Some g"
    and g: "buf_ok g" "bits g = bits a" "m_nLength src \<le> m_nLength g"
    using SetLength_grow [OF ok(1), of "m_nLength src"] ok False by (cases "m_nLength a < m_nLength src") auto
  obtain r where r: "m_pBuffer src = Some r" "m_nLength src \<le> length r" using ok(2) False by (cases "m_pBuffer src") (auto simp: buf_ok_def)
  obtain p where p: "m_pBuffer g = Some p" "m_nLength g \<le> length p" using g(1,3) False by (cases "m_pBuffer g") (auto simp: buf_ok_def)
  have kp: "m_nLength src \<le> length p" using p(2) g(3) by simp
  from zip_loop [OF r p(1) kp, of f] obtain q where
    q: "for_each (zip_byte f src) [0..<m_nLength src] g = Some (g\<lparr>m_pBuffer := Some q\<rparr>)" "length q = length p"
      "\<forall>i < length p. q ! i = (if i < m_nLength src then f (p ! i) (r ! i) else p ! i)" by blast
  have b: "nth_bit q n \<longleftrightarrow> F (n \<in> bits a) (n \<in> bits src)" for n
  proof (cases "n div 8 < m_nLength src")
    case True
    then show ?thesis
      using zip_bits [OF q(2,3) F kp r(2), of n] bits_full [OF ok(2) r(1)] bits_full [OF g(1) p(1)] g(2) by simp
  next
    case False
    then have "n \<notin> bits src" using bits_less [of n src] by auto
    then show ?thesis
      using False zip_bits [OF q(2,3) F kp r(2), of n] bits_full [OF g(1) p(1)] g(2) n(2) by simp
  qed
  have "\<forall>n. nth_bit q n \<longrightarrow> n div 8 < m_nLength g"
  proof (intro allI impI)
    fix n assume "nth_bit q n"
    then have "n \<in> bits g \<or> n \<in> bits src" using b [of n] n(1) g(2) by (cases "n \<in> bits a"; cases "n \<in> bits src") simp_all
    then have "n < 8 * m_nLength g" using bits_less [of n g] bits_less [of n src] g(3) by auto
    then show "n div 8 < m_nLength g" by auto
  qed
  then have "buf_ok (g\<lparr>m_pBuffer := Some q\<rparr>)" using g(1) q(2) by (simp add: buf_ok_Some [of g p, OF p(1)] buf_ok_Some [of _ q])
  then show ?thesis using gr q(1) b bits_full [of "g\<lparr>m_pBuffer := Some q\<rparr>" q] by auto
qed

lemma or_assign_ok: "\<lbrakk>buf_ok a; buf_ok src\<rbrakk> \<Longrightarrow> \<exists>a'. or_assign src a = Some a' \<and> buf_ok a' \<and> bits a' = bits a \<union> bits src"
  using assign_with [of a src "(OR)" "(\<or>)"] by (fastforce simp: or_assign_def bit_simps Un_def)

lemma xor_assign_ok: "\<lbrakk>buf_ok a; buf_ok src\<rbrakk> \<Longrightarrow> \<exists>a'. xor_assign src a = Some a' \<and> buf_ok a' \<and>
    bits a' = (bits a - bits src) \<union> (bits src - bits a)"
proof -
  assume ok: "buf_ok a" "buf_ok src"
  obtain g a' where "(if m_nLength a < m_nLength src then SetLength (m_nLength src) a else Some a) = Some g"
    "for_each (zip_byte (XOR) src) [0..<m_nLength src] g = Some a'" "buf_ok a'"
    "bits a' = {n. (n \<in> bits a) \<noteq> (n \<in> bits src)}"
    using assign_with [OF ok, of "(XOR)" "(\<noteq>)"] by (auto simp: bit_simps)
  then show ?thesis by (auto simp: xor_assign_def)
qed

section \<open>Delete\<close>

lemma SetAt_in:
  assumes "buf_ok a" "n < 8 * m_nLength a"
  shows "\<exists>a'. SetAt n a = Some a' \<and> buf_ok a' \<and> bits a' = insert n (bits a) \<and> m_nLength a' = m_nLength a"
  using bit_ops_ok(1) [OF assms] assms buf_compressed [OF assms(1)] by (auto simp: SetAt_def ensure_bit_def)

lemma move_down_ok:
  assumes "buf_ok a" "n < 8 * m_nLength a" "s \<le> e" "e < n" "s + n \<le> INT_MAX" "d = e + 1 - s"
  shows "\<exists>a'. move_down s e n a = Some a' \<and> buf_ok a' \<and> m_nLength a' = m_nLength a \<and>
    bits a' = (if n \<in> bits a then insert (n - d) (bits a - {n}) else bits a - {n - d})"
proof (cases "n \<in> bits a")
  have to: "int_val (s + n) = Some (s + n)" "s + n - (e + 1) = n - d" using assms by simp_all
  {
  case True
  obtain a1 where a1: "ResetAt n a = Some a1" "buf_ok a1" "bits a1 = bits a - {n}" "m_nLength a1 = m_nLength a"
    using ResetAt_ok [OF assms(1), of n] by blast
  obtain a2 where "SetAt (n - d) a1 = Some a2" "buf_ok a2" "bits a2 = insert (n - d) (bits a1)" "m_nLength a2 = m_nLength a1"
  proof -
    have "n - d < 8 * m_nLength a1" using assms(2) a1(4) by simp
    then show thesis using SetAt_in [OF a1(2)] that by blast
  qed
  then show ?thesis using True a1 GetAt_ok [OF assms(1), of n] to by (simp add: move_down_def)
  next
  case False
  then show ?thesis using ResetAt_ok [OF assms(1), of "n - d"] GetAt_ok [OF assms(1), of n] to by (auto simp: move_down_def)
  }
qed

lemma move_loop:
  assumes se: "s \<le> e" "d = e + 1 - s" "k = e + 1"
  shows "\<lbrakk>buf_ok a; \<forall>n \<in> bits a. n < k - d \<or> k \<le> n; k + m \<le> 8 * m_nLength a; s + (k + m) \<le> INT_MAX\<rbrakk> \<Longrightarrow>
    \<exists>a'. for_each (move_down s e) [k..<k + m] a = Some a' \<and> buf_ok a' \<and> m_nLength a' = m_nLength a \<and>
      bits a' = {n \<in> bits a. n < k - d} \<union> (\<lambda>n. n - d) ` {n \<in> bits a. k \<le> n \<and> n < k + m} \<union> {n \<in> bits a. k + m \<le> n}"
proof (induction m)
  case 0
  have "bits a = {n \<in> bits a. n < k - d} \<union> (\<lambda>n. n - d) ` {n \<in> bits a. k \<le> n \<and> n < k + 0} \<union> {n \<in> bits a. k + 0 \<le> n}"
    using 0 by auto
  moreover have "for_each (move_down s e) [k..<k + 0] a = Some a" by simp
  ultimately show ?case using 0(1) by blast
next
  case (Suc m)
  have assms: "0 < d" "d \<le> k" using se by simp_all
  from Suc obtain a1 where a1: "for_each (move_down s e) [k..<k + m] a = Some a1" "buf_ok a1" "m_nLength a1 = m_nLength a"
    "bits a1 = {n \<in> bits a. n < k - d} \<union> (\<lambda>n. n - d) ` {n \<in> bits a. k \<le> n \<and> n < k + m} \<union> {n \<in> bits a. k + m \<le> n}" by auto
  have lt: "k + m < 8 * m_nLength a1" using Suc.prems(3) a1(3) by simp
  obtain a2 where a2: "move_down s e (k + m) a1 = Some a2" "buf_ok a2" "m_nLength a2 = m_nLength a1"
    "bits a2 = (if k + m \<in> bits a1 then insert (k + m - d) (bits a1 - {k + m}) else bits a1 - {k + m - d})"
    using move_down_ok [OF a1(2) lt se(1) _ _ se(2)] Suc.prems(4) se(3) by auto
  have mem: "k + m \<in> bits a1 \<longleftrightarrow> k + m \<in> bits a" unfolding a1(4) using assms by auto
  have tgt: "k + m - d \<notin> bits a1" unfolding a1(4) using assms Suc.prems(2) by auto
  have split: "{n \<in> bits a. k \<le> n \<and> n < k + Suc m} = {n \<in> bits a. k \<le> n \<and> n < k + m} \<union> {n \<in> {k + m}. n \<in> bits a}"
    "{n \<in> bits a. k + m \<le> n} = {n \<in> bits a. k + Suc m \<le> n} \<union> {n \<in> {k + m}. n \<in> bits a}" by auto
  have notin: "k + m \<notin> {n \<in> bits a. n < k - d} \<union> (\<lambda>n. n - d) ` {n \<in> bits a. k \<le> n \<and> n < k + m} \<union> {n \<in> bits a. k + Suc m \<le> n}"
    using assms by auto
  have "bits a2 = {n \<in> bits a. n < k - d} \<union> (\<lambda>n. n - d) ` {n \<in> bits a. k \<le> n \<and> n < k + Suc m} \<union> {n \<in> bits a. k + Suc m \<le> n}"
  proof (cases "k + m \<in> bits a")
    case True
    then show ?thesis using notin unfolding a2(4) mem unfolding a1(4) split image_Un by auto
  next
    case False
    then show ?thesis using tgt unfolding a2(4) mem unfolding a1(4) split image_Un by auto
  qed
  then show ?case using a1(1,3) a2(1-3) by (simp add: for_each_append)
qed

lemma reset_raw_loop:
  "\<lbrakk>m_pBuffer a = Some p; \<forall>n \<in> set ns. n div 8 < length p\<rbrakk> \<Longrightarrow>
    \<exists>q. for_each (\<lambda>n. on_buf (ResetBit n)) ns a = Some (a\<lparr>m_pBuffer := Some q\<rparr>) \<and> length q = length p \<and>
      (\<forall>b. nth_bit q b \<longleftrightarrow> nth_bit p b \<and> b \<notin> set ns)"
proof (induction ns arbitrary: a p)
  case Nil
  then show ?case by (intro exI [of _ p]) simp
next
  case (Cons n ns)
  then obtain r where r: "ResetBit n p = Some r" "length r = length p" "\<forall>b. nth_bit r b \<longleftrightarrow> b \<noteq> n \<and> nth_bit p b"
    using ResetBit_ok [of n p] by auto
  have "m_pBuffer (a\<lparr>m_pBuffer := Some r\<rparr>) = Some r" "\<forall>n \<in> set ns. n div 8 < length r" using Cons.prems(2) r(2) by simp_all
  from Cons.IH [OF this] obtain q where
    q: "for_each (\<lambda>n. on_buf (ResetBit n)) ns (a\<lparr>m_pBuffer := Some r\<rparr>) = Some (a\<lparr>m_pBuffer := Some q\<rparr>)" "length q = length r"
    "\<forall>b. nth_bit q b \<longleftrightarrow> nth_bit r b \<and> b \<notin> set ns" by auto
  have "on_buf (ResetBit n) a = Some (a\<lparr>m_pBuffer := Some r\<rparr>)" using r(1) Cons.prems(1) by (simp add: on_buf_def)
  then show ?case using q r(2,3) by (intro exI [of _ q]) auto
qed

definition fresh :: "sfbitarray \<Rightarrow> bool" where
  "fresh a \<longleftrightarrow> m_nCount a = - 1 \<and> m_nIndexes a = None"

lemma for_each_fresh:
  "\<lbrakk>for_each f xs a = Some a'; \<And>x a a'. \<lbrakk>f x a = Some a'; fresh a\<rbrakk> \<Longrightarrow> fresh a'; fresh a\<rbrakk> \<Longrightarrow> fresh a'"
  by (induction xs arbitrary: a) (auto split: bind_splits)

lemma on_buf_fresh: "\<lbrakk>on_buf f a = Some a'; fresh a\<rbrakk> \<Longrightarrow> fresh a'"
  by (auto simp: on_buf_def fresh_def split: bind_splits)

lemma ops_fresh:
  "SetAt n a = Some a' \<Longrightarrow> fresh a'" "ResetAt n a = Some a' \<Longrightarrow> fresh a'" "XOrAt n a = Some a' \<Longrightarrow> fresh a'"
  "SetRange s e a = Some a' \<Longrightarrow> fresh a'" "ResetRange s e a = Some a' \<Longrightarrow> fresh a'" "XOrRange s e a = Some a' \<Longrightarrow> fresh a'"
  "or_assign b a = Some a' \<Longrightarrow> fresh a'" "xor_assign b a = Some a' \<Longrightarrow> fresh a'"
  by (auto simp: SetAt_def ResetAt_def XOrAt_def SetRange_def ResetRange_def XOrRange_def or_assign_def xor_assign_def
      fresh_def Let_def split: bind_splits)

lemma move_down_fresh: "\<lbrakk>move_down s e n a = Some a'; fresh a\<rbrakk> \<Longrightarrow> fresh a'"
  using ops_fresh(1,2) by (fastforce simp: move_down_def split: bind_splits if_splits)

lemma same_byte: "\<lbrakk>n \<le> x; x < n + (8 - n mod 8)\<rbrakk> \<Longrightarrow> x div 8 = n div (8 :: nat)"
proof -
  assume a: "n \<le> x" "x < n + (8 - n mod 8)"
  define q r where "q = n div 8" "r = n mod 8"
  have n: "n = 8 * q + r" "r < 8" by (simp_all add: q_r_def)
  then have "x = 8 * q + (x - 8 * q)" "x - 8 * q < 8" using a by (simp_all add: q_r_def(2) [symmetric])
  then have "x div 8 = q" by (metis div_less div_mult_self4 add.right_neutral zero_neq_numeral)
  then show ?thesis by (simp add: q_r_def)
qed

lemma Delete_ok:
  assumes ok: "buf_ok a" and se: "s \<le> e" "s < 8 * m_nLength a" and int: "s + 8 * m_nLength a \<le> INT_MAX"
  shows "\<exists>a'. Delete s e a = Some a' \<and> buf_ok a' \<and> fresh a' \<and>
    bits a' = {n \<in> bits a. n < s} \<union> (\<lambda>n. n - (e + 1 - s)) ` {n \<in> bits a. e < n}"
proof -
  let ?N = "8 * m_nLength a"
  define f where "f = min e (?N - 1)"
  define d where "d = f + 1 - s"
  have f: "s \<le> f" "f < ?N" "0 < d" "d \<le> f + 1" "f + 1 - d = s" using se by (auto simp: f_def d_def)
  obtain a1 where a1: "ResetRange s f a = Some a1" "buf_ok a1" "bits a1 = bits a - {s..f}" "m_nLength a1 = m_nLength a"
    using ResetRange_ok [OF ok, of s f] by blast
  have pre: "\<forall>n \<in> bits a1. n < f + 1 - d \<or> f + 1 \<le> n" unfolding a1(3) f(5) by auto
  have N: "f + 1 + (?N - (f + 1)) = ?N" using f(2) by simp
  from move_loop [OF f(1) d_def refl a1(2) pre, of "?N - (f + 1)"] int obtain a2 where
    a2: "for_each (move_down s f) [f + 1..<?N] a1 = Some a2" "buf_ok a2" "m_nLength a2 = m_nLength a"
      "bits a2 = {n \<in> bits a1. n < s} \<union> (\<lambda>n. n - d) ` {n \<in> bits a1. f + 1 \<le> n \<and> n < ?N} \<union> {n \<in> bits a1. ?N \<le> n}"
    unfolding N f(5) a1(4) by auto
  have b2: "bits a2 = {n \<in> bits a. n < s} \<union> (\<lambda>n. n - d) ` {n \<in> bits a. f < n}"
    unfolding a2(4) a1(3) using f(1) by (auto dest: bits_less)
  define n where "n = ?N - (f - s + 1)"
  define l where "l = n div 8 + (if n mod 8 \<noteq> 0 then 1 else 0)"
  have nd: "n = ?N - d" "n < ?N" using f by (auto simp: n_def d_def)
  have lt: "x < n" if "x \<in> bits a2" for x
    using that unfolding b2
  proof (elim UnE)
    assume "x \<in> {n \<in> bits a. n < s}"
    then show "x < n" using f unfolding nd(1) by auto
  next
    assume "x \<in> (\<lambda>n. n - d) ` {n \<in> bits a. f < n}"
    then obtain y where "x = y - d" "f < y" "y < ?N" using bits_less [of _ a] by auto
    then show "x < n" using f unfolding nd(1) by linarith
  qed
  obtain p where p: "m_pBuffer a2 = Some p" "m_nLength a \<le> length p" using a2(2,3) se by (cases "m_pBuffer a2") (auto simp: buf_ok_def)
  let ?a3 = "a2\<lparr>m_bModified := True, m_nLength := l\<rparr>"
  have l: "l \<le> m_nLength a" "n \<le> 8 * l" using nd(2) unfolding l_def by presburger+
  have lmax: "8 * l \<le> INT_MAX" using l(1) int by linarith
  have "\<forall>x \<in> set [n..<n + (8 - n mod 8)]. x div 8 < length p"
  proof
    fix x assume "x \<in> set [n..<n + (8 - n mod 8)]"
    then have "x div 8 = n div 8" using same_byte by auto
    moreover have "n div 8 < m_nLength a" using nd(2) by auto
    ultimately show "x div 8 < length p" using p(2) by simp
  qed
  from reset_raw_loop [of ?a3 p, OF _ this] p(1) obtain q where
    q: "for_each (\<lambda>n. on_buf (ResetBit n)) [n..<n + (8 - n mod 8)] ?a3 = Some (?a3\<lparr>m_pBuffer := Some q\<rparr>)" "length q = length p"
      "\<forall>b. nth_bit q b \<longleftrightarrow> nth_bit p b \<and> b \<notin> set [n..<n + (8 - n mod 8)]" by auto
  let ?a4 = "?a3\<lparr>m_pBuffer := Some q\<rparr>"
  have bq: "nth_bit q b \<longleftrightarrow> b \<in> bits a2" for b
    using q(3) lt [of b] bits_full [OF a2(2) p(1)] by auto
  have "b div 8 < l" if "nth_bit q b" for b using lt [of b] that bq l(2) by fastforce
  then have ok4: "buf_ok ?a4" using a2(2) q(2) l(1) p(2) lmax by (simp add: buf_ok_Some [of a2 p, OF p(1)] buf_ok_Some [of ?a4 q])
  have "Delete s e a = Some ?a4"
    using se a1(1) a2(1) q(1) unfolding Delete_def Let_def bit_length_ok [OF ok] bind.bind_lunit f_def [symmetric] n_def [symmetric] l_def [symmetric]
    by simp
  moreover have "bits ?a4 = bits a2" using bits_full [OF ok4, of q] bq by auto
  moreover have "fresh ?a4"
  proof -
    have "fresh a2" using for_each_fresh [OF a2(1) _ ops_fresh(5) [OF a1(1)]] move_down_fresh by blast
    then show ?thesis by (simp add: fresh_def)
  qed
  moreover have "bits a2 = {n \<in> bits a. n < s} \<union> (\<lambda>n. n - (e + 1 - s)) ` {n \<in> bits a. e < n}"
  proof (cases "e < ?N")
    case True
    then have "f = e" by (simp add: f_def)
    then show ?thesis unfolding b2 d_def by simp
  next
    case False
    then have "f = ?N - 1" by (simp add: f_def)
    then have z: "{n \<in> bits a. f < n} = {}" "{n \<in> bits a. e < n} = {}" using bits_less [of _ a] False by fastforce+
    show ?thesis unfolding b2 z by simp
  qed
  ultimately show ?thesis using ok4 by auto
qed

section \<open>Counting and the index\<close>

definition ones :: "sfbitarray \<Rightarrow> nat list" where
  "ones a = filter (\<lambda>n. n \<in> bits a) [0..<8 * m_nLength a]"

definition every :: "nat \<Rightarrow> 'b list \<Rightarrow> 'b list" where
  "every k xs = map (nth xs) (filter (\<lambda>j. j mod k = 0) [0..<length xs])"

definition cache_ok :: "sfbitarray \<Rightarrow> bool" where
  "cache_ok a \<longleftrightarrow> (m_nCount a = - 1 \<or> m_nCount a = int (length (ones a))) \<and>
     (case m_nIndexes a of None \<Rightarrow> True
      | Some ix \<Rightarrow> 0 < m_nBitSeg a \<and> m_nIndexesCount a = length ix \<and> ix = every (m_nBitSeg a) (ones a))"

definition arr_ok :: "sfbitarray \<Rightarrow> bool" where
  "arr_ok a \<longleftrightarrow> buf_ok a \<and> cache_ok a"

lemma set_ones [simp]: "set (ones a) = bits a"
  using bits_less [of _ a] by (auto simp: ones_def)

lemma fresh_cache: "fresh a \<Longrightarrow> cache_ok a"
  by (simp add: fresh_def cache_ok_def)

lemma byte_ones_eq: "\<forall>j \<ge> m. \<not> bit by j \<Longrightarrow> byte_ones by k = map (\<lambda>j. k + j) (filter (bit by) [0..<m])"
proof (induction m arbitrary: "by" k)
  case 0
  then have "by = 0" by (intro bit_eqI) simp
  then show ?case by (subst byte_ones.simps) simp
next
  case (Suc m)
  show ?case
  proof (cases "by = 0")
    case True
    then show ?thesis by (subst byte_ones.simps) simp
  next
    case False
    have d: "bit (drop_bit 1 by) j \<longleftrightarrow> bit by (Suc j)" for j by (simp only: bit_drop_bit_eq comp_def) simp
    have IH: "byte_ones (drop_bit 1 by) (k + 1) = map (\<lambda>j. k + 1 + j) (filter (bit (drop_bit 1 by)) [0..<m])"
      using Suc.prems by (intro Suc.IH) (simp only: d, simp)
    have "filter (bit by) [0..<Suc m] = (if bit by 0 then [0] else []) @ map Suc (filter (bit (drop_bit 1 by)) [0..<m])"
      unfolding d by (simp add: upt_conv_Cons map_Suc_upt [symmetric] filter_map comp_def del: upt_Suc)
    then show ?thesis using False IH by (subst byte_ones.simps) (simp add: comp_def del: upt_Suc)
  qed
qed

lemma bits_of_byte:
  assumes "buf_ok a" "i < m_nLength a"
  shows "\<exists>x. byte_of a i = Some x \<and> byte_ones x (8 * i) = filter (\<lambda>n. n \<in> bits a) [8 * i..<8 * i + 8]"
proof -
  obtain p where p: "m_pBuffer a = Some p" "i < length p" using assms by (cases "m_pBuffer a") (auto simp: buf_ok_def)
  have "\<forall>j \<ge> 8. \<not> bit (p ! i) j" by (auto dest: bit_imp_le_length)
  from byte_ones_eq [OF this] have "byte_ones (p ! i) (8 * i) = map (\<lambda>j. 8 * i + j) (filter (bit (p ! i)) [0..<8])" .
  also have "filter (bit (p ! i)) [0..<8] = filter (\<lambda>j. 8 * i + j \<in> bits a) [0..<8]"
    using p(2) bits_full [OF assms(1) p(1)] by (intro filter_cong) (auto simp: nth_bit_def)
  also have "map (\<lambda>j. 8 * i + j) \<dots> = filter (\<lambda>n. n \<in> bits a) (map (\<lambda>j. 8 * i + j) [0..<8])"
    by (simp add: filter_map comp_def)
  also have "map (\<lambda>j. 8 * i + j) [0..<8] = [8 * i..<8 * i + 8]"
    using map_add_upt [of "8 * i" 8] by (simp add: add.commute)
  finally show ?thesis using p by (simp add: byte_of_def byte_at_def)
qed

lemma for_each_snoc: "for_each f (xs @ [x]) s = for_each f xs s \<bind> f x"
  by (cases "for_each f xs s") (auto simp: for_each_append split: bind_splits)

lemma upt_bytes: "i \<le> j \<Longrightarrow> [8 * i..<8 * Suc j] = [8 * i..<8 * j] @ [8 * j..<8 * j + 8]"
  using upt_add_eq_append [of "8 * i" "8 * j" 8] by (simp add: add.commute)

lemma each_one_ok:
  assumes "buf_ok a" "j \<le> m_nLength a" "i \<le> j"
  shows "each_one f a [i..<j] s = for_each f (filter (\<lambda>n. n \<in> bits a) [8 * i..<8 * j]) s"
  using assms(2,3)
proof (induction j arbitrary: s)
  case 0
  then show ?case by (simp add: each_one_def)
next
  case (Suc j)
  show ?case
  proof (cases "i = Suc j")
    case False
    then have ij: "i \<le> j" using Suc.prems by simp
    obtain x where x: "byte_of a j = Some x" "byte_ones x (8 * j) = filter (\<lambda>n. n \<in> bits a) [8 * j..<8 * j + 8]"
      using bits_of_byte [OF assms(1), of j] Suc.prems by auto
    have fits: "int_val (Suc (last (byte_ones x (8 * j)))) = Some (Suc (last (byte_ones x (8 * j))))" if "byte_ones x (8 * j) \<noteq> []"
    proof -
      have "last (byte_ones x (8 * j)) < 8 * j + 8" using last_in_set [OF that] unfolding x(2) by simp
      then show ?thesis using Suc.prems(1) assms(1) by (simp add: buf_ok_def)
    qed
    have "each_one f a [i..<Suc j] s = each_one f a [i..<j] s \<bind> for_each f (byte_ones x (8 * j))"
      using ij x(1) fits by (cases "byte_ones x (8 * j) = []"; cases "each_one f a [i..<j] s") (simp_all add: each_one_def for_each_snoc Let_def)
    also have "\<dots> = for_each f (filter (\<lambda>n. n \<in> bits a) ([8 * i..<8 * j] @ [8 * j..<8 * j + 8])) s"
      using Suc.IH [of s] Suc.prems ij x(2) by (simp add: for_each_append)
    finally show ?thesis by (simp only: upt_bytes [OF ij])
  qed (simp add: each_one_def)
qed

lemma each_one_all: "buf_ok a \<Longrightarrow> each_one f a [0..<m_nLength a] s = for_each f (ones a) s"
  using each_one_ok [of a "m_nLength a" 0] by (simp add: ones_def)

lemma bitCount_ok: "bitCount ! unat (x :: u8) = length (byte_ones x k)"
proof -
  have "\<forall>n \<in> set [0..<256]. bitCount ! n = length (filter (bit (of_nat n :: u8)) [0..<8])" by code_simp
  moreover have "unat x \<in> set [0..<256]" using unsigned_less [of x, where ?'a = nat] by simp
  ultimately have "bitCount ! unat x = length (filter (bit (of_nat (unat x) :: u8)) [0..<8])" by blast
  moreover have "\<forall>j \<ge> 8. \<not> bit x j" by (auto dest: bit_imp_le_length)
  ultimately show ?thesis by (simp add: byte_ones_eq [of 8])
qed

lemma count_loop:
  assumes "buf_ok a"
  shows "j \<le> m_nLength a \<Longrightarrow>
    for_each (\<lambda>i n. do { by \<leftarrow> byte_of a i; if by \<noteq> 0 then int_val (n + bitCount ! unat by) else Some n }) [0..<j] 0 =
      Some (length (filter (\<lambda>n. n \<in> bits a) [0..<8 * j]))"
proof (induction j)
  case (Suc j)
  obtain x where x: "byte_of a j = Some x" "byte_ones x (8 * j) = filter (\<lambda>n. n \<in> bits a) [8 * j..<8 * j + 8]"
    using bits_of_byte [OF assms, of j] Suc.prems by auto
  have "bitCount ! unat x = length (byte_ones x (8 * j))" by (rule bitCount_ok)
  moreover have "x = 0 \<Longrightarrow> byte_ones x (8 * j) = []" by (subst byte_ones.simps) simp
  moreover have "length (filter (\<lambda>n. n \<in> bits a) [0..<8 * Suc j]) \<le> INT_MAX"
    using length_filter_le [of "\<lambda>n. n \<in> bits a" "[0..<8 * Suc j]"] Suc.prems assms unfolding length_upt by (simp add: buf_ok_def)
  ultimately show ?case using Suc x upt_bytes [of 0 j] by (auto simp: for_each_append)
qed simp

lemma GetCount_ok:
  assumes "arr_ok a"
  shows "\<exists>a'. GetCount a = Some (int (length (ones a)), a') \<and> arr_ok a' \<and> bits a' = bits a \<and> m_nLength a' = m_nLength a \<and>
    m_nIndexes a' = m_nIndexes a \<and> m_nCount a' = int (length (ones a)) \<and> m_pBuffer a' = m_pBuffer a"
proof (cases "m_nCount a = - 1")
  case True
  let ?a = "a\<lparr>m_nCount := int (length (ones a))\<rparr>"
  have b: "bits ?a = bits a" by (simp add: bits_def view_def split: option.split)
  then have "ones ?a = ones a" by (simp add: ones_def)
  moreover have "buf_ok ?a" using assms by (simp add: arr_ok_def buf_ok_def split: option.splits)
  ultimately have "arr_ok ?a" using assms by (auto simp: arr_ok_def cache_ok_def split: option.splits)
  then show ?thesis using True b count_loop [of a "m_nLength a"] assms by (simp add: GetCount_def arr_ok_def ones_def)
next
  case False
  then show ?thesis using assms by (auto simp: GetCount_def arr_ok_def cache_ok_def)
qed

lemma every_snoc: "every k (xs @ [x]) = every k xs @ (if length xs mod k = 0 then [x] else [])"
  by (simp add: every_def nth_append)

lemma part_div: "t < k \<Longrightarrow> (q * k + t) div k = (q :: nat)"
  by simp

lemma filter_mod: "0 < k \<Longrightarrow> filter (\<lambda>j. j mod k = 0) [0..<n] = map (\<lambda>i. i * k) [0..<(n + k - 1) div k]"
proof (induction n)
  case (Suc n)
  show ?case
  proof (cases "n mod k = 0")
    case True
    then obtain q where q: "n = q * k" by (metis mod_0_imp_dvd dvd_div_mult_self)
    have "n + k - 1 = q * k + (k - 1)" "Suc n + k - 1 = Suc q * k + 0" using Suc.prems by (simp_all add: q)
    then have "(n + k - 1) div k = q" "(Suc n + k - 1) div k = Suc q"
      using Suc.prems by (simp_all only: part_div diff_less zero_less_one)
    moreover note q
    ultimately show ?thesis using Suc True q by simp
  next
    case False
    have "(Suc n + k - 1) div k = (n + k - 1) div k"
    proof -
      define q r where "q = n div k" "r = n mod k"
      have n: "n = q * k + r" "0 < r" "r < k" using False Suc.prems by (simp_all add: q_r_def)
      have "Suc n + k - 1 = Suc q * k + r" "n + k - 1 = Suc q * k + (r - 1)" using n by simp_all
      moreover have "r - 1 < k" using n by simp
      ultimately show ?thesis using n(3) by (simp only: part_div)
    qed
    then show ?thesis using Suc False by simp
  qed
qed simp

lemma every_eq: "0 < k \<Longrightarrow> every k xs = map (\<lambda>i. xs ! (i * k)) [0..<(length xs + k - 1) div k]"
  by (simp add: every_def filter_mod)

lemma index_loop:
  assumes "0 < seg" "length xs \<le> n"
  shows "for_each (index_one seg (n div seg + 1)) xs ([], 0) = Some (every seg xs, length xs)"
  using assms(2)
proof (induction xs rule: rev_induct)
  case Nil
  then show ?case by (simp add: every_def)
next
  case (snoc x xs)
  have "length (every seg xs) < n div seg + 1" if "length xs mod seg = 0"
  proof -
    obtain q where q: "length xs = q * seg" using \<open>length xs mod seg = 0\<close> by (metis mod_0_imp_dvd dvd_div_mult_self)
    have "(q * seg + seg - 1) div seg = q"
    proof -
      have "q * seg + seg - 1 = q * seg + (seg - 1)" using assms(1) by simp
      then show ?thesis using assms(1) by (simp only: part_div diff_less zero_less_one)
    qed
    then have "length (every seg xs) = q" by (simp add: every_eq [OF assms(1)] q)
    moreover have "q \<le> n div seg" using snoc.prems q assms(1) by (simp add: less_eq_div_iff_mult_less_eq)
    ultimately show ?thesis by simp
  qed
  then show ?case using snoc by (simp add: for_each_append index_one_def every_snoc)
qed

lemma same_bits: "m_pBuffer a' = m_pBuffer a \<Longrightarrow> m_nLength a' = m_nLength a \<Longrightarrow> bits a' = bits a \<and> ones a' = ones a"
proof -
  assume "m_pBuffer a' = m_pBuffer a" "m_nLength a' = m_nLength a"
  moreover from this have "bits a' = bits a" by (simp add: bits_def view_def split: option.split)
  ultimately show ?thesis by (simp add: ones_def)
qed

lemma Index_ok:
  assumes "arr_ok a" "0 < m_nLength a"
  shows "\<exists>a'. Index a = Some a' \<and> arr_ok a' \<and> bits a' = bits a \<and> m_nLength a' = m_nLength a \<and>
    (\<exists>ix. m_nIndexes a' = Some ix)"
proof -
  obtain a1 where a1: "GetCount a = Some (int (length (ones a)), a1)" "arr_ok a1" "m_nLength a1 = m_nLength a"
    "m_pBuffer a1 = m_pBuffer a" using GetCount_ok [OF assms(1)] by blast
  note o = same_bits [OF a1(4,3)]
  let ?n = "length (ones a)"
  define seg where "seg = nat (int ?n div SEG_COUNT + 1)"
  have seg: "0 < seg" by (simp add: seg_def SEG_COUNT_def)
  have run: "each_one (index_one seg (?n div seg + 1)) a1 [0..<m_nLength a1] ([], 0) = Some (every seg (ones a), ?n)"
    using each_one_all [of a1 "index_one seg (?n div seg + 1)" "([], 0)"] index_loop [OF seg, of "ones a" ?n] a1(2) o
    by (simp add: arr_ok_def)
  let ?a = "a1\<lparr>m_nBitSeg := seg, m_nIndexes := Some (every seg (ones a)), m_nIndexesCount := length (every seg (ones a)), m_nCount := int ?n\<rparr>"
  have "Index a = Some ?a" using assms(2) a1(1) run by (simp add: Index_def Let_def seg_def [symmetric])
  moreover have b: "bits ?a = bits a" "ones ?a = ones a" using same_bits [of ?a a] a1(3,4) by simp_all
  moreover have "buf_ok ?a" using a1(2) by (simp add: arr_ok_def buf_ok_def split: option.splits)
  moreover have "cache_ok ?a" using seg b by (simp add: cache_ok_def)
  ultimately show ?thesis using a1(3) by (simp add: arr_ok_def)
qed

lemma ensure_index_ok:
  assumes "arr_ok a" "0 < m_nLength a"
  shows "\<exists>a' ix. ensure_index a = Some a' \<and> arr_ok a' \<and> bits a' = bits a \<and> ones a' = ones a \<and> m_nLength a' = m_nLength a \<and>
    m_nIndexes a' = Some ix \<and> ix = every (m_nBitSeg a') (ones a) \<and> m_nIndexesCount a' = length ix \<and> 0 < m_nBitSeg a'"
proof -
  obtain a' ix where a': "ensure_index a = Some a'" "arr_ok a'" "bits a' = bits a" "m_nLength a' = m_nLength a" "m_nIndexes a' = Some ix"
    using Index_ok [OF assms] assms(1) by (cases "m_nIndexes a") (auto simp: ensure_index_def)
  moreover have "ones a' = ones a" using a' by (simp add: ones_def)
  ultimately show ?thesis by (auto simp: arr_ok_def cache_ok_def)
qed

definition rank :: "sfbitarray \<Rightarrow> nat \<Rightarrow> nat" where
  "rank a n = length (filter (\<lambda>k. k \<in> bits a) [0..<n])"

lemma rank_Suc: "rank a (Suc n) = rank a n + (if n \<in> bits a then 1 else 0)"
  by (simp add: rank_def)

lemma rank_split: "m \<le> n \<Longrightarrow> rank a n = rank a m + length (filter (\<lambda>k. k \<in> bits a) [m..<n])"
  using upt_add_eq_append [of 0 m "n - m"] by (simp add: rank_def)

lemma rank_all: "8 * m_nLength a \<le> n \<Longrightarrow> rank a n = length (ones a)"
proof -
  assume n: "8 * m_nLength a \<le> n"
  have "filter (\<lambda>k. k \<in> bits a) [8 * m_nLength a..<n] = []" by (auto simp: filter_empty_conv dest: bits_less)
  then show ?thesis using rank_split [OF n, of a] by (simp add: rank_def ones_def)
qed

lemma nth_ones: "n \<in> bits a \<Longrightarrow> rank a n < length (ones a) \<and> ones a ! rank a n = n"
proof -
  assume n: "n \<in> bits a"
  then have lt: "n < 8 * m_nLength a" by (rule bits_less)
  have "[0..<8 * m_nLength a] = [0..<n] @ n # [Suc n..<8 * m_nLength a]"
    using upt_add_eq_append [of 0 n "8 * m_nLength a - n"] lt by (simp add: upt_conv_Cons)
  then show ?thesis using n by (simp add: ones_def rank_def nth_append)
qed

lemma rank_nth: "i < length (ones a) \<Longrightarrow> rank a (ones a ! i) = i"
proof -
  assume i: "i < length (ones a)"
  have d: "distinct (ones a)" by (simp add: ones_def)
  have "ones a ! i \<in> bits a" using i nth_mem [of i "ones a"] by simp
  from nth_ones [OF this] show ?thesis using nth_eq_iff_index_eq [OF d _ i] by blast
qed

lemma skip_ones_ok:
  assumes ok: "buf_ok a"
  shows "\<lbrakk>0 < r; rank a (b + 1) + r \<le> length (ones a)\<rbrakk> \<Longrightarrow>
    skip_ones a (8 * m_nLength a) r b = Some (int (ones a ! (rank a (b + 1) + r - 1)))"
proof (induction "8 * m_nLength a - b" arbitrary: b r rule: less_induct)
  case less
  have lt: "b + 1 < 8 * m_nLength a"
  proof (rule ccontr)
    assume "\<not> b + 1 < 8 * m_nLength a"
    then have "rank a (b + 1) = length (ones a)" by (intro rank_all) simp
    then show False using less.prems by simp
  qed
  let ?r = "if b + 1 \<in> bits a then r - 1 else r"
  have step: "skip_ones a (8 * m_nLength a) r b = skip_ones a (8 * m_nLength a) ?r (b + 1)"
    using less.prems(1) lt GetAt_ok [OF ok, of "b + 1"] by (subst skip_ones.simps) simp
  have c: "rank a (b + 1 + 1) = rank a (b + 1) + (if b + 1 \<in> bits a then 1 else 0)" using rank_Suc [of a "b + 1"] by simp
  show ?case
  proof (cases "?r = 0")
    case True
    then have one: "b + 1 \<in> bits a" "r = 1" using less.prems(1) by (auto split: if_splits)
    have "skip_ones a (8 * m_nLength a) 0 (b + 1) = Some (int (b + 1))" by (subst skip_ones.simps) simp
    then show ?thesis using step one nth_ones [OF one(1)] by simp
  next
    case False
    then have "0 < ?r" "rank a (b + 1 + 1) + ?r \<le> length (ones a)" using less.prems unfolding c by (auto split: if_splits)
    from less.hyps [OF _ this] lt have "skip_ones a (8 * m_nLength a) ?r (b + 1) = Some (int (ones a ! (rank a (b + 1 + 1) + ?r - 1)))" by simp
    moreover have "rank a (b + 1 + 1) + ?r - 1 = rank a (b + 1) + r - 1" unfolding c using less.prems(1) by auto
    ultimately show ?thesis unfolding step by (simp only:)
  qed
qed

lemma every_nth:
  assumes "0 < k" "i < length xs"
  shows "i div k < length (every k xs) \<and> every k xs ! (i div k) = xs ! (i div k * k)"
proof -
  have "i div k \<le> (length xs - 1) div k" using assms(2) by (intro div_le_mono) simp
  moreover have "(length xs + k - 1) div k = (length xs - 1) div k + 1"
  proof -
    have "length xs + k - 1 = (length xs - 1) + k" using assms by simp
    then show ?thesis using assms(1) by (simp only: div_add_self2)
  qed
  ultimately have "i div k < (length xs + k - 1) div k" by linarith
  then show ?thesis using assms(1) by (simp add: every_eq)
qed

lemma every_index: "\<lbrakk>0 < k; m < length (every k xs)\<rbrakk> \<Longrightarrow> m * k < length xs \<and> every k xs ! m = xs ! (m * k)"
proof -
  assume a: "0 < k" "m < length (every k xs)"
  then have m: "m < (length xs + k - 1) div k" by (simp add: every_eq)
  then have "Suc m * k \<le> length xs + k - 1" using a(1) by (simp only: Suc_le_eq [symmetric] less_eq_div_iff_mult_less_eq)
  then have "m * k < length xs" using a(1) by simp
  then show ?thesis using m by (simp add: every_eq [OF a(1)])
qed

lemma GetIndexBit_ok:
  assumes ok: "arr_ok a"
  shows "\<exists>a'. GetIndexBit i a = Some (if 0 \<le> i \<and> i < int (card (bits a)) then int (ones a ! nat i) else - 1, a') \<and>
    arr_ok a' \<and> bits a' = bits a"
proof -
  have "distinct (ones a)" by (simp add: ones_def)
  from distinct_card [OF this] have n: "length (ones a) = card (bits a)" by simp
  obtain a1 where a1: "GetCount a = Some (int (length (ones a)), a1)" "arr_ok a1" "bits a1 = bits a" "m_nLength a1 = m_nLength a"
    using GetCount_ok [OF ok] by blast
  have o1: "ones a1 = ones a" using a1(3,4) by (simp add: ones_def)
  show ?thesis
  proof (cases "0 \<le> i \<and> i < int (length (ones a))")
    case False
    then show ?thesis using ok a1 by (cases "i \<le> - 1") (auto simp: GetIndexBit_def n)
  next
    case True
    define j where "j = nat i"
    have j: "i = int j" "j < length (ones a)" using True by (simp_all add: j_def nat_less_iff)
    then have "bits a \<noteq> {}" by (metis length_pos_if_in_set list.size(3) not_less_zero set_empty set_ones)
    then have "0 < m_nLength a1" using bits_less [of _ a] a1(4) by fastforce
    from ensure_index_ok [OF a1(2) this] obtain a2 ix where
      a2: "ensure_index a1 = Some a2" "arr_ok a2" "bits a2 = bits a" "ones a2 = ones a" "m_nIndexes a2 = Some ix"
        "ix = every (m_nBitSeg a2) (ones a)" "m_nIndexesCount a2 = length ix" "0 < m_nBitSeg a2"
      using a1(3) o1 by metis
    let ?k = "m_nBitSeg a2"
    note e = every_nth [OF a2(8) j(2)]
    have at: "index_at a2 (j div ?k) = Some (ones a ! (j div ?k * ?k))" using e a2(5,6) by (simp add: index_at_def)
    have skip: "skip_ones a2 (8 * m_nLength a2) (j mod ?k) (ones a ! (j div ?k * ?k)) = Some (int (ones a ! j))" 
    proof (cases "j mod ?k = 0")
      case True
      then have "j div ?k * ?k = j" by (metis add.right_neutral div_mult_mod_eq)
      then show ?thesis using True by (subst skip_ones.simps) simp
    next
      case False
      have q: "j div ?k * ?k < length (ones a)" using j(2) by (meson div_times_less_eq_dividend le_less_trans)
      let ?b = "ones a ! (j div ?k * ?k)"
      have "?b \<in> bits a2" using nth_mem [OF q] a2(3) by simp
      then have r: "rank a2 (?b + 1) = j div ?k * ?k + 1" using rank_Suc [of a2 ?b] rank_nth [of "j div ?k * ?k" a2] q a2(4) by simp
      have s: "j div ?k * ?k + 1 + j mod ?k = j + 1" by (metis add.commute add.left_commute div_mult_mod_eq)
      have "0 < j mod ?k" "rank a2 (?b + 1) + j mod ?k \<le> length (ones a2)" using False s j(2) a2(4) unfolding r by simp_all
      from skip_ones_ok [OF _ this] show ?thesis using a2(2,4) s unfolding r by (simp add: arr_ok_def)
    qed
    have "GetIndexBit i a = Some (int (ones a ! j), a2)"
    proof (cases "?k = 1")
      case True
      then show ?thesis using j a1(1) a2(1,7) at e a2(6) by (simp add: GetIndexBit_def)
    next
      case False
      moreover have "bit_length a2 = Some (8 * m_nLength a2)" using a2(2) by (simp add: arr_ok_def)
      ultimately show ?thesis using j a1(1) a2(1,7) at e a2(6) skip by (simp add: GetIndexBit_def)
    qed
    then show ?thesis using True j a2(2,3) n by auto
  qed
qed

lemma find_seg_ok:
  assumes "m_nIndexes a = Some ix"
  shows "\<lbrakk>0 \<le> s; e \<le> int (length ix); m < length ix\<rbrakk> \<Longrightarrow> \<exists>m'. find_seg a n s e m = Some m' \<and> m' < length ix"
proof (induction "nat (e - s)" arbitrary: s e m rule: less_induct)
  case less
  show ?case
  proof (cases "s < e")
    case True
    let ?m = "nat ((e + s) div 2)"
    have m: "s \<le> int ?m" "int ?m < e"
    proof -
      have "0 \<le> (e + s) div 2" "s \<le> (e + s) div 2" "(e + s) div 2 < e" using True less.prems(1) by presburger+
      then show "s \<le> int ?m" "int ?m < e" by simp_all
    qed
    then have lt: "?m < length ix" using less.prems(2) by linarith
    then have at: "index_at a ?m = Some (ix ! ?m)" using assms by (simp add: index_at_def)
    have l: "\<exists>m'. find_seg a n s (int ?m - 1) ?m = Some m' \<and> m' < length ix"
      by (rule less.hyps) (use m less.prems lt in linarith)+
    have u: "\<exists>m'. find_seg a n (int ?m + 1) e ?m = Some m' \<and> m' < length ix"
      by (rule less.hyps) (use m less.prems lt in linarith)+
    have "find_seg a n s e m = (if n = ix ! ?m then Some ?m else if n < ix ! ?m then find_seg a n s (int ?m - 1) ?m
        else find_seg a n (int ?m + 1) e ?m)"
      using True at by (subst find_seg.simps) (simp add: Let_def)
    then show ?thesis using l u lt by simp
  next
    case False
    then show ?thesis using less.prems(3) by (subst find_seg.simps) simp
  qed
qed

lemma step_back_ok:
  assumes "m_nIndexes a = Some ix"
  shows "m < length ix \<Longrightarrow> \<exists>m'. step_back a n m = Some m' \<and> m' < length ix \<and> (m' = 0 \<or> ix ! m' \<le> n)"
proof (induction m)
  case 0
  then show ?case by (subst step_back.simps) simp
next
  case (Suc m)
  then show ?case using assms by (subst step_back.simps) (auto simp: index_at_def)
qed

lemma count_bits_ok: "\<lbrakk>buf_ok a; c + length (filter (\<lambda>n. n \<in> bits a) ns) \<le> INT_MAX\<rbrakk> \<Longrightarrow>
    count_bits a ns c = Some (c + length (filter (\<lambda>n. n \<in> bits a) ns))"
  unfolding count_bits_def by (induction ns arbitrary: c) (auto simp: GetAt_ok split: if_splits)

lemma rank_le: "buf_ok a \<Longrightarrow> rank a n \<le> INT_MAX"
proof -
  assume ok: "buf_ok a"
  have "rank a n \<le> rank a (max n (8 * m_nLength a))" using rank_split [of n "max n (8 * m_nLength a)" a] by simp
  also have "\<dots> = length (ones a)" by (rule rank_all) simp
  also have "\<dots> \<le> 8 * m_nLength a" using length_filter_le [of "\<lambda>n. n \<in> bits a" "[0..<8 * m_nLength a]"] by (simp add: ones_def)
  also have "\<dots> \<le> INT_MAX" using ok by (simp add: buf_ok_def)
  finally show ?thesis .
qed

lemma GetBitIndex_ok:
  assumes ok: "arr_ok a"
  shows "\<exists>a'. GetBitIndex n a = Some (int (rank a (Suc n)) - 1, a') \<and> arr_ok a' \<and> bits a' = bits a"
proof -
  obtain a1 where a1: "GetCount a = Some (int (length (ones a)), a1)" "arr_ok a1" "bits a1 = bits a" "m_nLength a1 = m_nLength a"
    using GetCount_ok [OF ok] by blast
  have o1: "ones a1 = ones a" using a1(3,4) by (simp add: ones_def)
  show ?thesis
  proof (cases "ones a = []")
    case True
    then have "bits a = {}" using set_ones [of a] by simp
    then show ?thesis using True a1 by (simp add: GetBitIndex_def rank_def)
  next
    case False
    then have "bits a \<noteq> {}" using set_ones [of a] by (metis set_empty)
    then have "0 < m_nLength a1" using bits_less [of _ a] a1(4) by fastforce
    from ensure_index_ok [OF a1(2) this] obtain a2 ix where
      a2: "ensure_index a1 = Some a2" "arr_ok a2" "bits a2 = bits a" "ones a2 = ones a" "m_nIndexes a2 = Some ix"
        "ix = every (m_nBitSeg a2) (ones a)" "m_nIndexesCount a2 = length ix" "0 < m_nBitSeg a2"
      using a1(3) o1 by metis
    let ?k = "m_nBitSeg a2"
    have buf: "buf_ok a2" using a2(2) by (simp add: arr_ok_def)
    have rk: "rank a2 x = rank a x" for x using a2(3) by (simp add: rank_def)
    have "0 < length ix" using every_nth [OF a2(8), of 0 "ones a"] False a2(6) by auto
    then obtain m0 where m0: "find_seg a2 n 0 (int (length ix)) 0 = Some m0" "m0 < length ix"
      using find_seg_ok [OF a2(5), of 0 "int (length ix)" 0 n] by auto
    obtain m where m: "step_back a2 n m0 = Some m" "m < length ix" "m = 0 \<or> ix ! m \<le> n"
      using step_back_ok [OF a2(5) m0(2)] by blast
    have x: "m * ?k < length (ones a)" "ix ! m = ones a ! (m * ?k)" using every_index [OF a2(8), of m "ones a"] m(2) a2(6) by auto
    then have rx: "rank a (ix ! m) = m * ?k" using rank_nth by simp
    have "m * ?k + length (filter (\<lambda>n. n \<in> bits a2) [ix ! m..<n]) = rank a n"
    proof (cases "ix ! m \<le> n")
      case True
      then show ?thesis using rank_split [OF True, of a] rx a2(3) by simp
    next
      case False
      then have "rank a n \<le> rank a (ix ! m)" using rank_split [of n "ix ! m" a] by simp
      then show ?thesis using False m(3) rx by auto
    qed
    then have cnt: "count_bits a2 [ix ! m..<n] (m * ?k) = Some (rank a n)"
      using count_bits_ok [OF buf, of "m * ?k" "[ix ! m..<n]"] rank_le [OF buf, of n] rk by simp
    have "GetBitIndex n a = Some (int (rank a (Suc n)) - 1, a2)"
      using False a1(1) a2(1,5,7) m0(1) m(1,2) cnt GetAt_ok [OF buf, of n] a2(3)
      by (simp add: GetBitIndex_def index_at_def rank_Suc)
    then show ?thesis using a2(2,3) by auto
  qed
qed

section \<open>Insert\<close>

lemma raw_ok:
  assumes "buf_ok a" "m_pBuffer a = Some p" "n < 8 * m_nLength a"
  shows "GetBit p n = Some (n \<in> bits a)"
proof -
  have "n div 8 < length p" using assms by (auto simp: buf_ok_Some [OF assms(2)])
  then show ?thesis using GetBit_ok bits_full [OF assms(1,2)] by simp
qed

lemma move_up_ok:
  assumes "buf_ok a" "n + c < 8 * m_nLength a"
  shows "\<exists>a'. move_up c n a = Some a' \<and> buf_ok a' \<and> m_nLength a' = m_nLength a \<and>
    bits a' = (if n \<in> bits a then insert (n + c) (bits a - {n}) else bits a)"
proof -
  have n: "n < 8 * m_nLength a" using assms(2) by simp
  obtain p where p: "m_pBuffer a = Some p" using nonempty_buf [OF assms(1) n] by blast
  obtain a1 where a1: "on_buf (ResetBit n) a = Some a1" "buf_ok a1" "bits a1 = bits a - {n}" "m_nLength a1 = m_nLength a"
    using bit_ops_ok(2) [OF assms(1) n] by blast
  have nc: "n + c < 8 * m_nLength a1" using assms(2) a1(4) by simp
  obtain a2 where a2: "on_buf (SetBit (n + c)) a1 = Some a2" "buf_ok a2" "bits a2 = insert (n + c) (bits a1)" "m_nLength a2 = m_nLength a1"
    using bit_ops_ok(1) [OF a1(2) nc] by blast
  show ?thesis using assms(1) p raw_ok [OF assms(1) p n] a1 a2 by (simp add: move_up_def)
qed

lemma move_up_loop:
  assumes "buf_ok a" "bits a \<subseteq> {..<M}" "M + c \<le> 8 * m_nLength a"
  shows "d \<le> M \<Longrightarrow> \<exists>a'. for_each (move_up c) (rev [M - d..<M]) a = Some a' \<and> buf_ok a' \<and> m_nLength a' = m_nLength a \<and>
    bits a' = {n \<in> bits a. n < M - d} \<union> (\<lambda>n. n + c) ` {n \<in> bits a. M - d \<le> n}"
proof (induction d)
  case 0
  have "bits a = {n \<in> bits a. n < M - 0} \<union> (\<lambda>n. n + c) ` {n \<in> bits a. M - 0 \<le> n}" using assms(2) by auto
  then show ?case using assms(1) by auto
next
  case (Suc d)
  define k where "k = M - Suc d"
  have k: "M - d = Suc k" "k < M" using Suc.prems by (simp_all add: k_def)
  obtain a1 where a1: "for_each (move_up c) (rev [Suc k..<M]) a = Some a1" "buf_ok a1" "m_nLength a1 = m_nLength a"
    "bits a1 = {n \<in> bits a. n < Suc k} \<union> (\<lambda>n. n + c) ` {n \<in> bits a. Suc k \<le> n}" using Suc unfolding k(1) by auto
  have "k + c < 8 * m_nLength a1" using k(2) assms(3) a1(3) by simp
  from move_up_ok [OF a1(2) this] obtain a2 where a2: "move_up c k a1 = Some a2" "buf_ok a2" "m_nLength a2 = m_nLength a1"
    "bits a2 = (if k \<in> bits a1 then insert (k + c) (bits a1 - {k}) else bits a1)" by blast
  have mem: "k \<in> bits a1 \<longleftrightarrow> k \<in> bits a" unfolding a1(4) by auto
  have "{n \<in> bits a. n < Suc k} = {n \<in> bits a. n < k} \<union> {n \<in> {k}. n \<in> bits a}"
    "{n \<in> bits a. k \<le> n} = {n \<in> bits a. Suc k \<le> n} \<union> {n \<in> {k}. n \<in> bits a}" by auto
  note split = this
  have "bits a2 = {n \<in> bits a. n < k} \<union> (\<lambda>n. n + c) ` {n \<in> bits a. k \<le> n}"
    unfolding a2(4) mem unfolding a1(4) split image_Un by (cases "k \<in> bits a") auto
  moreover have "rev [k..<M] = rev [Suc k..<M] @ [k]" using k(2) by (simp add: upt_conv_Cons)
  ultimately show ?case using a1(1,3) a2(1-3) unfolding k_def [symmetric] by (simp add: for_each_append)
qed

lemma Insert_ok:
  assumes ok: "buf_ok a" and c: "0 < c" and int: "8 * (max (8 * m_nLength a) s + c) \<le> INT_MAX"
  shows "\<exists>a'. Insert s c v a = Some a' \<and> buf_ok a' \<and> fresh a' \<and> m_nLength a' = max (8 * m_nLength a) s + c \<and>
    bits a' = {n \<in> bits a. n \<le> s} \<union> (if v then {s<..s + c} else {}) \<union> (\<lambda>n. n + c) ` {n \<in> bits a. s < n}"
proof -
  let ?M = "8 * m_nLength a"
  define L where "L = ?M + c + (s - ?M)"
  have L: "L = max ?M s + c" by (simp add: L_def)
  have fits: "int_val L = Some L" "int_val (s + c) = Some (s + c)" "s + c + 8 \<le> INT_MAX" using int by (simp_all add: L INT_MAX_def)
  obtain g where g0: "SetLength L a = Some g" and g: "buf_ok g" "bits g = bits a" "m_nLength g = L"
    using SetLength_grow [OF ok, of L] c int unfolding L [symmetric] by (auto simp: L max_def split: if_splits)
  have sub: "bits g \<subseteq> {..<?M}" using g(2) by (auto dest: bits_less)
  have "?M + c \<le> 8 * m_nLength g" by (simp add: g(3) L)
  note loop = move_up_loop [OF g(1) sub this, of "?M - (s + 1)"]
  obtain a1 where a1: "for_each (move_up c) (rev [s + 1..<?M]) g = Some a1" "buf_ok a1" "m_nLength a1 = L"
    "bits a1 = {n \<in> bits a. n \<le> s} \<union> (\<lambda>n. n + c) ` {n \<in> bits a. s < n}"
  proof (cases "s + 1 \<le> ?M")
    case True
    then have "?M - (?M - (s + 1)) = s + 1" by simp
    with loop g that show thesis by (auto simp: less_Suc_eq_le Suc_le_eq)
  next
    case False
    then have "bits a = {n \<in> bits a. n \<le> s}" "{n \<in> bits a. s < n} = {}" by (auto dest: bits_less)
    with g that [of g] False show thesis by simp
  qed
  have se: "{s + 1..s + c} = {s<..s + c}" by auto
  have lt: "\<not> 8 * m_nLength a1 \<le> s + c" using c by (simp add: a1(3) L)
  show ?thesis
  proof (cases v)
    case True
    from SetRange_ok [OF a1(2) fits(3), of "s + 1"] lt obtain a2 where
      a2: "SetRange (s + 1) (s + c) a1 = Some a2" "buf_ok a2" "bits a2 = bits a1 \<union> {s<..s + c}" "m_nLength a2 = L"
      unfolding se a1(3) by auto
    moreover have "Insert s c v a = Some a2" using a1(1) a2(1) True g0 fits ok by (simp add: Insert_def Let_def L_def [symmetric])
    ultimately show ?thesis using a2 a1(4) True ops_fresh(4) [OF a2(1)] L by auto
  next
    case False
    from ResetRange_ok [OF a1(2), of "s + 1" "s + c"] obtain a2 where
      a2: "ResetRange (s + 1) (s + c) a1 = Some a2" "buf_ok a2" "bits a2 = bits a1 - {s<..s + c}" "m_nLength a2 = m_nLength a1"
      unfolding se by blast
    have "bits a2 = bits a1" unfolding a2(3) a1(4) by auto
    moreover have "Insert s c v a = Some a2" using a1(1) a2(1) False g0 fits ok by (simp add: Insert_def Let_def L_def [symmetric])
    ultimately show ?thesis using a2(2,4) a1(3,4) False ops_fresh(5) [OF a2(1)] L by auto
  qed
qed

section \<open>Runs that break the representation\<close>

lemma append_short: "append_tail None 0 8 0 = Some (True, [1, 0, 1, 0, 1], 5)"
proof -
  have c: "(1 :: nat) div COMPRESS_COUNT = 0" "(1 :: nat) mod COMPRESS_COUNT = 1" "\<not> COMPRESS_COUNT \<le> 1" by (simp_all add: COMPRESS_COUNT_def)
  have a: "byte_put 0 1 (AllocPtr 5) = Some [1, 0, 0, 0, 0]" "word_put 2 1 [1, 0, 0, 0, 0] = Some [1, 0, 1, 0, 0]"
    "SetBit 32 [1, 0, 1, 0, 0] = Some [1, 0, 1, 0, 1]" by code_simp+
  have "fill_runs (Suc 0) 1 [1, 0, 0, 0, 0] 5 = Some [1, 0, 1, 0, 0]"
    by (simp add: c COMPRESS_SIZE_def a del: One_nat_def)
  then have "fill_runs 1 1 [1, 0, 0, 0, 0] 5 = Some [1, 0, 1, 0, 0]" by (simp only: One_nat_def)
  then show ?thesis using a by (simp add: append_tail_def c COMPRESS_SIZE_def Let_def del: fill_runs.simps One_nat_def)
qed

lemma decompress_short:
  "decompress_loop [1, 0, 1, 0, 1] 5 (- 1) 1 (AllocPtr 5) 0 = Some ((replicate 1025 0)[1 := 1], 2)"
proof -
  have w: "word_at [1, 0, 1, 0, 1] 2 = Some 1" by code_simp
  have b: "byte_at [1, 0, 1, 0, 1] 1 = Some 0" "byte_at [1, 0, 1, 0, 1] 4 = Some 1" by code_simp+
  have r: "ReAllocPtr (AllocPtr 5) 1025 = replicate 1025 0"
    by (simp add: ReAllocPtr_def AllocPtr_def flip: replicate_add)
  have "decompress_loop [1, 0, 1, 0, 1] 5 (- 1) 1 (AllocPtr 5) 0 =
      decompress_loop [1, 0, 1, 0, 1] 5 (- 1) 4 (replicate 1025 0) 1"
    by (subst decompress_loop.simps) (simp add: b(1) w r COMPRESS_SIZE_def del: One_nat_def)
  also have "\<dots> = decompress_loop [1, 0, 1, 0, 1] 5 (- 1) 5 ((replicate 1025 0)[1 := 1]) 2"
    by (subst decompress_loop.simps) (simp add: b(2) byte_put_def del: One_nat_def)
  also have "\<dots> = Some ((replicate 1025 0)[1 := 1], 2)" by (subst decompress_loop.simps) simp
  finally show ?thesis .
qed

lemma rle_decompress_short: "rle_Decompress (Some [1, 0, 1, 0, 1]) 5 (- 1) = Some (Some [0, 1], 2)"
proof -
  have t: "take 2 ((replicate 1025 0)[1 := 1]) = [0, 1 :: u8]" by (simp add: take_update_swap) (simp add: numeral_2_eq_2)
  have r: "ReAllocPtr ((replicate 1025 0)[1 := 1]) 2 = [0, 1]" unfolding ReAllocPtr_def t by simp
  show ?thesis unfolding rle_Decompress_def by (simp add: decompress_short r del: One_nat_def)
qed

lemma stale_alloc: "\<exists>a d. SetAt 8 (SFBitArray_ctor 0 True) = Some a \<and> Decompress a = Some d \<and>
     m_nAllocLength d = 5 \<and> m_pBuffer d = Some [0, 1] \<and> SetAt 39 d = None"
proof -
  let ?a = "\<lparr>m_pBuffer = Some [1, 0, 1, 0, 1], m_nLength = 5, m_nAllocLength = 5, m_nCount = - 1, m_nIndexes = None,
    m_nIndexesCount = 0, m_nBitSeg = 1, m_bModified = True, m_bCompressed = True\<rparr>"
  let ?d = "?a\<lparr>m_bCompressed := False, m_pBuffer := Some [0, 1], m_nLength := 2\<rparr>"
  have "SetAt 8 (SFBitArray_ctor 0 True) = Some ?a"
    by (simp add: SetAt_def SFBitArray_ctor_def InitValues_def rle_SetAt_def append_short SetModified_def)
  moreover have "Decompress ?a = Some ?d" by (simp add: Decompress_def rle_decompress_short)
  moreover have "SetAt 39 ?d = None"
    by (simp add: SetAt_def ensure_bit_def bit_length_def int_val_def INT_MAX_def SetLength_def on_buf_def SetBit_def byte_at_def)
  ultimately show ?thesis by auto
qed

lemma vector_never: "Bmp2Array_vector a = None"
proof (cases "GetCount a")
  case (Some r)
  obtain n a1 where r: "GetCount a = Some (n, a1)" using Some by (cases r) auto
  from r have "m_nCount a1 = n" "n \<noteq> - 1" by (fastforce simp: GetCount_def split: bind_splits if_splits)+
  then have "GetCount a1 = Some (n, a1)" by (simp add: GetCount_def)
  then show ?thesis using r by (simp add: Bmp2Array_vector_def Bmp2Array_def)
qed (simp add: Bmp2Array_vector_def)




text \<open>\<open>Decompress\<close> replaces the buffer but not the allocation length of the compressed block: where that is the
  larger one, a later \<open>SetAt\<close> writes behind the heap block.\<close>

lemma decompress_stale_alloc:
  assumes "m_bCompressed a" "m_nLength a \<noteq> 0" "Decompress a = Some d" "m_nLength d \<le> n div 8" "n div 8 < m_nAllocLength a"
  shows "SetAt n d = None"
proof -
  obtain q l where q: "rle_Decompress (m_pBuffer a) (m_nLength a) (- 1) = Some (q, l)"
    "d = a\<lparr>m_bCompressed := False, m_pBuffer := q, m_nLength := l\<rparr>"
    using assms(1-3) by (auto simp: Decompress_def split: bind_splits)
  then have p: "q = None \<or> (\<exists>p. q = Some p \<and> length p = l)"
    using assms(2) by (cases "l = 0") (auto simp: rle_Decompress_def split: bind_splits)
  have "SetBit n p = None" if "length p = l" for p using assms(4) that q(2) by (simp add: SetBit_def byte_at_def)
  moreover have "8 * m_nLength d \<le> n" using assms(4) by linarith
  ultimately show ?thesis using q(2) p assms(4,5)
    by (auto simp: SetAt_def ensure_bit_def bit_length_def SetLength_def on_buf_def int_val_def split: bind_splits)
qed

section \<open>Properties\<close>

text \<open>An operation returns a well-formed array that stands for the set \<open>S\<close>.\<close>

definition yields_set :: "sfbitarray option \<Rightarrow> nat set \<Rightarrow> bool" where
  "yields_set r S \<longleftrightarrow> (\<exists>a'. r = Some a' \<and> arr_ok a' \<and> bits a' = S)"

lemma yields_setI: "\<lbrakk>\<exists>a'. r = Some a' \<and> buf_ok a' \<and> bits a' = S; \<And>a'. r = Some a' \<Longrightarrow> fresh a'\<rbrakk> \<Longrightarrow> yields_set r S"
  using fresh_cache by (auto simp: yields_set_def arr_ok_def)

lemma ctor_ok: "arr_ok (SFBitArray_ctor cnt False)" "bits (SFBitArray_ctor cnt False) = {}" "m_nLength (SFBitArray_ctor cnt False) = 0"
  by (simp_all add: SFBitArray_ctor_def InitValues_def arr_ok_def buf_ok_def cache_ok_def bits_None)

lemma small_int: "numeral k \<le> (2147483647 :: nat) \<Longrightarrow> numeral k \<le> INT_MAX"
  by (simp add: INT_MAX_def)

lemma ones_sorted: "ones a = sorted_list_of_set (bits a)"
proof (rule sorted_distinct_set_unique)
  show "sorted (ones a)" unfolding ones_def by (intro sorted_wrt_filter sorted_upt)
  show "distinct (ones a)" by (simp add: ones_def)
qed simp_all

lemma rank_card: "rank a (Suc n) = card {k \<in> bits a. k \<le> n}"
proof -
  have "rank a (Suc n) = length (filter (\<lambda>k. k \<in> bits a) [0..<Suc n])" by (rule rank_def)
  also have "\<dots> = card (set (filter (\<lambda>k. k \<in> bits a) [0..<Suc n]))"
    by (rule distinct_card [symmetric]) (rule distinct_filter, rule distinct_upt)
  also have "set (filter (\<lambda>k. k \<in> bits a) [0..<Suc n]) = {k \<in> bits a. k \<le> n}" by (auto simp: less_Suc_eq_le simp del: upt_Suc)
  finally show ?thesis .
qed

text \<open>C36: an uncompressed bit array refines a finite set of bit numbers. Every read is membership and the
  operations on bits, ranges and whole arrays are insertion, removal, symmetric difference and union;
  none of them fails, and each keeps the representation: no old bits behind the length, buffer and
  allocation length agreeing, the number of bits an \<open>int\<close>, and the count and index caches dropped. The
  bits that are set must be at most \<open>INT_MAX - 8\<close>: with a larger one the array grows to \<open>2^28\<close> bytes and
  \<open>m_nLength<<3\<close> overflows in every later operation.
\<close>

theorem bitarray_refines_set:
  assumes "arr_ok a" "arr_ok b" "n + 8 \<le> INT_MAX" "e + 8 \<le> INT_MAX"
  shows "(GetAt a n = Some (n \<in> bits a)) \<and>
    yields_set (SetAt n a) (insert n (bits a)) \<and>
    yields_set (ResetAt n a) (bits a - {n}) \<and>
    yields_set (XOrAt n a) (if n \<in> bits a then bits a - {n} else insert n (bits a)) \<and>
    yields_set (SetRange s e a) (bits a \<union> {s..e}) \<and>
    yields_set (ResetRange s e a) (bits a - {s..e}) \<and>
    yields_set (XOrRange s e a) ((bits a - {s..e}) \<union> ({s..e} - bits a)) \<and>
    yields_set (or_assign b a) (bits a \<union> bits b) \<and>
    yields_set (xor_assign b a) ((bits a - bits b) \<union> (bits b - bits a))"
proof (intro conjI)
  have a: "buf_ok a" "buf_ok b" using assms by (simp_all add: arr_ok_def)
  note f = ops_fresh
  show "GetAt a n = Some (n \<in> bits a)" by (rule GetAt_ok [OF a(1)])
  show "yields_set (SetAt n a) (insert n (bits a))" by (rule yields_setI [OF SetAt_ok [OF a(1) assms(3)] f(1)])
  show "yields_set (ResetAt n a) (bits a - {n})" by (rule yields_setI [OF _ f(2)]) (use ResetAt_ok [OF a(1)] in blast)
  show "yields_set (XOrAt n a) (if n \<in> bits a then bits a - {n} else insert n (bits a))" by (rule yields_setI [OF XOrAt_ok [OF a(1) assms(3)] f(3)])
  show "yields_set (SetRange s e a) (bits a \<union> {s..e})" by (rule yields_setI [OF _ f(4)]) (use SetRange_ok [OF a(1) assms(4)] in blast)
  show "yields_set (ResetRange s e a) (bits a - {s..e})" by (rule yields_setI [OF _ f(5)]) (use ResetRange_ok [OF a(1)] in blast)
  show "yields_set (XOrRange s e a) ((bits a - {s..e}) \<union> ({s..e} - bits a))" by (rule yields_setI [OF XOrRange_ok [OF a(1) assms(4)] f(6)])
  show "yields_set (or_assign b a) (bits a \<union> bits b)" by (rule yields_setI [OF or_assign_ok [OF a] f(7)])
  show "yields_set (xor_assign b a) ((bits a - bits b) \<union> (bits b - bits a))" by (rule yields_setI [OF xor_assign_ok [OF a] f(8)])
qed

lemma bitarray_refines_set_witness:
  "yields_set (SetRange 3 9 (SFBitArray_ctor 0 False)) {3..9} \<and> yields_set (XOrAt 5 (SFBitArray_ctor 0 False)) {5}"
  using bitarray_refines_set [OF ctor_ok(1) ctor_ok(1), of 5 9 0 3 0] by (simp add: ctor_ok small_int)

text \<open>The array of the witnesses.\<close>

lemma range_example: "\<exists>a. SetRange 3 9 (SFBitArray_ctor 0 False) = Some a \<and> arr_ok a \<and> bits a = {3..9} \<and> m_nLength a = 2"
proof -
  have "buf_ok (SFBitArray_ctor 0 False)" "9 + 8 \<le> INT_MAX" using ctor_ok(1) [of 0] by (simp_all add: arr_ok_def small_int)
  from SetRange_ok [OF this, of 3] obtain a where a: "SetRange 3 9 (SFBitArray_ctor 0 False) = Some a" "buf_ok a" "bits a = {3..9}"
    by (auto simp: ctor_ok)
  moreover have "map_option m_nLength (SetRange 3 9 (SFBitArray_ctor 0 False)) = Some 2" by code_simp
  ultimately show ?thesis using fresh_cache [OF ops_fresh(4) [OF a(1)]] by (auto simp: arr_ok_def)
qed

text \<open>C37: counting and the two-level index answer select and rank queries. \<open>GetCount\<close> is the number of
  ones; \<open>GetIndexBit i\<close> is the \<open>i\<close>-th one in ascending order, or \<open>-1\<close> out of range; \<open>GetBitIndex n\<close>
  is one less than the number of ones up to \<open>n\<close>, so it inverts \<open>GetIndexBit\<close> on the ones. All three return
  for every well-formed array (its number of bits is an \<open>int\<close>), whatever is cached, and leave the caches
  consistent with the bits.
\<close>

theorem bitarray_select_rank:
  assumes "arr_ok a"
  shows "(\<exists>a'. GetCount a = Some (int (card (bits a)), a') \<and> arr_ok a' \<and> bits a' = bits a) \<and>
    (\<exists>a'. GetIndexBit i a = Some (if 0 \<le> i \<and> i < int (card (bits a))
        then int (sorted_list_of_set (bits a) ! nat i) else - 1, a') \<and> arr_ok a' \<and> bits a' = bits a) \<and>
    (\<exists>a'. GetBitIndex n a = Some (int (card {k \<in> bits a. k \<le> n}) - 1, a') \<and> arr_ok a' \<and> bits a' = bits a)"
proof (intro conjI)
  show "\<exists>a'. GetCount a = Some (int (card (bits a)), a') \<and> arr_ok a' \<and> bits a' = bits a"
    using GetCount_ok [OF assms] by (auto simp: ones_sorted)
  show "\<exists>a'. GetIndexBit i a = Some (if 0 \<le> i \<and> i < int (card (bits a))
        then int (sorted_list_of_set (bits a) ! nat i) else - 1, a') \<and> arr_ok a' \<and> bits a' = bits a"
    using GetIndexBit_ok [OF assms, of i] unfolding ones_sorted .
  show "\<exists>a'. GetBitIndex n a = Some (int (card {k \<in> bits a. k \<le> n}) - 1, a') \<and> arr_ok a' \<and> bits a' = bits a"
    using GetBitIndex_ok [OF assms, of n] unfolding rank_card .
qed

lemma bitarray_select_rank_witness:
  "\<exists>a. SetRange 3 9 (SFBitArray_ctor 0 False) = Some a \<and>
     (\<exists>a'. GetIndexBit 2 a = Some (5, a')) \<and> (\<exists>a'. GetBitIndex 5 a = Some (2, a'))"
proof -
  from range_example obtain a where a: "SetRange 3 9 (SFBitArray_ctor 0 False) = Some a" "arr_ok a" "bits a = {3..9}" "m_nLength a = 2" by blast
  have s: "sorted_list_of_set {3..9::nat} = [3, 4, 5, 6, 7, 8, 9]" by code_simp
  have c: "{k \<in> {3..9::nat}. k \<le> 5} = {3..5}" by auto
  note q = bitarray_select_rank [OF a(2), of 2 5, unfolded a(3) s c]
  have "\<exists>a'. GetIndexBit 2 a = Some (5, a')" "\<exists>a'. GetBitIndex 5 a = Some (2, a')" using q by auto
  then show ?thesis using a(1) by blast
qed

text \<open>C38: \<open>Delete\<close> removes the bits of a range and closes the gap: the bits below the range stay, those
  behind it move down by its length. An empty range and one behind the array change nothing. The start
  and the number of bits of the array together are an \<open>int\<close>, because the code computes \<open>nStart+nIndex\<close>.
\<close>

theorem bitarray_delete:
  assumes "arr_ok a" "s + 8 * m_nLength a \<le> INT_MAX"
  shows "yields_set (Delete s e a)
    (if s \<le> e then {n \<in> bits a. n < s} \<union> (\<lambda>n. n - (e + 1 - s)) ` {n \<in> bits a. e < n} else bits a)"
proof -
  have ok: "buf_ok a" using assms by (simp add: arr_ok_def)
  show ?thesis
  proof (cases "s \<le> e \<and> s < 8 * m_nLength a")
    case True
    then show ?thesis using Delete_ok [OF ok _ _ assms(2), of e] fresh_cache by (auto simp: yields_set_def arr_ok_def)
  next
    case False
    then have "Delete s e a = Some a" using ok by (auto simp: Delete_def)
    moreover have "bits a = {n \<in> bits a. n < s}" "{n \<in> bits a. e < n} = {}" if "s \<le> e"
      using that False bits_less [of _ a] by fastforce+
    ultimately show ?thesis using assms by (auto simp: yields_set_def)
  qed
qed

lemma bitarray_delete_witness: "\<exists>a. SetRange 3 9 (SFBitArray_ctor 0 False) = Some a \<and> yields_set (Delete 1 5 a) {1..4}"
proof -
  from range_example obtain a where a: "SetRange 3 9 (SFBitArray_ctor 0 False) = Some a" "arr_ok a" "bits a = {3..9}" "m_nLength a = 2" by blast
  have "(if 1 \<le> (5::nat) then {n \<in> {3..9}. n < 1} \<union> (\<lambda>n. n - (5 + 1 - 1)) ` {n \<in> {3..9}. 5 < n} else {3..9}) = {1..4::nat}"
    by code_simp
  then show ?thesis using a(1) bitarray_delete [OF a(2), of 1 5] unfolding a(3,4) by (simp add: small_int)
qed

text \<open>C39: \<open>Insert\<close> opens a gap of \<open>c\<close> bits behind bit \<open>s\<close> (not at it, as the header says): the bits up to
  \<open>s\<close> stay, the others move up, the gap has the value asked for. The array is not the
  \<open>c\<close> bits longer: the new number of bits is taken as its length in bytes. So the array grows eightfold
  with each call, and eight times the new length must still be an \<open>int\<close>.
\<close>

theorem bitarray_insert:
  assumes "arr_ok a" "0 < c" "8 * (max (8 * m_nLength a) s + c) \<le> INT_MAX"
  shows "\<exists>a'. Insert s c v a = Some a' \<and> arr_ok a' \<and> m_nLength a' = max (8 * m_nLength a) s + c \<and>
    bits a' = {n \<in> bits a. n \<le> s} \<union> (if v then {s<..s + c} else {}) \<union> (\<lambda>n. n + c) ` {n \<in> bits a. s < n}"
  using Insert_ok [OF _ assms(2,3), of v] assms(1) fresh_cache unfolding arr_ok_def by blast

lemma bitarray_insert_witness: "\<exists>a'. Insert 2 3 True (SFBitArray_ctor 0 False) = Some a' \<and> bits a' = {3..5} \<and> m_nLength a' = 5"
proof -
  have "{2<..5::nat} = {3..5}" by auto
  then show ?thesis using bitarray_insert [OF ctor_ok(1), of 3 0 2 True] by (auto simp: ctor_ok small_int)
qed



text \<open>The byte-wise range operations look at whole bytes at the ends of the range. \<open>IsRangeEmpty\<close> skips
  the last byte of a range that ends at a byte boundary and sees bits behind a range within one byte;
  \<open>GetRangeCount\<close> counts a range within one byte twice; \<open>CopyRange\<close> copies the rest of the first byte;
  and \<open>Bmp2Array\<close> into a vector never returns, because it uses the first element as the pointer.
\<close>

theorem bitarray_range_ends:
  "do { a \<leftarrow> SetAt 16 (SFBitArray_ctor 0 False); r \<leftarrow> IsRangeEmpty a 8 23; b \<leftarrow> SetAt 5 (SFBitArray_ctor 0 False);
        r' \<leftarrow> IsRangeEmpty b 0 2; Some (r, r') } = Some (True, False) \<and>
   do { a \<leftarrow> SetAt 9 (SFBitArray_ctor 0 False); GetRangeCount a 9 10 } = Some 2 \<and>
   do { a \<leftarrow> SetAt 7 (SFBitArray_ctor 0 False); c \<leftarrow> CopyRange a 1 2 (SFBitArray_ctor 0 False); GetAt c 7 } = Some True \<and>
   Bmp2Array_vector x = None"
  by (intro conjI) (code_simp, code_simp, code_simp, rule vector_never)

end
