(* ===== verification/StdMap.thy ===== *)
theory StdMap
  imports Main
begin

text \<open>
  The ordered maps of the C++ library (\<open>std::map\<close>) as association lists in ascending order of their
  keys: an iteration visits the pairs of the list, \<open>insert\<close> keeps the value of a key that is already
  there, \<open>erase\<close> removes a key. \<open>find\<close> is \<open>map_of\<close>.
\<close>

named_theorems smap_simps

fun smap_insert :: "'k :: linorder \<Rightarrow> 'v \<Rightarrow> ('k \<times> 'v) list \<Rightarrow> ('k \<times> 'v) list" where
  "smap_insert k v [] = [(k, v)]"
| "smap_insert k v ((k', v') # m) =
     (if k < k' then (k, v) # (k', v') # m else if k = k' then (k', v') # m else (k', v') # smap_insert k v m)"

definition smap_erase :: "'k \<Rightarrow> ('k \<times> 'v) list \<Rightarrow> ('k \<times> 'v) list" where
  "smap_erase k m = filter (\<lambda>kv. fst kv \<noteq> k) m"

definition smap_ok :: "('k :: linorder \<times> 'v) list \<Rightarrow> bool" where
  "smap_ok m \<longleftrightarrow> sorted_wrt (<) (map fst m)"

lemma smap_ok_nil [simp]: "smap_ok []"
  by (simp add: smap_ok_def)

lemma set_smap_insert: "set (smap_insert k v m) \<subseteq> insert (k, v) (set m)"
  by (induction m) (auto split: if_splits)

lemma keys_smap_insert: "fst ` set (smap_insert k v m) = insert k (fst ` set m)"
  by (induction m) force+

lemma smap_insert_not_nil [simp]: "smap_insert k v m \<noteq> []"
  by (cases m) (auto split: if_splits)

lemma smap_ok_insert [simp]: "smap_ok m \<Longrightarrow> smap_ok (smap_insert k v m)"
proof (induction m)
  case (Cons kv m)
  obtain k' v' where kv: "kv = (k', v')" by (cases kv)
  have "\<forall>x \<in> fst ` set (smap_insert k v m). k' < x" if "k' < k"
    using Cons.prems that kv unfolding keys_smap_insert by (auto simp: smap_ok_def)
  then show ?case using Cons kv by (auto simp: smap_ok_def)
qed (simp add: smap_ok_def)

lemma set_smap_insert_new: "k \<notin> fst ` set m \<Longrightarrow> set (smap_insert k v m) = insert (k, v) (set m)"
  by (induction m) (auto split: if_splits)

lemma smap_insert_old: "\<lbrakk>smap_ok m; k \<in> fst ` set m\<rbrakk> \<Longrightarrow> smap_insert k v m = m"
  by (induction m) (force simp: smap_ok_def)+

lemma set_smap_erase: "set (smap_erase k m) = {kv \<in> set m. fst kv \<noteq> k}"
  by (auto simp: smap_erase_def)

lemma keys_smap_erase: "fst ` set (smap_erase k m) = fst ` set m - {k}"
  by (auto simp: set_smap_erase)

lemma smap_erase_nil [simp]: "smap_erase k [] = []"
  by (simp add: smap_erase_def)

lemma smap_ok_erase [simp]: "smap_ok m \<Longrightarrow> smap_ok (smap_erase k m)"
  unfolding smap_ok_def smap_erase_def by (induction m) auto

lemma smap_ok_distinct: "smap_ok m \<Longrightarrow> distinct (map fst m)"
  by (simp add: smap_ok_def strict_sorted_iff)

lemma map_of_smap [simp]: "smap_ok m \<Longrightarrow> map_of m k = Some v \<longleftrightarrow> (k, v) \<in> set m"
  by (simp add: smap_ok_distinct)

lemma smap_key_unique: "\<lbrakk>smap_ok m; (k, v) \<in> set m; (k, v') \<in> set m\<rbrakk> \<Longrightarrow> v = v'"
  by (metis map_of_smap option.inject)

lemma smap_erase_absent: "k \<notin> fst ` set m \<Longrightarrow> smap_erase k m = m"
  by (auto simp: smap_erase_def intro!: filter_True)

lemma smap_eq: "\<lbrakk>smap_ok m; smap_ok n; set m = set n\<rbrakk> \<Longrightarrow> m = n"
proof -
  assume a: "smap_ok m" "smap_ok n" "set m = set n"
  have "inj_on fst (set m \<union> set n)"
    using a(3) smap_ok_distinct [OF a(1)] by (simp add: distinct_map)
  then show ?thesis
    using a by (intro map_sorted_distinct_set_unique [of fst]) (auto simp: smap_ok_def strict_sorted_iff)
qed

end
