(* ===== verification/GameState.thy ===== *)
theory GameState
  imports Prelude StdMap "HOL-Library.Monad_Syntax"
begin

text \<open>
  The state of the casual game logic (LogicLayer/CasualGame): player and room objects, the teams and
  observer lists of a room, the maps of the managers, and the packets that are sent. Players live in
  an object store and are named by their address, rooms by their index in \<open>m_RoomArray\<close>. A result
  \<open>None\<close> is an access through a null or uninitialised pointer or outside a buffer. Serials are
  non-negative. \<open>SFASSERT\<close> is \<open>assert\<close>, which a release build drops.
\<close>

section \<open>States and packets\<close>

datatype ePlayerState = PLAYER_NONE | PLAYER_INIT | PLAYER_LOGIN | PLAYER_LOBBY | PLAYER_ROOM
  | PLAYER_LOADING | PLAYER_PLAYREADY | PLAYER_PLAY | PLAYER_PLAYEND

datatype eRoomState = ROOM_NONE | ROOM_WAIT | ROOM_LOADING | ROOM_PLAYREADY | ROOM_PLAY | ROOM_PLAYEND

datatype eTeamType = TEAM_RED | TEAM_BLUE

record peer_info =
  LocalIP :: u32
  LocalPort :: u16
  ExternalIP :: u32
  ExternalPort :: u16

text \<open>What the logic reads of the packets of a client, after protobuf parsing.\<close>

datatype packet = PktLogin string string | PktEnterLobby | PktEnterRoom int int | PktCreateRoom int
  | PktLeaveRoom | PktChangeTeam | PktLoadingStart | PktLoadingComplete | PktChatReq string
  | PktPlayerIP "u8 list" | PktRoomListRefresh | PktOther nat

text \<open>Packets to the client of a serial.\<close>

datatype out = OutAuth | OutLoginSuccess | OutLoginFail int | OutEnterLobby
  | OutRoomList "(int \<times> string \<times> nat \<times> int) list" | OutCreateRoom int | OutEnterRoom int int
  | OutLeaveRoom | OutRoomMember "(nat \<times> string \<times> eTeamType) list" | OutEnterTeamMember nat string
  | OutLeaveTeamMember nat string | OutLoadingStart | OutCreatePlayer nat nat | OutDestroyPlayer nat
  | OutPeerList "(nat \<times> peer_info) list" | OutDeletePeer nat | OutPlayStart | OutPlayEnd
  | OutChat string string | OutDBLogin string string | OutOther nat

text \<open>Messages to the observers of a room.\<close>

datatype message = MsgEnterTeamMember nat string | MsgLeaveTeamMember nat string | MsgDestroyPlayer nat
  | MsgPeerList | MsgDeletePeer nat

text \<open>The virtual methods of a game mode.\<close>

datatype mode_call = ModeOnEnter int | ModeOnLeave | ModeUpdate nat | ModePacket nat packet | ModePlayScoreInfo nat

section \<open>Objects\<close>

record player =
  m_state :: ePlayerState
  m_username :: string
  m_password :: string
  m_serial :: nat
  m_roomIndex :: int
  m_teamType :: eTeamType
  m_bLoadingComplete :: bool
  m_spawnIndex :: nat
  m_isAlive :: bool
  m_info :: peer_info

record team =
  t_observers :: "nat list"
  t_members :: "(nat \<times> nat) list"

record room =
  r_state :: eRoomState
  r_observers :: "nat list"
  r_team :: "eTeamType \<Rightarrow> team"
  m_pRoomChief :: "nat option"
  m_GameMode :: int
  m_pCurrentGameMode :: "int option"
  r_members :: "(nat \<times> nat) list"
  r_peers :: "(nat \<times> peer_info) list"

record 'm world =
  players :: "nat \<Rightarrow> player"
  pool :: "nat list"
  fresh_player :: nat
  PlayerMap :: "(nat \<times> nat) list"
  names :: "string \<Rightarrow> nat option"
  lobby :: "(nat \<times> nat) list"
  rooms :: "room list"
  m_EmptyRoomMap :: "(nat \<times> nat) list"
  m_ActiveRoomMap :: "(nat \<times> nat) list"
  m_bP2PService :: bool
  game_modes :: "int list"
  mode_data :: 'm
  sent :: "(nat \<times> out) list"

text \<open>
  What the logic calls but does not define: the game modes, registered by the server program; the
  uninitialised members of a new player; the value \<open>rand()\<close> returns.
\<close>

record 'm env =
  run_mode :: "nat \<Rightarrow> int \<Rightarrow> mode_call \<Rightarrow> 'm world \<Rightarrow> (bool \<times> 'm world) option"
  new_player :: player
  rnd :: nat

definition MAX_ROOM_MEMBER :: nat where "MAX_ROOM_MEMBER = 4"
definition MAX_ROOM_COUNT :: nat where "MAX_ROOM_COUNT = 100"
definition MAX_ROOM_COUNT_PER_PAGE :: nat where "MAX_ROOM_COUNT_PER_PAGE = 10"
definition MAX_MESSAGE_BUFFER :: nat where "MAX_MESSAGE_BUFFER = 16384"

definition upd_player :: "nat \<Rightarrow> (player \<Rightarrow> player) \<Rightarrow> 'm world \<Rightarrow> 'm world" where
  "upd_player p f w = w\<lparr>players := (players w)(p := f (players w p))\<rparr>"

definition the_room :: "nat \<Rightarrow> 'm world \<Rightarrow> room" where
  "the_room r w = rooms w ! r"

definition upd_room :: "nat \<Rightarrow> (room \<Rightarrow> room) \<Rightarrow> 'm world \<Rightarrow> 'm world" where
  "upd_room r f w = w\<lparr>rooms := (rooms w)[r := f (rooms w ! r)]\<rparr>"

abbreviation serial_of :: "'m world \<Rightarrow> nat \<Rightarrow> nat" where
  "serial_of w p \<equiv> m_serial (players w p)"

text \<open>The functions of SFSendPacket: every packet goes to the client of the player's serial.\<close>

definition SendToClient :: "nat \<Rightarrow> out \<Rightarrow> 'm world \<Rightarrow> 'm world" where
  "SendToClient p o' w = w\<lparr>sent := sent w @ [(serial_of w p, o')]\<rparr>"

definition SendAuthPacket :: "nat \<Rightarrow> 'm world \<Rightarrow> 'm world" where
  [simp]: "SendAuthPacket p w = SendToClient p OutAuth w"

definition SendLoginResult :: "nat \<Rightarrow> int \<Rightarrow> 'm world \<Rightarrow> 'm world" where
  [simp]: "SendLoginResult p result w = SendToClient p (if result = 0 then OutLoginSuccess else OutLoginFail result) w"

definition SendPlayStart :: "nat \<Rightarrow> 'm world \<Rightarrow> 'm world" where
  [simp]: "SendPlayStart p w = SendToClient p OutPlayStart w"

definition SendPlayEnd :: "nat \<Rightarrow> 'm world \<Rightarrow> 'm world" where
  [simp]: "SendPlayEnd p w = SendToClient p OutPlayEnd w"

definition SendEnterLobby :: "nat \<Rightarrow> 'm world \<Rightarrow> 'm world" where
  [simp]: "SendEnterLobby p w = SendToClient p OutEnterLobby w"

definition SendCreateRoom :: "nat \<Rightarrow> int \<Rightarrow> 'm world \<Rightarrow> 'm world" where
  [simp]: "SendCreateRoom p mode w = SendToClient p (OutCreateRoom mode) w"

definition SendEnterRoom :: "nat \<Rightarrow> int \<Rightarrow> int \<Rightarrow> 'm world \<Rightarrow> 'm world" where
  [simp]: "SendEnterRoom p mode RoomIndex w = SendToClient p (OutEnterRoom mode RoomIndex) w"

definition SendLeaveRoom :: "nat \<Rightarrow> 'm world \<Rightarrow> 'm world" where
  [simp]: "SendLeaveRoom p w = SendToClient p OutLeaveRoom w"

definition SendEnterTeamMember :: "nat \<Rightarrow> nat \<Rightarrow> string \<Rightarrow> 'm world \<Rightarrow> 'm world" where
  [simp]: "SendEnterTeamMember p playerIndex name w = SendToClient p (OutEnterTeamMember playerIndex name) w"

definition SendLeaveTeamMember :: "nat \<Rightarrow> nat \<Rightarrow> string \<Rightarrow> 'm world \<Rightarrow> 'm world" where
  [simp]: "SendLeaveTeamMember p playerIndex name w = SendToClient p (OutLeaveTeamMember playerIndex name) w"

definition SendLoadingStart :: "nat \<Rightarrow> 'm world \<Rightarrow> 'm world" where
  [simp]: "SendLoadingStart p w = SendToClient p OutLoadingStart w"

definition SendDestroyPlayer :: "nat \<Rightarrow> nat \<Rightarrow> 'm world \<Rightarrow> 'm world" where
  [simp]: "SendDestroyPlayer p playerIndex w = SendToClient p (OutDestroyPlayer playerIndex) w"

definition SendDeletePeer :: "nat \<Rightarrow> nat \<Rightarrow> 'm world \<Rightarrow> 'm world" where
  [simp]: "SendDeletePeer p playerIndex w = SendToClient p (OutDeletePeer playerIndex) w"

text \<open>\<open>c_str()\<close>: the characters up to the first NUL.\<close>

definition c_str :: "string \<Rightarrow> string" where
  "c_str s = takeWhile (\<lambda>c. c \<noteq> CHR 0x00) s"

section \<open>Subjects and teams\<close>

definition AddObserver :: "nat \<Rightarrow> nat list \<Rightarrow> bool \<times> nat list" where
  "AddObserver p os = (if p \<in> set os then (False, os) else (True, os @ [p]))"

definition DelObserver :: "nat \<Rightarrow> nat list \<Rightarrow> nat list" where
  "DelObserver p os = remove1 p os"

definition AddMember :: "nat \<Rightarrow> nat \<Rightarrow> team \<Rightarrow> team" where
  "AddMember serial p t = t\<lparr>t_observers := snd (AddObserver p (t_observers t)), t_members := smap_insert serial p (t_members t)\<rparr>"

definition DelMember :: "nat \<Rightarrow> nat \<Rightarrow> team \<Rightarrow> team" where
  "DelMember serial p t = t\<lparr>t_observers := DelObserver p (t_observers t), t_members := smap_erase serial (t_members t)\<rparr>"

definition AddPeer :: "nat \<Rightarrow> peer_info \<Rightarrow> (nat \<times> peer_info) list \<Rightarrow> (nat \<times> peer_info) list" where
  "AddPeer serial info m = smap_insert serial info m"

definition DeletePeer :: "nat \<Rightarrow> (nat \<times> peer_info) list \<Rightarrow> (nat \<times> peer_info) list" where
  "DeletePeer serial m = smap_erase serial m"

definition ResetPeer :: "(nat \<times> peer_info) list \<Rightarrow> (nat \<times> peer_info) list" where
  "ResetPeer m = []"

section \<open>Player and lobby managers\<close>

definition AddPlayer :: "nat \<Rightarrow> 'm world \<Rightarrow> bool \<times> 'm world" where
  "AddPlayer p w = (case names w (m_username (players w p)) of
       None \<Rightarrow> (True, w\<lparr>names := (names w)(m_username (players w p) \<mapsto> p)\<rparr>)
     | Some _ \<Rightarrow> (False, w))"

definition DelPlayer :: "nat \<Rightarrow> 'm world \<Rightarrow> 'm world" where
  "DelPlayer p w = w\<lparr>names := (names w)(m_username (players w p) := None)\<rparr>"

definition lobby_OnEnter :: "nat \<Rightarrow> 'm world \<Rightarrow> 'm world" where
  "lobby_OnEnter p w = w\<lparr>lobby := smap_insert (serial_of w p) p (lobby w)\<rparr>"

text \<open>The loop of \<open>OnChat\<close> over the players of the lobby sends nothing, its send is commented out.\<close>

definition lobby_OnChat :: "nat \<Rightarrow> string \<Rightarrow> 'm world \<Rightarrow> 'm world" where
  [simp]: "lobby_OnChat p msg w = w"

definition lobby_OnLeave :: "nat \<Rightarrow> 'm world \<Rightarrow> 'm world" where
  "lobby_OnLeave p w = w\<lparr>lobby := smap_erase (serial_of w p) (lobby w)\<rparr>"

text \<open>Members without an initialiser, the state pointer of the machine among them, come from \<open>new_player\<close>.\<close>

definition SFPlayer_ctor :: "'m env \<Rightarrow> player" where
  "SFPlayer_ctor E = (new_player E)\<lparr>m_username := [], m_password := [], m_teamType := TEAM_RED, m_bLoadingComplete := False,
     m_isAlive := False, m_info := \<lparr>LocalIP = 0, LocalPort = 0, ExternalIP = 0, ExternalPort = 0\<rparr>\<rparr>"

definition pool_Alloc :: "'m env \<Rightarrow> 'm world \<Rightarrow> nat \<times> 'm world" where
  "pool_Alloc E w = (case pool w of
       [] \<Rightarrow> (fresh_player w, w\<lparr>players := (players w)(fresh_player w := SFPlayer_ctor E), fresh_player := fresh_player w + 1\<rparr>)
     | p # ps \<Rightarrow> (p, w\<lparr>pool := ps\<rparr>))"

definition pool_Release :: "nat \<Rightarrow> 'm world \<Rightarrow> 'm world" where
  "pool_Release p w = w\<lparr>pool := pool w @ [p]\<rparr>"

end
