(* ===== verification/GameRoom.thy ===== *)
theory GameRoom
  imports GameState
begin

text \<open>
  Rooms and the two state machines (LogicLayer/CasualGame: SFPlayerFSM and the player states, SFRoomFSM
  and the room states, SFRoom, SFRoomManager, SFGameModeFSM, SFSendPacket). The functions are in the
  order in which they call each other; \<open>E\<close> is the environment.
\<close>

section \<open>Messages to observers\<close>

definition GetRoom :: "int \<Rightarrow> 'm world \<Rightarrow> nat option" where
  "GetRoom RoomIndex w =
     (if RoomIndex < 0 \<or> RoomIndex \<ge> int MAX_ROOM_COUNT then None
      else if r_state (the_room (nat RoomIndex) w) = ROOM_NONE then None
      else Some (nat RoomIndex))"

definition SendPeerInfo :: "nat \<Rightarrow> nat \<Rightarrow> 'm world \<Rightarrow> 'm world" where
  "SendPeerInfo p r w =
     SendToClient p (OutPeerList (filter (\<lambda>(serial, _). serial \<noteq> serial_of w p) (r_peers (the_room r w)))) w"

text \<open>A message is a buffer of \<open>MAX_MESSAGE_BUFFER\<close> bytes: a serial takes four, a string its
  characters and a NUL.\<close>

definition name_message :: "(nat \<Rightarrow> string \<Rightarrow> message) \<Rightarrow> nat \<Rightarrow> 'm world \<Rightarrow> message option" where
  "name_message c p w =
     (let s = c_str (m_username (players w p))
      in if 4 + length s + 1 \<le> MAX_MESSAGE_BUFFER then Some (c (serial_of w p) s) else None)"

text \<open>The receiver reads a name into \<open>char szPlayerName[100]\<close>, with the length of the name, not of the
  array, as the bound of the copy.\<close>

definition player_OnMessage :: "message \<Rightarrow> nat \<Rightarrow> 'm world \<Rightarrow> 'm world option" where
  "player_OnMessage m p w = (case m of
       MsgEnterTeamMember s n \<Rightarrow> if length n + 1 \<le> 100 then Some (SendEnterTeamMember p s n w) else None
     | MsgLeaveTeamMember s n \<Rightarrow> if length n + 1 \<le> 100 then Some (SendLeaveTeamMember p s n w) else None
     | MsgDestroyPlayer s \<Rightarrow> Some (SendDestroyPlayer p s w)
     | MsgPeerList \<Rightarrow> do { r \<leftarrow> GetRoom (m_roomIndex (players w p)) w; Some (SendPeerInfo p r w) }
     | MsgDeletePeer s \<Rightarrow> Some (SendDeletePeer p s w))"

definition PropagateMessage :: "nat \<Rightarrow> message \<Rightarrow> 'm world \<Rightarrow> 'm world option" where
  "PropagateMessage r m w = for_each (player_OnMessage m) (r_observers (the_room r w)) w"

definition BroadCast :: "nat \<Rightarrow> out \<Rightarrow> 'm world \<Rightarrow> 'm world" where
  "BroadCast r o' w = fold (\<lambda>t w. fold (\<lambda>(_, p). SendToClient p o') (t_members (r_team (the_room r w) t)) w) [TEAM_RED, TEAM_BLUE] w"

definition SendRoomMember :: "nat \<Rightarrow> nat \<Rightarrow> 'm world \<Rightarrow> 'm world" where
  "SendRoomMember p r w =
     SendToClient p (OutRoomMember (map (\<lambda>(_, q). (serial_of w q, m_username (players w q), m_teamType (players w q)))
       (filter (\<lambda>(_, q). serial_of w p \<noteq> serial_of w q) (r_members (the_room r w))))) w"

definition SendCreatePlayer :: "nat \<Rightarrow> nat \<Rightarrow> bool \<Rightarrow> 'm world \<Rightarrow> 'm world" where
  "SendCreatePlayer p r exceptMe w =
     fold (\<lambda>(_, q) w. if exceptMe \<and> q = p then w
       else SendToClient p (OutCreatePlayer (serial_of w q) (m_spawnIndex (players w q))) w) (r_members (the_room r w)) w"

text \<open>The list is empty when there are more rooms than fit on a page.\<close>

fun room_infos :: "'m world \<Rightarrow> nat list \<Rightarrow> (int \<times> string \<times> nat \<times> int) list option" where
  "room_infos w [] = Some []"
| "room_infos w (r # rs) = do {
     chief \<leftarrow> m_pRoomChief (the_room r w);
     xs \<leftarrow> room_infos w rs;
     Some ((int r, m_username (players w chief), length (r_members (the_room r w)), m_GameMode (the_room r w)) # xs)
   }"

definition SendRoomPage :: "nat \<Rightarrow> 'm world \<Rightarrow> 'm world option" where
  "SendRoomPage p w = do {
     infos \<leftarrow> (if length (m_ActiveRoomMap w) \<le> MAX_ROOM_COUNT_PER_PAGE then room_infos w (map snd (m_ActiveRoomMap w)) else Some []);
     Some (SendToClient p (OutRoomList infos) w)
   }"

section \<open>Game modes\<close>

definition SetGameMode :: "nat \<Rightarrow> int \<Rightarrow> 'm world \<Rightarrow> bool \<times> 'm world" where
  "SetGameMode r mode w =
     (if mode \<in> set (game_modes w) then (True, upd_room r (\<lambda>x. x\<lparr>m_pCurrentGameMode := Some mode\<rparr>) w) else (False, w))"

definition mode_OnEnter :: "'m env \<Rightarrow> nat \<Rightarrow> int \<Rightarrow> 'm world \<Rightarrow> (bool \<times> 'm world) option" where
  "mode_OnEnter E r mode w =
     (if mode \<in> set (game_modes w)
      then do {
        (_, w') \<leftarrow> run_mode E r mode (ModeOnEnter mode) (upd_room r (\<lambda>x. x\<lparr>m_pCurrentGameMode := Some mode\<rparr>) w);
        Some (True, w')
      }
      else Some (False, w))"

text \<open>\<open>Onleave\<close> and the requests go through the pointer \<open>m_pCurrentGameMode\<close> without a test.\<close>

definition mode_request :: "'m env \<Rightarrow> nat \<Rightarrow> mode_call \<Rightarrow> 'm world \<Rightarrow> (bool \<times> 'm world) option" where
  "mode_request E r c w = do { mode \<leftarrow> m_pCurrentGameMode (the_room r w); run_mode E r mode c w }"

definition mode_Update :: "'m env \<Rightarrow> nat \<Rightarrow> nat \<Rightarrow> 'm world \<Rightarrow> (bool \<times> 'm world) option" where
  "mode_Update E r timerId w =
     (case m_pCurrentGameMode (the_room r w) of None \<Rightarrow> Some (False, w)
      | Some mode \<Rightarrow> run_mode E r mode (ModeUpdate timerId) w)"

text \<open>\<open>ProcessUserRequest(SFPlayer*, int)\<close> with \<open>PlayScoreInfo\<close>: only the play state overrides it.\<close>

definition room_PlayScoreInfo :: "'m env \<Rightarrow> nat \<Rightarrow> nat \<Rightarrow> 'm world \<Rightarrow> 'm world option" where
  "room_PlayScoreInfo E r p w =
     (if r_state (the_room r w) = ROOM_PLAY then do { (_, w') \<leftarrow> mode_request E r (ModePlayScoreInfo p) w; Some w' } else Some w)"

section \<open>The player state machine\<close>

definition SFPlayerLobby_OnEnter :: "nat \<Rightarrow> 'm world \<Rightarrow> 'm world option" where
  [simp]: "SFPlayerLobby_OnEnter p w = SendRoomPage p (lobby_OnEnter p (SendEnterLobby p w))"

definition SFPlayerLoading_OnEnter :: "nat \<Rightarrow> 'm world \<Rightarrow> 'm world" where
  [simp]: "SFPlayerLoading_OnEnter p w = SendLoadingStart p (upd_player p (\<lambda>x. x\<lparr>m_bLoadingComplete := False\<rparr>) w)"

definition SFPlayerPlayReady_OnEnter :: "nat \<Rightarrow> 'm world \<Rightarrow> 'm world" where
  [simp]: "SFPlayerPlayReady_OnEnter p w = upd_player p (\<lambda>x. x\<lparr>m_isAlive := True\<rparr>) w"

definition SFPlayerPlay_OnEnter :: "'m env \<Rightarrow> nat \<Rightarrow> 'm world \<Rightarrow> 'm world option" where
  [simp]: "SFPlayerPlay_OnEnter E p w = do {
     let w1 = SendPlayStart p w;
     r \<leftarrow> GetRoom (m_roomIndex (players w1 p)) w1;
     w2 \<leftarrow> room_PlayScoreInfo E r p w1;
     Some (SendCreatePlayer p r False w2)
   }"

text \<open>The entry actions of the states; those of the other states do nothing.\<close>

definition player_OnEnter :: "'m env \<Rightarrow> nat \<Rightarrow> ePlayerState \<Rightarrow> 'm world \<Rightarrow> 'm world option" where
  "player_OnEnter E p st w = (case st of
       PLAYER_LOBBY \<Rightarrow> SFPlayerLobby_OnEnter p w
     | PLAYER_LOADING \<Rightarrow> Some (SFPlayerLoading_OnEnter p w)
     | PLAYER_PLAYREADY \<Rightarrow> Some (SFPlayerPlayReady_OnEnter p w)
     | PLAYER_PLAY \<Rightarrow> SFPlayerPlay_OnEnter E p w
     | _ \<Rightarrow> Some w)"

definition SFPlayerLobby_OnLeave :: "nat \<Rightarrow> 'm world \<Rightarrow> 'm world" where
  [simp]: "SFPlayerLobby_OnLeave p w = lobby_OnLeave p w"

definition SFPlayerPlay_OnLeave :: "nat \<Rightarrow> 'm world \<Rightarrow> 'm world" where
  [simp]: "SFPlayerPlay_OnLeave p w = SendPlayEnd p w"

definition player_OnLeave :: "nat \<Rightarrow> ePlayerState \<Rightarrow> 'm world \<Rightarrow> 'm world" where
  "player_OnLeave p st w = (case st of
       PLAYER_LOBBY \<Rightarrow> SFPlayerLobby_OnLeave p w
     | PLAYER_PLAY \<Rightarrow> SFPlayerPlay_OnLeave p w
     | _ \<Rightarrow> w)"

definition player_ChangeState :: "'m env \<Rightarrow> nat \<Rightarrow> ePlayerState \<Rightarrow> 'm world \<Rightarrow> (bool \<times> 'm world) option" where
  "player_ChangeState E p st w =
     (let cur = m_state (players w p)
      in if cur = st then Some (False, w)
      else do {
        w' \<leftarrow> player_OnEnter E p st (upd_player p (\<lambda>x. x\<lparr>m_state := st\<rparr>) (player_OnLeave p cur w));
        Some (True, w')
      })"

definition move_player :: "'m env \<Rightarrow> ePlayerState \<Rightarrow> nat \<Rightarrow> 'm world \<Rightarrow> 'm world option" where
  "move_player E st p w = do { (_, w') \<leftarrow> player_ChangeState E p st w; Some w' }"

definition ChangePlayerFSM :: "'m env \<Rightarrow> nat \<Rightarrow> ePlayerState \<Rightarrow> 'm world \<Rightarrow> 'm world option" where
  "ChangePlayerFSM E r st w =
     for_each (\<lambda>t w. for_each (move_player E st) (map snd (t_members (r_team (the_room r w) t))) w) [TEAM_RED, TEAM_BLUE] w"

section \<open>The room state machine\<close>

definition SFRoomPlay_OnLeave :: "'m env \<Rightarrow> nat \<Rightarrow> 'm world \<Rightarrow> 'm world option" where
  [simp]: "SFRoomPlay_OnLeave E r w = do { (_, w1) \<leftarrow> mode_request E r ModeOnLeave w; ChangePlayerFSM E r PLAYER_PLAYEND w1 }"

definition room_state_OnLeave :: "'m env \<Rightarrow> nat \<Rightarrow> 'm world \<Rightarrow> 'm world option" where
  "room_state_OnLeave E r w = (if r_state (the_room r w) = ROOM_PLAY then SFRoomPlay_OnLeave E r w else Some w)"

definition SFRoomLoading_OnEnter :: "'m env \<Rightarrow> nat \<Rightarrow> 'm world \<Rightarrow> 'm world option" where
  [simp]: "SFRoomLoading_OnEnter E r w = ChangePlayerFSM E r PLAYER_LOADING w"

definition set_spawns :: "nat \<Rightarrow> 'm world \<Rightarrow> 'm world" where
  "set_spawns r w =
     fold (\<lambda>(i, _, p). upd_player p (\<lambda>x. x\<lparr>m_spawnIndex := i\<rparr>)) (zip [1..<Suc (length (r_members (the_room r w)))] (r_members (the_room r w))) w"

definition SFRoomPlayReady_OnEnter :: "'m env \<Rightarrow> nat \<Rightarrow> 'm world \<Rightarrow> 'm world option" where
  [simp]: "SFRoomPlayReady_OnEnter E r w = ChangePlayerFSM E r PLAYER_PLAYREADY (set_spawns r w)"

definition SFRoomPlay_OnEnter :: "'m env \<Rightarrow> nat \<Rightarrow> 'm world \<Rightarrow> 'm world option" where
  [simp]: "SFRoomPlay_OnEnter E r w = do {
     let mode = m_GameMode (the_room r w);
     w1 \<leftarrow> ChangePlayerFSM E r PLAYER_PLAY (snd (SetGameMode r mode w));
     (b, w2) \<leftarrow> mode_OnEnter E r mode w1;
     if b then PropagateMessage r MsgPeerList w2 else Some w2
   }"

text \<open>The entry and exit actions of the other room states do nothing.\<close>

definition room_state_OnEnter :: "'m env \<Rightarrow> nat \<Rightarrow> eRoomState \<Rightarrow> 'm world \<Rightarrow> 'm world option" where
  "room_state_OnEnter E r st w = (case st of
       ROOM_LOADING \<Rightarrow> SFRoomLoading_OnEnter E r w
     | ROOM_PLAYREADY \<Rightarrow> SFRoomPlayReady_OnEnter E r w
     | ROOM_PLAY \<Rightarrow> SFRoomPlay_OnEnter E r w
     | _ \<Rightarrow> Some w)"

definition room_ChangeState :: "'m env \<Rightarrow> nat \<Rightarrow> eRoomState \<Rightarrow> 'm world \<Rightarrow> (bool \<times> 'm world) option" where
  "room_ChangeState E r st w =
     (if r_state (the_room r w) = st then Some (False, w)
      else do {
        w1 \<leftarrow> room_state_OnLeave E r w;
        w2 \<leftarrow> room_state_OnEnter E r st (upd_room r (\<lambda>x. x\<lparr>r_state := st\<rparr>) w1);
        Some (True, w2)
      })"

section \<open>Rooms\<close>

definition set_member :: "nat \<Rightarrow> nat \<Rightarrow> eTeamType \<Rightarrow> 'm world \<Rightarrow> 'm world" where
  "set_member r p t w =
     upd_room r (\<lambda>x. x\<lparr>r_team := (r_team x)(t := AddMember (serial_of w p) p (r_team x t))\<rparr>)
       (upd_player p (\<lambda>x. x\<lparr>m_teamType := t\<rparr>) w)"

definition SelectMyTeam :: "nat \<Rightarrow> 'm world \<Rightarrow> eTeamType" where
  "SelectMyTeam r w =
     (if length (t_members (r_team (the_room r w) TEAM_RED)) > length (t_members (r_team (the_room r w) TEAM_BLUE))
      then TEAM_BLUE else TEAM_RED)"

definition AddTeamMember :: "nat \<Rightarrow> nat \<Rightarrow> 'm world \<Rightarrow> 'm world" where
  "AddTeamMember r p w = set_member r p (SelectMyTeam r w) w"

definition DelTeamMember :: "nat \<Rightarrow> nat \<Rightarrow> 'm world \<Rightarrow> 'm world" where
  "DelTeamMember r p w =
     (let t = m_teamType (players w p)
      in upd_room r (\<lambda>x. x\<lparr>r_team := (r_team x)(t := DelMember (serial_of w p) p (r_team x t))\<rparr>) w)"

definition room_Open :: "nat \<Rightarrow> nat \<Rightarrow> 'm world \<Rightarrow> 'm world" where
  "room_Open r p w =
     (let w1 = upd_room r (\<lambda>x. x\<lparr>r_observers := snd (AddObserver p (r_observers x)), m_pRoomChief := Some p\<rparr>) w;
          w2 = AddTeamMember r p w1
      in upd_room r (\<lambda>x. x\<lparr>r_members := smap_insert (serial_of w p) p (r_members x)\<rparr>) w2)"

definition room_OnEnter :: "nat \<Rightarrow> nat \<Rightarrow> 'm world \<Rightarrow> (bool \<times> 'm world) option" where
  "room_OnEnter r p w =
     (let (added, os) = AddObserver p (r_observers (the_room r w))
      in if MAX_ROOM_MEMBER \<le> length (r_observers (the_room r w)) then Some (False, w)
      else if \<not> added then Some (False, w)
      else do {
        let w1 = AddTeamMember r p (upd_room r (\<lambda>x. x\<lparr>r_observers := os\<rparr>) w);
        let w2 = upd_player p (\<lambda>x. x\<lparr>m_roomIndex := int r\<rparr>) w1;
        m \<leftarrow> name_message MsgEnterTeamMember p w2;
        w3 \<leftarrow> PropagateMessage r m w2;
        Some (True, upd_room r (\<lambda>x. x\<lparr>r_members := smap_insert (serial_of w p) p (r_members x)\<rparr>) w3)
      })"

definition RecallRoom :: "'m env \<Rightarrow> nat \<Rightarrow> 'm world \<Rightarrow> 'm world option" where
  "RecallRoom E r w = do {
     (_, w1) \<leftarrow> room_ChangeState E r ROOM_NONE w;
     Some (w1\<lparr>m_EmptyRoomMap := smap_insert r r (m_EmptyRoomMap w1), m_ActiveRoomMap := smap_erase r (m_ActiveRoomMap w1)\<rparr>)
   }"

definition room_OnLeave :: "'m env \<Rightarrow> nat \<Rightarrow> nat \<Rightarrow> 'm world \<Rightarrow> (bool \<times> 'm world) option" where
  "room_OnLeave E r p w = do {
     let w1 = upd_room r (\<lambda>x. x\<lparr>r_members := smap_erase (serial_of w p) (r_members x), r_observers := DelObserver p (r_observers x)\<rparr>) w;
     m \<leftarrow> name_message MsgLeaveTeamMember p w1;
     w2 \<leftarrow> PropagateMessage r m w1;
     let w3 = DelTeamMember r p w2;
     if r_observers (the_room r w3) = [] then do { w4 \<leftarrow> RecallRoom E r w3; Some (True, w4) }
     else do {
       chief \<leftarrow> m_pRoomChief (the_room r w3);
       if chief = p
       then (case r_members (the_room r w3) of
           [] \<Rightarrow> Some (False, w3)
         | (_, q) # _ \<Rightarrow> Some (True, upd_room r (\<lambda>x. x\<lparr>m_pRoomChief := Some q\<rparr>) w3))
       else Some (True, w3)
     }
   }"

definition ChangeTeam :: "nat \<Rightarrow> nat \<Rightarrow> 'm world \<Rightarrow> 'm world" where
  "ChangeTeam r p w =
     set_member r p (case m_teamType (players w p) of TEAM_RED \<Rightarrow> TEAM_BLUE | TEAM_BLUE \<Rightarrow> TEAM_RED) (DelTeamMember r p w)"

definition team_players :: "nat \<Rightarrow> 'm world \<Rightarrow> nat list" where
  "team_players r w = map snd (t_members (r_team (the_room r w) TEAM_RED)) @ map snd (t_members (r_team (the_room r w) TEAM_BLUE))"

definition CheckPlayerState :: "nat \<Rightarrow> ePlayerState \<Rightarrow> 'm world \<Rightarrow> bool" where
  "CheckPlayerState r st w \<longleftrightarrow> (\<forall>p \<in> set (team_players r w). m_state (players w p) = st)"

definition CheckLoadingComplete :: "nat \<Rightarrow> 'm world \<Rightarrow> bool" where
  "CheckLoadingComplete r w \<longleftrightarrow> (\<forall>p \<in> set (team_players r w). m_bLoadingComplete (players w p))"

end
