(* ===== verification/GameLogic.thy ===== *)
theory GameLogic
  imports GameRoom
begin

text \<open>
  The packet handlers of the room and player states, the room manager and the entry of the game logic
  (LogicLayer/CasualGame: SFRoomWait, SFRoomLoading, SFRoomPlayReady, SFRoomPlay, the player states,
  SFRoomManager, SFLogicEntry). \<open>SFDispatch::HandleMessage\<close> reports whether a handler is registered
  for the packet and drops what the handler returns, so the handlers return the new world only.
\<close>

section \<open>Waiting rooms\<close>

definition wait_OnEnterRoom :: "'m env \<Rightarrow> nat \<Rightarrow> nat \<Rightarrow> 'm world \<Rightarrow> 'm world option" where
  "wait_OnEnterRoom E r p w = do {
     (b, w1) \<leftarrow> room_OnEnter r p w;
     if b then move_player E PLAYER_ROOM p w1 else Some w1
   }"

definition wait_OnLeaveRoom :: "'m env \<Rightarrow> nat \<Rightarrow> nat \<Rightarrow> 'm world \<Rightarrow> 'm world option" where
  "wait_OnLeaveRoom E r p w = do {
     (b, w1) \<leftarrow> room_OnLeave E r p w;
     if b then do { w2 \<leftarrow> move_player E PLAYER_LOBBY p w1; Some (SendLeaveRoom p w2) } else Some w1
   }"

definition wait_OnLoadingStart :: "'m env \<Rightarrow> nat \<Rightarrow> nat \<Rightarrow> 'm world \<Rightarrow> 'm world option" where
  "wait_OnLoadingStart E r p w = do {
     chief \<leftarrow> m_pRoomChief (the_room r w);
     if p \<noteq> chief then Some w
     else if \<not> CheckPlayerState r PLAYER_ROOM w then Some w
     else do { (_, w') \<leftarrow> room_ChangeState E r ROOM_LOADING w; Some w' }
   }"

definition wait_OnChat :: "nat \<Rightarrow> nat \<Rightarrow> string \<Rightarrow> 'm world \<Rightarrow> 'm world" where
  "wait_OnChat r p msg w =
     fold (\<lambda>(_, q). SendToClient q (OutChat (m_username (players w p)) msg)) (r_members (the_room r w)) w"

text \<open>True only if the packet reached \<open>m_Dispatch\<close>.\<close>

definition wait_ProcessUserRequest :: "'m env \<Rightarrow> nat \<Rightarrow> nat \<Rightarrow> packet \<Rightarrow> 'm world \<Rightarrow> (bool \<times> 'm world) option" where
  "wait_ProcessUserRequest E r p pkt w = (case pkt of
       PktChangeTeam \<Rightarrow> Some (False, ChangeTeam r p w)
     | PktLoadingStart \<Rightarrow> do { w' \<leftarrow> wait_OnLoadingStart E r p w; Some (False, w') }
     | PktChatReq msg \<Rightarrow> Some (False, wait_OnChat r p msg w)
     | PktEnterRoom _ _ \<Rightarrow> do { w' \<leftarrow> wait_OnEnterRoom E r p w; Some (True, w') }
     | PktLeaveRoom \<Rightarrow> do { w' \<leftarrow> wait_OnLeaveRoom E r p w; Some (True, w') }
     | _ \<Rightarrow> Some (False, w))"

section \<open>Loading and playing rooms\<close>

definition loading_OnLoadingComplete :: "'m env \<Rightarrow> nat \<Rightarrow> nat \<Rightarrow> 'm world \<Rightarrow> 'm world option" where
  "loading_OnLoadingComplete E r p w = do {
     let w1 = upd_room r (\<lambda>x. x\<lparr>r_peers := AddPeer (serial_of w p) (m_info (players w p)) (r_peers x)\<rparr>) w;
     if \<not> CheckLoadingComplete r w1 then Some w1
     else do {
       (_, w2) \<leftarrow> room_ChangeState E r ROOM_PLAYREADY w1;
       (_, w3) \<leftarrow> room_ChangeState E r ROOM_PLAY w2;
       Some w3
     }
   }"

text \<open>\<open>OnLeaveRoom\<close> of the loading and of the play state are the same code.\<close>

definition game_OnLeaveRoom :: "'m env \<Rightarrow> nat \<Rightarrow> nat \<Rightarrow> 'm world \<Rightarrow> 'm world option" where
  "game_OnLeaveRoom E r p w = do {
     (b, w1) \<leftarrow> room_OnLeave E r p w;
     if b then do {
       w2 \<leftarrow> PropagateMessage r (MsgDestroyPlayer (serial_of w1 p)) w1;
       w3 \<leftarrow> PropagateMessage r (MsgDeletePeer (serial_of w2 p)) w2;
       let w4 = upd_room r (\<lambda>x. x\<lparr>r_peers := DeletePeer (serial_of w3 p) (r_peers x)\<rparr>) w3;
       w5 \<leftarrow> move_player E PLAYER_LOBBY p w4;
       Some (SendLeaveRoom p w5)
     }
     else Some w1
   }"

definition loading_ProcessUserRequest :: "'m env \<Rightarrow> nat \<Rightarrow> nat \<Rightarrow> packet \<Rightarrow> 'm world \<Rightarrow> (bool \<times> 'm world) option" where
  "loading_ProcessUserRequest E r p pkt w =
     (if pkt = PktLoadingComplete then do { w' \<leftarrow> loading_OnLoadingComplete E r p w; Some (True, w') } else Some (False, w))"

definition play_OnEnterRoom :: "'m env \<Rightarrow> nat \<Rightarrow> nat \<Rightarrow> 'm world \<Rightarrow> 'm world option" where
  "play_OnEnterRoom E r p w = do {
     (b, w1) \<leftarrow> room_OnEnter r p w;
     if b then move_player E PLAYER_LOADING p (upd_player p (\<lambda>x. x\<lparr>m_spawnIndex := rnd E mod MAX_ROOM_MEMBER + 1\<rparr>) w1)
     else Some w1
   }"

definition play_OnLoadingComplete :: "'m env \<Rightarrow> nat \<Rightarrow> nat \<Rightarrow> 'm world \<Rightarrow> 'm world option" where
  "play_OnLoadingComplete E r p w =
     move_player E PLAYER_PLAY p
       (fold (\<lambda>(_, q) w. if q = p then w else SendToClient q (OutCreatePlayer (serial_of w p) (m_spawnIndex (players w p))) w)
         (r_members (the_room r w)) w)"

definition play_ProcessUserRequest :: "'m env \<Rightarrow> nat \<Rightarrow> nat \<Rightarrow> packet \<Rightarrow> 'm world \<Rightarrow> (bool \<times> 'm world) option" where
  "play_ProcessUserRequest E r p pkt w = (case pkt of
       PktLoadingComplete \<Rightarrow> do { w' \<leftarrow> play_OnLoadingComplete E r p w; Some (True, w') }
     | PktEnterRoom _ _ \<Rightarrow> do { w' \<leftarrow> play_OnEnterRoom E r p w; Some (True, w') }
     | PktLeaveRoom \<Rightarrow> do { w' \<leftarrow> game_OnLeaveRoom E r p w; Some (True, w') }
     | _ \<Rightarrow> mode_request E r (ModePacket p pkt) w)"

definition room_ProcessUserRequest :: "'m env \<Rightarrow> nat \<Rightarrow> nat \<Rightarrow> packet \<Rightarrow> 'm world \<Rightarrow> (bool \<times> 'm world) option" where
  "room_ProcessUserRequest E r p pkt w = (case r_state (the_room r w) of
       ROOM_WAIT \<Rightarrow> wait_ProcessUserRequest E r p pkt w
     | ROOM_LOADING \<Rightarrow> loading_ProcessUserRequest E r p pkt w
     | ROOM_PLAYREADY \<Rightarrow> Some (True, w)
     | ROOM_PLAY \<Rightarrow> play_ProcessUserRequest E r p pkt w
     | _ \<Rightarrow> Some (False, w))"

text \<open>\<open>SFRoomFSM::OnLeaveRoom\<close>, called when a client disconnects.\<close>

definition room_OnLeaveRoom :: "'m env \<Rightarrow> nat \<Rightarrow> nat \<Rightarrow> 'm world \<Rightarrow> 'm world option" where
  "room_OnLeaveRoom E r p w = (case r_state (the_room r w) of
       ROOM_WAIT \<Rightarrow> wait_OnLeaveRoom E r p w
     | ROOM_LOADING \<Rightarrow> game_OnLeaveRoom E r p w
     | ROOM_PLAY \<Rightarrow> game_OnLeaveRoom E r p w
     | _ \<Rightarrow> Some w)"

section \<open>The room manager\<close>

definition GetEmptyRoom :: "'m world \<Rightarrow> nat option \<times> 'm world" where
  "GetEmptyRoom w = (case m_EmptyRoomMap w of [] \<Rightarrow> (None, w) | (_, r) # m \<Rightarrow> (Some r, w\<lparr>m_EmptyRoomMap := m\<rparr>))"

definition OnCreateRoom :: "'m env \<Rightarrow> nat \<Rightarrow> int \<Rightarrow> 'm world \<Rightarrow> (bool \<times> 'm world) option" where
  "OnCreateRoom E p mode w = (case GetEmptyRoom w of
       (None, w1) \<Rightarrow> Some (False, w1)
     | (Some r, w1) \<Rightarrow> do {
         (_, w2) \<leftarrow> room_ChangeState E r ROOM_WAIT (room_Open r p w1);
         let w3 = upd_room r (\<lambda>x. x\<lparr>m_GameMode := mode\<rparr>) (upd_player p (\<lambda>x. x\<lparr>m_roomIndex := int r\<rparr>) w2);
         Some (True, w3\<lparr>m_ActiveRoomMap := smap_insert r r (m_ActiveRoomMap w3)\<rparr>)
       })"

definition GetWaitRoom :: "'m world \<Rightarrow> nat option" where
  "GetWaitRoom w = find (\<lambda>r. r_state (the_room r w) = ROOM_WAIT) [0..<MAX_ROOM_COUNT]"

definition room_Update :: "'m env \<Rightarrow> nat \<Rightarrow> nat \<Rightarrow> 'm world \<Rightarrow> 'm world option" where
  "room_Update E timerId r w =
     (if r_state (the_room r w) = ROOM_PLAY then do { (_, w') \<leftarrow> mode_Update E r timerId w; Some w' } else Some w)"

definition RoomManager_Update :: "'m env \<Rightarrow> nat \<Rightarrow> 'm world \<Rightarrow> 'm world option" where
  "RoomManager_Update E timerId w = for_each (room_Update E timerId) (map snd (m_ActiveRoomMap w)) w"

section \<open>Packets of a player\<close>

definition peer_missing :: "nat \<Rightarrow> 'm world \<Rightarrow> bool" where
  "peer_missing p w \<longleftrightarrow> m_bP2PService w \<and> ExternalIP (m_info (players w p)) = 0"

definition lobby_OnEnterRoom :: "'m env \<Rightarrow> nat \<Rightarrow> int \<Rightarrow> int \<Rightarrow> 'm world \<Rightarrow> 'm world option" where
  "lobby_OnEnterRoom E p RoomIndex gamemode w =
     (if peer_missing p w then Some w
      else case GetRoom RoomIndex w of
        None \<Rightarrow> Some w
      | Some r \<Rightarrow> do {
          (b, w1) \<leftarrow> room_ProcessUserRequest E r p (PktEnterRoom RoomIndex gamemode) w;
          Some (if b then SendRoomMember p r (SendEnterRoom p gamemode RoomIndex w1) else w1)
        })"

definition lobby_OnCreateRoom :: "'m env \<Rightarrow> nat \<Rightarrow> int \<Rightarrow> 'm world \<Rightarrow> 'm world option" where
  "lobby_OnCreateRoom E p mode w =
     (if peer_missing p w then Some w
      else do {
        (b, w1) \<leftarrow> OnCreateRoom E p mode w;
        if b then do { w2 \<leftarrow> move_player E PLAYER_ROOM p w1; Some (SendCreateRoom p mode w2) } else Some w1
      })"

text \<open>\<open>sizeof(PlayerIPMsg)\<close> is 20 (two header words, then the packed fields); so many bytes are copied
  out of the string of the packet, whose terminator counts too.\<close>

definition lobby_OnPlayerIP :: "nat \<Rightarrow> u8 list \<Rightarrow> 'm world \<Rightarrow> 'm world option" where
  "lobby_OnPlayerIP p bytes w =
     (let b = bytes @ [0]
      in if length b < 20 then None
      else Some (upd_player p (\<lambda>x. x\<lparr>m_info := \<lparr>LocalIP = un_le32 (mem_read 8 4 b), LocalPort = un_le16 (mem_read 12 2 b),
        ExternalIP = un_le32 (mem_read 14 4 b), ExternalPort = un_le16 (mem_read 18 2 b)\<rparr>\<rparr>) w))"

definition lobby_OnChatReq :: "nat \<Rightarrow> string \<Rightarrow> 'm world \<Rightarrow> 'm world" where
  [simp]: "lobby_OnChatReq p msg w = lobby_OnChat p msg w"

definition lobby_OnRoomListRefresh :: "nat \<Rightarrow> 'm world \<Rightarrow> 'm world option" where
  [simp]: "lobby_OnRoomListRefresh p w = SendRoomPage p w"

text \<open>The packets that have a handler are those the constructor registers.\<close>

definition lobby_ProcessPacket :: "'m env \<Rightarrow> nat \<Rightarrow> packet \<Rightarrow> 'm world \<Rightarrow> 'm world option" where
  "lobby_ProcessPacket E p pkt w = (case pkt of
       PktEnterRoom RoomIndex gamemode \<Rightarrow> lobby_OnEnterRoom E p RoomIndex gamemode w
     | PktCreateRoom mode \<Rightarrow> lobby_OnCreateRoom E p mode w
     | PktChatReq msg \<Rightarrow> Some (lobby_OnChatReq p msg w)
     | PktPlayerIP bytes \<Rightarrow> lobby_OnPlayerIP p bytes w
     | PktRoomListRefresh \<Rightarrow> lobby_OnRoomListRefresh p w
     | _ \<Rightarrow> Some w)"

text \<open>The two strings go into the message to the database. \<open>SendDBRequest\<close> is the database layer's.\<close>

definition init_OnLogin :: "nat \<Rightarrow> string \<Rightarrow> string \<Rightarrow> 'm world \<Rightarrow> 'm world option" where
  "init_OnLogin p username password w =
     (if length (c_str username) + 1 + length (c_str password) + 1 \<le> MAX_MESSAGE_BUFFER
      then Some (SendToClient p (OutDBLogin (c_str username) (c_str password))
        (upd_player p (\<lambda>x. x\<lparr>m_username := username, m_password := password\<rparr>) w))
      else None)"

definition is_room_packet :: "packet \<Rightarrow> bool" where
  "is_room_packet pkt = (case pkt of PktChangeTeam \<Rightarrow> True | PktLeaveRoom \<Rightarrow> True | PktLoadingStart \<Rightarrow> True
     | PktChatReq _ \<Rightarrow> True | _ \<Rightarrow> False)"

definition room_ProcessPacket :: "'m env \<Rightarrow> nat \<Rightarrow> packet \<Rightarrow> 'm world \<Rightarrow> 'm world option" where
  "room_ProcessPacket E p pkt w = (case GetRoom (m_roomIndex (players w p)) w of
       None \<Rightarrow> Some w
     | Some r \<Rightarrow>
         if is_room_packet pkt
         then do { (_, w') \<leftarrow> room_ProcessUserRequest E r p pkt w; Some w' } else Some w)"

definition loading_ProcessPacket :: "'m env \<Rightarrow> nat \<Rightarrow> packet \<Rightarrow> 'm world \<Rightarrow> 'm world option" where
  "loading_ProcessPacket E p pkt w =
     (if pkt = PktLoadingComplete
      then do {
        r \<leftarrow> GetRoom (m_roomIndex (players w p)) w;
        (_, w') \<leftarrow> room_ProcessUserRequest E r p pkt (upd_player p (\<lambda>x. x\<lparr>m_bLoadingComplete := True\<rparr>) w);
        Some w'
      }
      else Some w)"

definition play_ProcessPacket :: "'m env \<Rightarrow> nat \<Rightarrow> packet \<Rightarrow> 'm world \<Rightarrow> 'm world option" where
  "play_ProcessPacket E p pkt w = do {
     r \<leftarrow> GetRoom (m_roomIndex (players w p)) w;
     (_, w') \<leftarrow> room_ProcessUserRequest E r p pkt w;
     Some w'
   }"

definition init_ProcessPacket :: "nat \<Rightarrow> packet \<Rightarrow> 'm world \<Rightarrow> 'm world option" where
  [simp]: "init_ProcessPacket p pkt w = (case pkt of PktLogin u pw \<Rightarrow> init_OnLogin p u pw w | _ \<Rightarrow> Some w)"

definition login_OnEnterLobby :: "'m env \<Rightarrow> nat \<Rightarrow> 'm world \<Rightarrow> 'm world option" where
  [simp]: "login_OnEnterLobby E p w = move_player E PLAYER_LOBBY p w"

definition login_ProcessPacket :: "'m env \<Rightarrow> nat \<Rightarrow> packet \<Rightarrow> 'm world \<Rightarrow> 'm world option" where
  [simp]: "login_ProcessPacket E p pkt w = (if pkt = PktEnterLobby then login_OnEnterLobby E p w else Some w)"

definition player_ProcessPacket :: "'m env \<Rightarrow> nat \<Rightarrow> packet \<Rightarrow> 'm world \<Rightarrow> 'm world option" where
  "player_ProcessPacket E p pkt w = (case m_state (players w p) of
       PLAYER_INIT \<Rightarrow> init_ProcessPacket p pkt w
     | PLAYER_LOGIN \<Rightarrow> login_ProcessPacket E p pkt w
     | PLAYER_LOBBY \<Rightarrow> lobby_ProcessPacket E p pkt w
     | PLAYER_ROOM \<Rightarrow> room_ProcessPacket E p pkt w
     | PLAYER_LOADING \<Rightarrow> loading_ProcessPacket E p pkt w
     | PLAYER_PLAY \<Rightarrow> play_ProcessPacket E p pkt w
     | _ \<Rightarrow> Some w)"

section \<open>The entry of the logic\<close>

definition OnConnectPlayer :: "'m env \<Rightarrow> nat \<Rightarrow> 'm world \<Rightarrow> 'm world option" where
  "OnConnectPlayer E serial w = do {
     let (p, w1) = pool_Alloc E w;
     let w2 = upd_player p (\<lambda>x. x\<lparr>m_state := PLAYER_NONE, m_bLoadingComplete := False, m_teamType := TEAM_RED, m_serial := serial\<rparr>) w1;
     w3 \<leftarrow> move_player E PLAYER_INIT p w2;
     Some (SendAuthPacket p (w3\<lparr>PlayerMap := smap_insert serial p (PlayerMap w3)\<rparr>))
   }"

definition OnDisconnectPlayer :: "'m env \<Rightarrow> nat \<Rightarrow> 'm world \<Rightarrow> 'm world option" where
  "OnDisconnectPlayer E serial w = (case map_of (PlayerMap w) serial of
       None \<Rightarrow> Some w
     | Some p \<Rightarrow> do {
         let w1 = DelPlayer p w;
         w2 \<leftarrow> (if m_state (players w1 p) \<in> {PLAYER_LOADING, PLAYER_ROOM, PLAYER_PLAY, PLAYER_PLAYEND, PLAYER_PLAYREADY}
           then do { r \<leftarrow> GetRoom (m_roomIndex (players w1 p)) w1; room_OnLeaveRoom E r p w1 } else Some w1);
         w3 \<leftarrow> move_player E PLAYER_NONE p w2;
         let w4 = pool_Release p w3;
         Some (w4\<lparr>PlayerMap := smap_erase serial (PlayerMap w4)\<rparr>)
       })"

definition OnPlayerData :: "'m env \<Rightarrow> nat \<Rightarrow> packet \<Rightarrow> 'm world \<Rightarrow> 'm world option" where
  "OnPlayerData E serial pkt w = (case map_of (PlayerMap w) serial of
       None \<Rightarrow> Some w
     | Some p \<Rightarrow> player_ProcessPacket E p pkt w)"

definition OnDBLogin :: "'m env \<Rightarrow> nat \<Rightarrow> int \<Rightarrow> 'm world \<Rightarrow> 'm world option" where
  "OnDBLogin E p result w =
     (if result = 0
      then case AddPlayer p w of
        (True, w1) \<Rightarrow> do { w2 \<leftarrow> move_player E PLAYER_LOGIN p w1; Some (SendLoginResult p 0 w2) }
      | (False, w1) \<Rightarrow> Some (SendLoginResult p (- 1) w1)
      else Some (SendLoginResult p result w))"

text \<open>The only result the database reports to the logic is that of a login. Only the initial state handles it.\<close>

definition ProcessDBResult :: "'m env \<Rightarrow> nat \<Rightarrow> int \<Rightarrow> 'm world \<Rightarrow> 'm world option" where
  [simp]: "ProcessDBResult E p result w = (if m_state (players w p) = PLAYER_INIT then OnDBLogin E p result w else Some w)"

definition OnDBResult :: "'m env \<Rightarrow> nat \<Rightarrow> int \<Rightarrow> 'm world \<Rightarrow> 'm world option" where
  "OnDBResult E serial result w = (case map_of (PlayerMap w) serial of
       None \<Rightarrow> Some w
     | Some p \<Rightarrow> ProcessDBResult E p result w)"

definition OnTimer :: "'m env \<Rightarrow> nat \<Rightarrow> 'm world \<Rightarrow> 'm world option" where
  [simp]: "OnTimer E timerId w = RoomManager_Update E timerId w"

datatype event = EvConnect nat | EvData nat packet | EvTimer nat | EvDisconnect nat | EvDB nat int

definition ProcessPacket :: "'m env \<Rightarrow> event \<Rightarrow> 'm world \<Rightarrow> 'm world option" where
  "ProcessPacket E ev w = (case ev of
       EvConnect serial \<Rightarrow> OnConnectPlayer E serial w
     | EvData serial pkt \<Rightarrow> OnPlayerData E serial pkt w
     | EvTimer timerId \<Rightarrow> OnTimer E timerId w
     | EvDisconnect serial \<Rightarrow> OnDisconnectPlayer E serial w
     | EvDB serial result \<Rightarrow> OnDBResult E serial result w)"

section \<open>The initial world\<close>

definition empty_room :: room where
  "empty_room = \<lparr>r_state = ROOM_NONE, r_observers = [], r_team = (\<lambda>_. \<lparr>t_observers = [], t_members = []\<rparr>),
     m_pRoomChief = None, m_GameMode = - 1, m_pCurrentGameMode = None, r_members = [], r_peers = []\<rparr>"

definition init_world :: "'m env \<Rightarrow> bool \<Rightarrow> int list \<Rightarrow> 'm \<Rightarrow> 'm world" where
  "init_world E p2p modes d = \<lparr>players = (\<lambda>_. SFPlayer_ctor E), pool = [0..<1000], fresh_player = 1000,
     PlayerMap = [], names = (\<lambda>_. None), lobby = [], rooms = replicate MAX_ROOM_COUNT empty_room,
     m_EmptyRoomMap = map (\<lambda>i. (i, i)) [0..<MAX_ROOM_COUNT], m_ActiveRoomMap = [], m_bP2PService = p2p,
     game_modes = modes, mode_data = d, sent = []\<rparr>"

end
