(* ===== verification/GameCore.thy ===== *)
theory GameCore
  imports GameLogic
begin

text \<open>
  The part of the world that decides what the logic does: states, serials, rooms and teams of the
  players and the maps of the managers. Sending packets, the data of the game modes, spawn positions
  and network addresses leave it alone. The operations of the state machines act on this core as the
  pure functions below; a game mode is required to keep the core.
\<close>

record core =
  c_state :: "nat \<Rightarrow> ePlayerState"
  c_serial :: "nat \<Rightarrow> nat"
  c_index :: "nat \<Rightarrow> int"
  c_team :: "nat \<Rightarrow> eTeamType"
  c_load :: "nat \<Rightarrow> bool"
  c_name :: "nat \<Rightarrow> string"
  c_map :: "(nat \<times> nat) list"
  c_lobby :: "(nat \<times> nat) list"
  c_rooms :: "room list"
  c_empty :: "(nat \<times> nat) list"
  c_active :: "(nat \<times> nat) list"
  c_modes :: "int list"
  c_pool :: "nat list"
  c_fresh :: nat

definition core :: "'m world \<Rightarrow> core" where
  "core w = \<lparr>c_state = (\<lambda>p. m_state (players w p)), c_serial = (\<lambda>p. m_serial (players w p)),
     c_index = (\<lambda>p. m_roomIndex (players w p)), c_team = (\<lambda>p. m_teamType (players w p)),
     c_load = (\<lambda>p. m_bLoadingComplete (players w p)), c_name = (\<lambda>p. m_username (players w p)),
     c_map = PlayerMap w, c_lobby = lobby w, c_rooms = rooms w, c_empty = m_EmptyRoomMap w,
     c_active = m_ActiveRoomMap w, c_modes = game_modes w, c_pool = pool w, c_fresh = fresh_player w\<rparr>"

text \<open>Every call of a registered game mode returns and keeps the core.\<close>

definition mode_frame :: "'m env \<Rightarrow> bool" where
  "mode_frame E \<longleftrightarrow> (\<forall>r mode c w. mode \<in> set (game_modes w) \<longrightarrow> (\<exists>b w'. run_mode E r mode c w = Some (b, w') \<and> core w' = core w))"

named_theorems core_simps

lemma core_reads:
  "m_state (players w p) = c_state (core w) p" "m_serial (players w p) = c_serial (core w) p"
  "m_roomIndex (players w p) = c_index (core w) p" "m_teamType (players w p) = c_team (core w) p"
  "m_bLoadingComplete (players w p) = c_load (core w) p" "m_username (players w p) = c_name (core w) p"
  "PlayerMap w = c_map (core w)" "lobby w = c_lobby (core w)" "the_room r w = c_rooms (core w) ! r"
  "m_EmptyRoomMap w = c_empty (core w)" "m_ActiveRoomMap w = c_active (core w)" "game_modes w = c_modes (core w)"
  "pool w = c_pool (core w)" "fresh_player w = c_fresh (core w)"
  by (simp_all add: core_def the_room_def)

lemma core_updates [core_simps]:
  "core (SendToClient p o' w) = core w"
  "core (upd_player p (\<lambda>x. x\<lparr>m_state := st\<rparr>) w) = (core w)\<lparr>c_state := (c_state (core w))(p := st)\<rparr>"
  "core (upd_player p (\<lambda>x. x\<lparr>m_roomIndex := i\<rparr>) w) = (core w)\<lparr>c_index := (c_index (core w))(p := i)\<rparr>"
  "core (upd_player p (\<lambda>x. x\<lparr>m_teamType := t\<rparr>) w) = (core w)\<lparr>c_team := (c_team (core w))(p := t)\<rparr>"
  "core (upd_player p (\<lambda>x. x\<lparr>m_bLoadingComplete := b\<rparr>) w) = (core w)\<lparr>c_load := (c_load (core w))(p := b)\<rparr>"
  "core (upd_player p (\<lambda>x. x\<lparr>m_isAlive := b\<rparr>) w) = core w"
  "core (upd_player p (\<lambda>x. x\<lparr>m_spawnIndex := n\<rparr>) w) = core w"
  "core (upd_player p (\<lambda>x. x\<lparr>m_info := i'\<rparr>) w) = core w"
  "core (upd_player p (\<lambda>x. x\<lparr>m_username := u, m_password := v\<rparr>) w) = (core w)\<lparr>c_name := (c_name (core w))(p := u)\<rparr>"
  "core (upd_room r f w) = (core w)\<lparr>c_rooms := (c_rooms (core w))[r := f (c_rooms (core w) ! r)]\<rparr>"
  "core (lobby_OnEnter p w) = (core w)\<lparr>c_lobby := smap_insert (c_serial (core w) p) p (c_lobby (core w))\<rparr>"
  "core (lobby_OnLeave p w) = (core w)\<lparr>c_lobby := smap_erase (c_serial (core w) p) (c_lobby (core w))\<rparr>"
  by (auto simp: core_def SendToClient_def upd_player_def upd_room_def lobby_OnEnter_def lobby_OnLeave_def fun_eq_iff)

lemma core_maps [core_simps]:
  "core (w\<lparr>PlayerMap := m\<rparr>) = (core w)\<lparr>c_map := m\<rparr>" "core (w\<lparr>m_EmptyRoomMap := e\<rparr>) = (core w)\<lparr>c_empty := e\<rparr>"
  "core (w\<lparr>m_ActiveRoomMap := a\<rparr>) = (core w)\<lparr>c_active := a\<rparr>" "core (w\<lparr>pool := ps\<rparr>) = (core w)\<lparr>c_pool := ps\<rparr>"
  "core (w\<lparr>names := ns\<rparr>) = core w"
  by (simp_all add: core_def)

text \<open>Two chains of updates of a core, or of one of its rooms, are equal field by field.\<close>

lemma list_update_eq: "x = y \<Longrightarrow> xs[i := x] = xs[i := y]"
  by simp

lemmas field_wise = core.equality room.equality list_update_eq

lemma core_fold: "(\<And>x w. core (f x w) = core w) \<Longrightarrow> core (fold f xs w) = core w"
  by (induction xs arbitrary: w) auto

lemma core_sends [core_simps]:
  "core (SendPeerInfo p r w) = core w" "core (SendRoomMember p r w) = core w" "core (SendCreatePlayer p r b w) = core w"
  "core (wait_OnChat r p msg w) = core w" "core (set_spawns r w) = core w"
  unfolding SendPeerInfo_def SendRoomMember_def SendCreatePlayer_def wait_OnChat_def set_spawns_def
  by (auto simp: core_simps split: prod.split intro!: core_fold)

text \<open>Loops whose steps act on the core as a function.\<close>

lemma for_each_core:
  assumes "\<And>x w. \<lbrakk>x \<in> set xs; P (core w)\<rbrakk> \<Longrightarrow> \<exists>w'. f x w = Some w' \<and> core w' = g x (core w)"
    and "\<And>x c. P c \<Longrightarrow> P (g x c)"
  shows "P (core w) \<Longrightarrow> \<exists>w'. for_each f xs w = Some w' \<and> core w' = fold g xs (core w)"
  using assms(1)
proof (induction xs arbitrary: w)
  case (Cons x xs)
  obtain w1 where w1: "f x w = Some w1" "core w1 = g x (core w)" using Cons.prems by force
  moreover have "P (core w1)" using w1(2) assms(2) Cons.prems(1) by simp
  ultimately show ?case using Cons.IH [of w1] Cons.prems(2) by (auto simp: w1(2))
qed simp

section \<open>Messages\<close>

definition short_names :: "core \<Rightarrow> bool" where
  "short_names c \<longleftrightarrow> (\<forall>p. length (c_str (c_name c p)) < 100)"

definition c_room :: "int \<Rightarrow> core \<Rightarrow> nat option" where
  "c_room i c = (if i < 0 \<or> int MAX_ROOM_COUNT \<le> i \<or> r_state (c_rooms c ! nat i) = ROOM_NONE then None else Some (nat i))"

lemma GetRoom_core: "GetRoom i w = c_room i (core w)"
  by (simp add: GetRoom_def c_room_def core_reads)

lemma name_message_ok: "short_names (core w) \<Longrightarrow> name_message c p w = Some (c (c_serial (core w) p) (c_str (c_name (core w) p)))"
proof -
  assume "short_names (core w)"
  then have "length (c_str (c_name (core w) p)) < 100" by (simp add: short_names_def)
  then show ?thesis by (simp add: name_message_def core_reads MAX_MESSAGE_BUFFER_def)
qed

fun message_ok :: "message \<Rightarrow> core \<Rightarrow> nat \<Rightarrow> bool" where
  "message_ok (MsgEnterTeamMember s n) c p = (length n < 100)"
| "message_ok (MsgLeaveTeamMember s n) c p = (length n < 100)"
| "message_ok MsgPeerList c p = (c_room (c_index c p) c \<noteq> None)"
| "message_ok _ c p = True"

lemma PropagateMessage_ok:
  assumes "\<forall>p \<in> set (r_observers (c_rooms (core w) ! r)). message_ok m (core w) p"
  shows "\<exists>w'. PropagateMessage r m w = Some w' \<and> core w' = core w"
proof -
  have one: "\<exists>w'. player_OnMessage m p v = Some w' \<and> core w' = core v" if "message_ok m (core v) p" for p and v :: "'a world"
    using that by (cases m) (auto simp: player_OnMessage_def core_simps GetRoom_core core_reads)
  have "\<exists>w'. for_each (player_OnMessage m) (r_observers (c_rooms (core w) ! r)) w = Some w' \<and>
      core w' = fold (\<lambda>_ c. c) (r_observers (c_rooms (core w) ! r)) (core w)"
  proof (rule for_each_core [where P = "\<lambda>c. c = core w"])
    fix x and v :: "'a world" assume "x \<in> set (r_observers (c_rooms (core w) ! r))" "core v = core w"
    then show "\<exists>w'. player_OnMessage m x v = Some w' \<and> core w' = core v" using one [of v x] assms by simp
  qed simp_all
  moreover have "fold (\<lambda>_ c. c) ps (core w) = core w" for ps :: "nat list" by (induction ps) auto
  ultimately show ?thesis by (simp add: PropagateMessage_def core_reads)
qed

section \<open>The player state machine\<close>

definition c_move :: "ePlayerState \<Rightarrow> nat \<Rightarrow> core \<Rightarrow> core" where
  "c_move st p c =
     (if c_state c p = st then c
      else c\<lparr>c_state := (c_state c)(p := st),
             c_load := (if st = PLAYER_LOADING then (c_load c)(p := False) else c_load c),
             c_lobby := (if st = PLAYER_LOBBY then smap_insert (c_serial c p) p (c_lobby c)
               else if c_state c p = PLAYER_LOBBY then smap_erase (c_serial c p) (c_lobby c) else c_lobby c)\<rparr>)"

definition chiefs_ok :: "core \<Rightarrow> bool" where
  "chiefs_ok c \<longleftrightarrow> (\<forall>r \<in> snd ` set (c_active c). m_pRoomChief (c_rooms c ! r) \<noteq> None)"

definition playable :: "nat \<Rightarrow> core \<Rightarrow> bool" where
  "playable r c \<longleftrightarrow> (r_state (c_rooms c ! r) = ROOM_PLAY \<longrightarrow>
     (\<exists>m \<in> set (c_modes c). m_pCurrentGameMode (c_rooms c ! r) = Some m))"

definition c_move_ok :: "ePlayerState \<Rightarrow> nat \<Rightarrow> core \<Rightarrow> bool" where
  "c_move_ok st p c \<longleftrightarrow> (st = PLAYER_LOBBY \<longrightarrow> chiefs_ok c) \<and>
     (st = PLAYER_PLAY \<longrightarrow> (\<exists>r. c_room (c_index c p) c = Some r \<and> playable r c))"

lemma c_move_simps [simp]:
  "c_serial (c_move st p c) = c_serial c" "c_index (c_move st p c) = c_index c" "c_team (c_move st p c) = c_team c"
  "c_name (c_move st p c) = c_name c" "c_map (c_move st p c) = c_map c" "c_rooms (c_move st p c) = c_rooms c"
  "c_empty (c_move st p c) = c_empty c" "c_active (c_move st p c) = c_active c" "c_modes (c_move st p c) = c_modes c"
  "c_pool (c_move st p c) = c_pool c" "c_fresh (c_move st p c) = c_fresh c"
  "c_state (c_move st p c) = (c_state c)(p := st)"
  by (auto simp: c_move_def)

lemma c_move_ok_move [simp]: "c_move_ok st' q (c_move st p c) = c_move_ok st' q c"
  by (simp add: c_move_ok_def chiefs_ok_def playable_def c_room_def)

lemma room_infos_ok: "\<forall>r \<in> set rs. m_pRoomChief (c_rooms (core w) ! r) \<noteq> None \<Longrightarrow> \<exists>xs. room_infos w rs = Some xs"
  by (induction rs) (auto simp: core_reads)

lemma SendRoomPage_ok: "chiefs_ok (core w) \<Longrightarrow> \<exists>w'. SendRoomPage p w = Some w' \<and> core w' = core w"
proof -
  assume "chiefs_ok (core w)"
  then have "\<exists>xs. room_infos w (map snd (c_active (core w))) = Some xs" by (intro room_infos_ok) (auto simp: chiefs_ok_def)
  then show ?thesis by (auto simp: SendRoomPage_def core_simps core_reads)
qed

lemma mode_request_ok:
  assumes "mode_frame E" "\<exists>m \<in> set (c_modes (core w)). m_pCurrentGameMode (c_rooms (core w) ! r) = Some m"
  shows "\<exists>b w'. mode_request E r c w = Some (b, w') \<and> core w' = core w"
proof -
  obtain m where m: "m \<in> set (game_modes w)" "m_pCurrentGameMode (c_rooms (core w) ! r) = Some m"
    using assms(2) by (auto simp: core_reads)
  from assms(1) m(1) obtain b w' where "run_mode E r m c w = Some (b, w')" "core w' = core w" unfolding mode_frame_def by blast
  then show ?thesis using m(2) by (simp add: mode_request_def core_reads)
qed

lemma move_player_ok:
  assumes "mode_frame E" "c_move_ok st p (core w)"
  shows "\<exists>w'. move_player E st p w = Some w' \<and> core w' = c_move st p (core w)"
proof (cases "c_state (core w) p = st")
  case True
  then show ?thesis by (simp add: move_player_def player_ChangeState_def core_reads c_move_def)
next
  case False
  define v where "v = upd_player p (\<lambda>x. x\<lparr>m_state := st\<rparr>) (player_OnLeave p (m_state (players w p)) w)"
  have v: "core v = (core w)\<lparr>c_state := (c_state (core w))(p := st),
      c_lobby := (if c_state (core w) p = PLAYER_LOBBY then smap_erase (c_serial (core w) p) (c_lobby (core w)) else c_lobby (core w))\<rparr>"
    by (cases "c_state (core w) p") (simp_all add: v_def player_OnLeave_def core_simps core_reads)
  have "\<exists>w'. player_OnEnter E p st v = Some w' \<and> core w' = c_move st p (core w)"
  proof (cases "st = PLAYER_LOBBY")
    case True
    have "chiefs_ok (core (lobby_OnEnter p (SendToClient p OutEnterLobby v)))"
      using assms(2) True by (simp add: core_simps v c_move_ok_def chiefs_ok_def)
    from SendRoomPage_ok [OF this, of p] show ?thesis using True False by (auto simp: player_OnEnter_def core_simps v c_move_def)
  next
    case nl: False
    show ?thesis
    proof (cases "st = PLAYER_PLAY")
      case True
      let ?v = "SendToClient p OutPlayStart v"
      obtain r where r: "c_room (c_index (core w) p) (core w) = Some r" "playable r (core w)"
        using assms(2) True by (auto simp: c_move_ok_def)
      have g: "GetRoom (m_roomIndex (players ?v p)) ?v = Some r" using r(1) by (simp add: GetRoom_core core_reads core_simps v c_room_def)
      have "\<exists>w'. room_PlayScoreInfo E r p ?v = Some w' \<and> core w' = core ?v"
      proof (cases "r_state (c_rooms (core w) ! r) = ROOM_PLAY")
        case True
        have "\<exists>m \<in> set (c_modes (core ?v)). m_pCurrentGameMode (c_rooms (core ?v) ! r) = Some m"
          using r(2) True by (simp add: playable_def core_simps v)
        from mode_request_ok [OF assms(1) this, of "ModePlayScoreInfo p"] show ?thesis
          by (auto simp: room_PlayScoreInfo_def)
      next
        case False
        then show ?thesis by (simp add: room_PlayScoreInfo_def core_reads core_simps v)
      qed
      then show ?thesis using g False nl True by (auto simp: player_OnEnter_def core_simps v c_move_def)
    next
      case False
      then show ?thesis using \<open>c_state (core w) p \<noteq> st\<close> nl by (cases st) (simp_all add: player_OnEnter_def core_simps v c_move_def)
    qed
  qed
  then show ?thesis using False by (auto simp: move_player_def player_ChangeState_def core_reads(1) Let_def v_def)
qed

text \<open>Moving the players of a room, of whom none is in the lobby.\<close>

definition c_room_players :: "nat \<Rightarrow> core \<Rightarrow> nat list" where
  "c_room_players r c = map snd (t_members (r_team (c_rooms c ! r) TEAM_RED)) @ map snd (t_members (r_team (c_rooms c ! r) TEAM_BLUE))"

lemma fold_move_frame:
  "c_rooms (fold (c_move st) ps c) = c_rooms c"
  by (induction ps arbitrary: c) auto

lemma ChangePlayerFSM_ok:
  assumes "mode_frame E" "\<forall>p \<in> set (c_room_players r (core w)). c_move_ok st p (core w)"
  shows "\<exists>w'. ChangePlayerFSM E r st w = Some w' \<and> core w' = fold (c_move st) (c_room_players r (core w)) (core w)"
proof -
  let ?ps = "\<lambda>t c. map snd (t_members (r_team (c_rooms c ! r) t))"
  have step: "\<exists>w'. for_each (move_player E st) ps v = Some w' \<and> core w' = fold (c_move st) ps (core v)"
    if "\<forall>p \<in> set ps. c_move_ok st p (core v)" for ps and v :: "'a world"
  proof (rule for_each_core [where P = "\<lambda>c. \<forall>p \<in> set ps. c_move_ok st p c"])
    fix x and u :: "'a world" assume "x \<in> set ps" "\<forall>p \<in> set ps. c_move_ok st p (core u)"
    then show "\<exists>w'. move_player E st x u = Some w' \<and> core w' = c_move st x (core u)" using move_player_ok [OF assms(1)] by blast
  qed (use that in simp_all)
  obtain w1 where w1: "for_each (move_player E st) (?ps TEAM_RED (core w)) w = Some w1"
    "core w1 = fold (c_move st) (?ps TEAM_RED (core w)) (core w)"
    using step [of "?ps TEAM_RED (core w)" w] assms(2) by (auto simp: c_room_players_def)
  have ok: "c_move_ok st p (fold (c_move st) qs c) = c_move_ok st p c" for p qs c by (induction qs arbitrary: c) auto
  have "\<forall>p \<in> set (?ps TEAM_BLUE (core w1)). c_move_ok st p (core w1)"
    using assms(2) by (auto simp: w1(2) ok fold_move_frame c_room_players_def)
  from step [OF this] obtain w2 where w2: "for_each (move_player E st) (?ps TEAM_BLUE (core w1)) w1 = Some w2"
    "core w2 = fold (c_move st) (?ps TEAM_BLUE (core w1)) (core w1)" by blast
  show ?thesis using w1 w2 by (simp add: ChangePlayerFSM_def core_reads c_room_players_def fold_move_frame)
qed

lemma fold_move:
  assumes "\<forall>p \<in> set ps. c_state c p \<noteq> PLAYER_LOBBY" "st \<noteq> PLAYER_LOBBY" "st = PLAYER_LOADING \<longrightarrow> (\<forall>p \<in> set ps. c_state c p \<noteq> PLAYER_LOADING)"
    "distinct ps"
  shows "fold (c_move st) ps c = c\<lparr>c_state := (\<lambda>q. if q \<in> set ps then st else c_state c q),
    c_load := (\<lambda>q. if st = PLAYER_LOADING \<and> q \<in> set ps then False else c_load c q)\<rparr>"
  using assms
proof (induction ps arbitrary: c)
  case Nil
  then show ?case by simp
next
  case (Cons p ps)
  let ?c = "c\<lparr>c_state := (c_state c)(p := st), c_load := (if st = PLAYER_LOADING then (c_load c)(p := False) else c_load c)\<rparr>"
  have c: "c_move st p c = ?c" using Cons.prems by (cases "c_state c p = st") (simp_all add: c_move_def fun_upd_idem)
  have "fold (c_move st) ps ?c = ?c\<lparr>c_state := (\<lambda>q. if q \<in> set ps then st else c_state ?c q),
      c_load := (\<lambda>q. if st = PLAYER_LOADING \<and> q \<in> set ps then False else c_load ?c q)\<rparr>"
    using Cons.prems by (intro Cons.IH) auto
  moreover have "(\<lambda>q. if q \<in> set ps then st else c_state ?c q) = (\<lambda>q. if q \<in> set (p # ps) then st else c_state c q)"
    "(\<lambda>q. if st = PLAYER_LOADING \<and> q \<in> set ps then False else c_load ?c q) =
     (\<lambda>q. if st = PLAYER_LOADING \<and> q \<in> set (p # ps) then False else c_load c q)" by auto
  ultimately show ?case by (simp add: c)
qed

end
