(* ===== verification/GameInv.thy ===== *)
theory GameInv
  imports GameCore
begin

text \<open>
  The invariant of the game logic, on the core of the world: the seats of a room (member map,
  observer list and the two teams agree), its phase (the state of the room allows the states of its
  members), the lists of free and active rooms, and the people (connected players, lobby and pool).
\<close>

section \<open>The invariant\<close>

definition pids :: "room \<Rightarrow> nat set" where
  "pids x = snd ` set (r_members x)"

fun allowed :: "eRoomState \<Rightarrow> ePlayerState set" where
  "allowed ROOM_WAIT = {PLAYER_ROOM}"
| "allowed ROOM_LOADING = {PLAYER_LOADING}"
| "allowed ROOM_PLAY = {PLAYER_LOADING, PLAYER_PLAY}"
| "allowed _ = {}"

definition team_ok :: "core \<Rightarrow> room \<Rightarrow> eTeamType \<Rightarrow> bool" where
  "team_ok c x t \<longleftrightarrow> smap_ok (t_members (r_team x t)) \<and>
     set (t_members (r_team x t)) = {sp \<in> set (r_members x). c_team c (snd sp) = t} \<and>
     distinct (t_observers (r_team x t)) \<and> set (t_observers (r_team x t)) = snd ` set (t_members (r_team x t))"

definition seats_ok :: "core \<Rightarrow> nat \<Rightarrow> room \<Rightarrow> bool" where
  "seats_ok c r x \<longleftrightarrow> smap_ok (r_members x) \<and> (\<forall>sp \<in> set (r_members x). c_serial c (snd sp) = fst sp) \<and>
     distinct (r_observers x) \<and> set (r_observers x) = pids x \<and> length (r_observers x) \<le> MAX_ROOM_MEMBER \<and>
     (\<forall>t. team_ok c x t) \<and> (\<forall>p \<in> pids x. c_index c p = int r)"

definition phase_ok :: "core \<Rightarrow> room \<Rightarrow> bool" where
  "phase_ok c x \<longleftrightarrow> r_state x \<in> {ROOM_NONE, ROOM_WAIT, ROOM_LOADING, ROOM_PLAY} \<and>
     (r_state x = ROOM_NONE \<longleftrightarrow> r_members x = []) \<and> (\<forall>p \<in> pids x. c_state c p \<in> allowed (r_state x)) \<and>
     (r_members x \<noteq> [] \<longrightarrow> (\<exists>q \<in> pids x. m_pRoomChief x = Some q) \<and> m_GameMode x \<in> set (c_modes c)) \<and>
     smap_ok (r_peers x) \<and> fst ` set (r_peers x) \<subseteq> fst ` set (r_members x) \<and> (r_state x = ROOM_WAIT \<longrightarrow> r_peers x = []) \<and>
     (r_state x = ROOM_PLAY \<longrightarrow> (\<exists>m \<in> set (c_modes c). m_pCurrentGameMode x = Some m))"

definition lists_ok :: "core \<Rightarrow> bool" where
  "lists_ok c \<longleftrightarrow> smap_ok (c_empty c) \<and> smap_ok (c_active c) \<and>
     set (c_empty c) = {(r, r) | r. r < MAX_ROOM_COUNT \<and> r_state (c_rooms c ! r) = ROOM_NONE} \<and>
     set (c_active c) = {(r, r) | r. r < MAX_ROOM_COUNT \<and> r_state (c_rooms c ! r) \<noteq> ROOM_NONE}"

definition lobby_ok :: "core \<Rightarrow> bool" where
  "lobby_ok c \<longleftrightarrow> smap_ok (c_lobby c) \<and> set (c_lobby c) = {sp \<in> set (c_map c). c_state c (snd sp) = PLAYER_LOBBY}"

abbreviation connected :: "core \<Rightarrow> nat set" where
  "connected c \<equiv> snd ` set (c_map c)"

definition outside :: "ePlayerState set" where
  "outside = {PLAYER_INIT, PLAYER_LOGIN, PLAYER_LOBBY}"

definition people_ok :: "core \<Rightarrow> bool" where
  "people_ok c \<longleftrightarrow> smap_ok (c_map c) \<and> (\<forall>sp \<in> set (c_map c). c_serial c (snd sp) = fst sp) \<and>
     distinct (c_pool c) \<and> set (c_pool c) \<inter> connected c = {} \<and> (\<forall>p \<in> set (c_pool c) \<union> connected c. p < c_fresh c) \<and>
     (\<forall>r < MAX_ROOM_COUNT. pids (c_rooms c ! r) \<subseteq> connected c) \<and>
     (\<forall>p \<in> connected c. c_state c p \<in> outside \<or> (\<exists>r < MAX_ROOM_COUNT. p \<in> pids (c_rooms c ! r)))"

definition inv :: "core \<Rightarrow> bool" where
  "inv c \<longleftrightarrow> length (c_rooms c) = MAX_ROOM_COUNT \<and>
     (\<forall>r < MAX_ROOM_COUNT. seats_ok c r (c_rooms c ! r) \<and> phase_ok c (c_rooms c ! r)) \<and>
     lists_ok c \<and> lobby_ok c \<and> people_ok c \<and> short_names c"

section \<open>Consequences\<close>

lemma inv_room: "\<lbrakk>inv c; r < MAX_ROOM_COUNT\<rbrakk> \<Longrightarrow> seats_ok c r (c_rooms c ! r) \<and> phase_ok c (c_rooms c ! r)"
  by (simp add: inv_def)

lemma inv_parts: "inv c \<Longrightarrow> lists_ok c" "inv c \<Longrightarrow> lobby_ok c" "inv c \<Longrightarrow> people_ok c" "inv c \<Longrightarrow> short_names c"
  "inv c \<Longrightarrow> length (c_rooms c) = MAX_ROOM_COUNT"
  by (simp_all add: inv_def)

lemma inv_chiefs: "inv c \<Longrightarrow> chiefs_ok c"
proof -
  assume i: "inv c"
  show ?thesis unfolding chiefs_ok_def
  proof
    fix r assume "r \<in> snd ` set (c_active c)"
    then have r: "r < MAX_ROOM_COUNT" "r_state (c_rooms c ! r) \<noteq> ROOM_NONE" using inv_parts(1) [OF i] by (auto simp: lists_ok_def)
    then show "m_pRoomChief (c_rooms c ! r) \<noteq> None" using inv_room [OF i r(1)] by (auto simp: phase_ok_def)
  qed
qed

lemma inv_in_room:
  assumes "inv c" "r < MAX_ROOM_COUNT" "p \<in> pids (c_rooms c ! r)"
  shows "c_index c p = int r" "c_state c p \<in> allowed (r_state (c_rooms c ! r))" "p \<in> connected c"
    "c_room (c_index c p) c = Some r" "c_state c p \<notin> outside" "playable r c"
proof -
  have i: "c_index c p = int r" "c_state c p \<in> allowed (r_state (c_rooms c ! r))" "r_state (c_rooms c ! r) \<noteq> ROOM_NONE"
    using inv_room [OF assms(1,2)] assms(3) by (auto simp: seats_ok_def phase_ok_def pids_def)
  then show "c_index c p = int r" "c_state c p \<in> allowed (r_state (c_rooms c ! r))" by simp_all
  show "p \<in> connected c" using inv_parts(3) [OF assms(1)] assms(2,3) by (auto simp: people_ok_def)
  show "c_room (c_index c p) c = Some r" using i assms(2) by (simp add: c_room_def)
  show "c_state c p \<notin> outside" using i(2) by (cases "r_state (c_rooms c ! r)") (auto simp: outside_def)
  show "playable r c" using inv_room [OF assms(1,2)] by (auto simp: phase_ok_def playable_def)
qed

lemma inv_one_room:
  assumes "inv c" "r < MAX_ROOM_COUNT" "r' < MAX_ROOM_COUNT" "p \<in> pids (c_rooms c ! r)" "p \<in> pids (c_rooms c ! r')"
  shows "r = r'"
  using inv_in_room(1) [OF assms(1,2,4)] inv_in_room(1) [OF assms(1,3,5)] by simp

lemma inv_playing:
  assumes "inv c" "p \<in> connected c" "c_state c p \<notin> outside"
  obtains r where "r < MAX_ROOM_COUNT" "p \<in> pids (c_rooms c ! r)"
  using assms inv_parts(3) [OF assms(1)] by (auto simp: people_ok_def)

section \<open>Frames\<close>

lemma seats_cong:
  assumes "\<forall>p \<in> pids x. c_serial c' p = c_serial c p \<and> c_team c' p = c_team c p \<and> c_index c' p = c_index c p"
  shows "seats_ok c' r x = seats_ok c r x"
proof -
  have m: "\<forall>sp \<in> set (r_members x). c_serial c' (snd sp) = c_serial c (snd sp) \<and> c_team c' (snd sp) = c_team c (snd sp)"
    using assms by (auto simp: pids_def)
  have "{sp \<in> set (r_members x). c_team c' (snd sp) = t} = {sp \<in> set (r_members x). c_team c (snd sp) = t}" for t
    using m by auto
  then have "team_ok c' x = team_ok c x" by (intro ext) (simp add: team_ok_def)
  moreover have "(\<forall>sp \<in> set (r_members x). c_serial c' (snd sp) = fst sp) = (\<forall>sp \<in> set (r_members x). c_serial c (snd sp) = fst sp)"
    using m by auto
  moreover have "(\<forall>p \<in> pids x. c_index c' p = int r) = (\<forall>p \<in> pids x. c_index c p = int r)" using assms by auto
  ultimately show ?thesis unfolding seats_ok_def by (simp only:)
qed

lemma phase_cong:
  assumes "\<forall>p \<in> pids x. c_state c' p = c_state c p" "c_modes c' = c_modes c"
  shows "phase_ok c' x = phase_ok c x"
  using assms by (auto simp: phase_ok_def)

text \<open>A step that changes room \<open>r\<close> and players \<open>P\<close> that sit in no other room.\<close>

lemma inv_room_change:
  assumes i: "inv c" and r: "r < MAX_ROOM_COUNT" and rooms: "c_rooms c' = (c_rooms c)[r := x]"
    and same: "c_map c' = c_map c" "c_serial c' = c_serial c" "c_modes c' = c_modes c" "c_pool c' = c_pool c" "c_fresh c' = c_fresh c"
    and rest: "\<forall>q. q \<notin> P \<longrightarrow> c_state c' q = c_state c q \<and> c_team c' q = c_team c q \<and> c_index c' q = c_index c q"
    and sep: "\<forall>r' < MAX_ROOM_COUNT. r' \<noteq> r \<longrightarrow> P \<inter> pids (c_rooms c ! r') = {}"
    and new: "seats_ok c' r x" "phase_ok c' x" "pids x \<subseteq> connected c"
    and cover: "\<forall>q \<in> connected c. q \<in> P \<union> pids (c_rooms c ! r) \<longrightarrow> c_state c' q \<in> outside \<or> q \<in> pids x"
    and parts: "lists_ok c'" "lobby_ok c'" "short_names c'"
  shows "inv c'"
proof -
  have len: "length (c_rooms c) = MAX_ROOM_COUNT" by (rule inv_parts(5) [OF i])
  have nth: "c_rooms c' ! r' = (if r' = r then x else c_rooms c ! r')" if "r' < MAX_ROOM_COUNT" for r'
    using that len rooms by simp
  have others: "seats_ok c' r' (c_rooms c ! r') \<and> phase_ok c' (c_rooms c ! r')" if r': "r' < MAX_ROOM_COUNT" "r' \<noteq> r" for r'
  proof -
    have "\<forall>p \<in> pids (c_rooms c ! r'). p \<notin> P" using sep r' by blast
    then have "seats_ok c' r' (c_rooms c ! r') = seats_ok c r' (c_rooms c ! r')" "phase_ok c' (c_rooms c ! r') = phase_ok c (c_rooms c ! r')"
      using rest same by (intro seats_cong phase_cong; simp)+
    then show ?thesis using inv_room [OF i r'(1)] by simp
  qed
  have room: "seats_ok c' r' (c_rooms c' ! r') \<and> phase_ok c' (c_rooms c' ! r')" if r': "r' < MAX_ROOM_COUNT" for r'
    using others [OF r'] new nth [OF r'] by (cases "r' = r") simp_all
  note p = inv_parts(3) [OF i, unfolded people_ok_def]
  have "\<forall>r' < MAX_ROOM_COUNT. pids (c_rooms c' ! r') \<subseteq> connected c" using p new(3) nth by simp
  moreover have "c_state c' q \<in> outside \<or> (\<exists>r' < MAX_ROOM_COUNT. q \<in> pids (c_rooms c' ! r'))" if q: "q \<in> connected c" for q
  proof (cases "q \<in> P \<union> pids (c_rooms c ! r)")
    case True
    then show ?thesis using cover q r nth [OF r] by auto
  next
    case False
    then have st: "c_state c' q = c_state c q" using rest by simp
    show ?thesis
    proof (cases "c_state c q \<in> outside")
      case False
      then obtain r' where r': "r' < MAX_ROOM_COUNT" "q \<in> pids (c_rooms c ! r')" using inv_playing [OF i q] by blast
      then have "r' \<noteq> r" using \<open>q \<notin> P \<union> pids (c_rooms c ! r)\<close> by auto
      then show ?thesis using r' nth [OF r'(1)] by auto
    qed (simp add: st)
  qed
  ultimately have "people_ok c'" using p unfolding people_ok_def same by simp
  then show ?thesis using room parts len rooms by (simp add: inv_def)
qed

lemma lists_ok_same:
  assumes "lists_ok c" "c_empty c' = c_empty c" "c_active c' = c_active c"
    "\<forall>r < MAX_ROOM_COUNT. r_state (c_rooms c' ! r) = ROOM_NONE \<longleftrightarrow> r_state (c_rooms c ! r) = ROOM_NONE"
  shows "lists_ok c'"
  using assms by (auto simp: lists_ok_def)

lemma lobby_ok_same:
  assumes "lobby_ok c" "c_lobby c' = c_lobby c" "c_map c' = c_map c"
    "\<forall>p \<in> connected c. c_state c' p = PLAYER_LOBBY \<longleftrightarrow> c_state c p = PLAYER_LOBBY"
  shows "lobby_ok c'"
  using assms by (auto simp: lobby_ok_def)

text \<open>The lobby follows the state of the player that moves.\<close>

lemma lobby_ok_move:
  assumes i: "people_ok c" "lobby_ok c" and p: "p \<in> connected c"
  shows "lobby_ok (c_move st p c)"
proof -
  obtain s where s: "(s, p) \<in> set (c_map c)" using p by auto
  then have ser: "c_serial c p = s" using i(1) by (auto simp: people_ok_def)
  have key: "sp = (s, p)" if "sp \<in> set (c_map c)" "fst sp = s" for sp
    using smap_key_unique [of "c_map c" s "snd sp" p] i(1) s that by (cases sp) (simp add: people_ok_def)
  have uniq: "sp = (s, p)" if "sp \<in> set (c_map c)" "snd sp = p" for sp
  proof -
    have "fst sp = s" using that i(1) ser by (auto simp: people_ok_def)
    then show ?thesis using key that by simp
  qed
  have l: "smap_ok (c_lobby c)" "set (c_lobby c) = {sp \<in> set (c_map c). c_state c (snd sp) = PLAYER_LOBBY}"
    using i(2) by (simp_all add: lobby_ok_def)
  have same: "snd sp = p \<longleftrightarrow> fst sp = s" if "sp \<in> set (c_map c)" for sp
    using that key [of sp] uniq [of sp] by (metis fst_conv snd_conv)
  have new: "set (c_lobby (c_move st p c)) = {sp \<in> set (c_map c). ((c_state c)(p := st)) (snd sp) = PLAYER_LOBBY} \<and> smap_ok (c_lobby (c_move st p c))"
    if d: "c_state c p \<noteq> st"
  proof -
    have keep: "\<forall>sp \<in> set (c_lobby c). fst sp \<noteq> s" if "c_state c p \<noteq> PLAYER_LOBBY"
      using that same unfolding l(2) by fastforce
    show ?thesis
    proof (cases "st = PLAYER_LOBBY")
      case True
      have "s \<notin> fst ` set (c_lobby c)" using keep d True by blast
      then have "set (smap_insert s p (c_lobby c)) = insert (s, p) (set (c_lobby c))" by (rule set_smap_insert_new)
      moreover have "insert (s, p) (set (c_lobby c)) = {sp \<in> set (c_map c). ((c_state c)(p := st)) (snd sp) = PLAYER_LOBBY}"
      proof (rule set_eqI)
        fix sp show "sp \<in> insert (s, p) (set (c_lobby c)) \<longleftrightarrow> sp \<in> {sp \<in> set (c_map c). ((c_state c)(p := st)) (snd sp) = PLAYER_LOBBY}"
        proof (cases "snd sp = p")
          case True
          then show ?thesis using s uniq [of sp] \<open>st = PLAYER_LOBBY\<close> unfolding l(2) by auto
        next
          case False
          then show ?thesis unfolding l(2) by auto
        qed
      qed
      ultimately show ?thesis using True d l(1) ser by (simp add: c_move_def)
    next
      case nl: False
      have "{sp \<in> set (c_lobby c). fst sp \<noteq> s} = {sp \<in> set (c_map c). snd sp \<noteq> p \<and> c_state c (snd sp) = PLAYER_LOBBY}"
        unfolding l(2) using same by fastforce
      moreover have "{sp \<in> set (c_lobby c). fst sp \<noteq> s} = set (c_lobby c)" if "c_state c p \<noteq> PLAYER_LOBBY"
        using keep that by blast
      moreover have "{sp \<in> set (c_map c). ((c_state c)(p := st)) (snd sp) = PLAYER_LOBBY} = {sp \<in> set (c_map c). snd sp \<noteq> p \<and> c_state c (snd sp) = PLAYER_LOBBY}"
        using nl by auto
      ultimately show ?thesis using nl d l(1) ser by (simp add: c_move_def set_smap_erase)
    qed
  qed
  show ?thesis
  proof (cases "c_state c p = st")
    case True
    then show ?thesis using i(2) by (simp add: c_move_def)
  next
    case False
    then show ?thesis using new by (simp add: lobby_ok_def)
  qed
qed

end
