(* ===== verification/GameSteps.thy ===== *)
theory GameSteps
  imports GameInv
begin

text \<open>
  The operations on rooms act on the core of the world as pure functions, and these functions keep
  the invariant: entering, opening and leaving a room, changing the team, and the phases of a game.
\<close>

section \<open>Programs that return\<close>

text \<open>\<open>ends m P\<close>: the operation \<open>m\<close> does not fail and its result satisfies \<open>P\<close>.\<close>

definition ends :: "'a option \<Rightarrow> ('a \<Rightarrow> bool) \<Rightarrow> bool" where
  "ends m P \<longleftrightarrow> (\<exists>y. m = Some y \<and> P y)"

named_theorems ends_rules

lemma ends_Some [simp]: "ends (Some y) P = P y" and ends_None [simp]: "\<not> ends None P"
  by (simp_all add: ends_def)

lemma ends_bind [simp]: "ends (m \<bind> f) P = ends m (\<lambda>y. ends (f y) P)"
  by (cases m) simp_all

lemma ends_mono: "\<lbrakk>ends m P; \<And>y. P y \<Longrightarrow> Q y\<rbrakk> \<Longrightarrow> ends m Q"
  by (auto simp: ends_def)

abbreviation (input) core_is :: "core \<Rightarrow> 'm world \<Rightarrow> bool" where
  "core_is c w \<equiv> core w = c"

lemma ends_PropagateMessage:
  "\<forall>p \<in> set (r_observers (c_rooms (core w) ! r)). message_ok m (core w) p \<Longrightarrow> ends (PropagateMessage r m w) (core_is (core w))"
  using PropagateMessage_ok unfolding ends_def by blast

lemma ends_move_player:
  "\<lbrakk>mode_frame E; c_move_ok st p (core w)\<rbrakk> \<Longrightarrow> ends (move_player E st p w) (core_is (c_move st p (core w)))"
  using move_player_ok unfolding ends_def by blast

lemma ends_ChangePlayerFSM:
  "\<lbrakk>mode_frame E; \<forall>p \<in> set (c_room_players r (core w)). c_move_ok st p (core w)\<rbrakk> \<Longrightarrow>
    ends (ChangePlayerFSM E r st w) (core_is (fold (c_move st) (c_room_players r (core w)) (core w)))"
  using ChangePlayerFSM_ok unfolding ends_def by blast

lemma ends_mode_request:
  "\<lbrakk>mode_frame E; \<exists>m \<in> set (c_modes (core w)). m_pCurrentGameMode (c_rooms (core w) ! r) = Some m\<rbrakk> \<Longrightarrow>
    ends (mode_request E r k w) (\<lambda>(_, w'). core w' = core w)"
  using mode_request_ok unfolding ends_def by fast

section \<open>Entering a room\<close>

definition c_select :: "room \<Rightarrow> eTeamType" where
  "c_select x = (if length (t_members (r_team x TEAM_RED)) > length (t_members (r_team x TEAM_BLUE)) then TEAM_BLUE else TEAM_RED)"

definition join_room :: "nat \<Rightarrow> nat \<Rightarrow> room \<Rightarrow> room" where
  "join_room s p x = x\<lparr>r_observers := r_observers x @ [p], r_team := (r_team x)(c_select x := AddMember s p (r_team x (c_select x))),
     r_members := smap_insert s p (r_members x)\<rparr>"

definition c_join :: "nat \<Rightarrow> nat \<Rightarrow> core \<Rightarrow> core" where
  "c_join r p c = c\<lparr>c_team := (c_team c)(p := c_select (c_rooms c ! r)), c_index := (c_index c)(p := int r),
     c_rooms := (c_rooms c)[r := join_room (c_serial c p) p (c_rooms c ! r)]\<rparr>"

lemma core_AddTeamMember: "r < length (c_rooms (core w)) \<Longrightarrow> core (AddTeamMember r p w) = (let t = c_select (c_rooms (core w) ! r) in
   (core w)\<lparr>c_team := (c_team (core w))(p := t), c_rooms := (c_rooms (core w))
     [r := (c_rooms (core w) ! r)\<lparr>r_team := (r_team (c_rooms (core w) ! r))(t := AddMember (c_serial (core w) p) p (r_team (c_rooms (core w) ! r) t))\<rparr>]\<rparr>)"
  by (simp add: AddTeamMember_def set_member_def SelectMyTeam_def c_select_def core_simps core_reads Let_def)

lemma room_OnEnter_ok:
  assumes "short_names (core w)" "r < length (c_rooms (core w))" "p \<notin> set (r_observers (c_rooms (core w) ! r))"
  shows "ends (room_OnEnter r p w) (\<lambda>(b, w'). b = (length (r_observers (c_rooms (core w) ! r)) < MAX_ROOM_MEMBER) \<and>
    core w' = (if b then c_join r p (core w) else core w))"
proof (cases "MAX_ROOM_MEMBER \<le> length (r_observers (c_rooms (core w) ! r))")
  case True
  then show ?thesis by (simp add: room_OnEnter_def core_reads split: prod.split)
next
  case False
  define os where "os = r_observers (c_rooms (core w) ! r) @ [p]"
  define v where "v = upd_player p (\<lambda>x. x\<lparr>m_roomIndex := int r\<rparr>) (AddTeamMember r p (upd_room r (\<lambda>x. x\<lparr>r_observers := os\<rparr>) w))"
  let ?x = "c_rooms (core w) ! r"
  have v: "core v = (core w)\<lparr>c_team := (c_team (core w))(p := c_select ?x), c_index := (c_index (core w))(p := int r),
      c_rooms := (c_rooms (core w))[r := ?x\<lparr>r_observers := os, r_team := (r_team ?x)(c_select ?x := AddMember (c_serial (core w) p) p (r_team ?x (c_select ?x)))\<rparr>]\<rparr>"
    using assms(2) by (simp add: v_def core_simps core_AddTeamMember Let_def c_select_def)
  have short: "short_names (core v)" using assms(1) by (simp add: v short_names_def)
  have n: "length (c_str (c_name (core v) p)) < 100" using short by (simp add: short_names_def)
  have "ends (PropagateMessage r (MsgEnterTeamMember (c_serial (core v) p) (c_str (c_name (core v) p))) v) (core_is (core v))"
    by (rule ends_PropagateMessage) (simp add: n)
  then have "ends (name_message MsgEnterTeamMember p v \<bind> (\<lambda>m. PropagateMessage r m v)) (core_is (core v))"
    by (simp add: name_message_ok [OF short])
  then show ?thesis using False assms(2,3)
    by (auto simp: room_OnEnter_def AddObserver_def core_reads os_def [symmetric] v_def [symmetric] Let_def core_simps v c_join_def join_room_def
        elim!: ends_mono)
qed

lemma serial_unique:
  assumes "people_ok c" "p \<in> connected c" "q \<in> connected c" "c_serial c p = c_serial c q"
  shows "p = q"
proof -
  obtain s t where st: "(s, p) \<in> set (c_map c)" "(t, q) \<in> set (c_map c)" using assms(2,3) by auto
  have all: "\<forall>sp \<in> set (c_map c). c_serial c (snd sp) = fst sp" using assms(1) by (simp add: people_ok_def)
  have "s = t" using bspec [OF all st(1)] bspec [OF all st(2)] assms(4) by simp
  then show ?thesis using smap_key_unique [of "c_map c"] st assms(1) by (simp add: people_ok_def)
qed

lemma fresh_serial:
  assumes "inv c" "r < MAX_ROOM_COUNT" "p \<in> connected c" "p \<notin> pids (c_rooms c ! r)"
  shows "c_serial c p \<notin> fst ` set (r_members (c_rooms c ! r))"
proof
  assume "c_serial c p \<in> fst ` set (r_members (c_rooms c ! r))"
  then obtain q where q: "(c_serial c p, q) \<in> set (r_members (c_rooms c ! r))" by auto
  then have qp: "q \<in> pids (c_rooms c ! r)" unfolding pids_def by force
  have "c_serial c q = c_serial c p" using q inv_room [OF assms(1,2)] by (auto simp: seats_ok_def)
  then have "q = p" using serial_unique [OF inv_parts(3) [OF assms(1)] _ assms(3)] inv_in_room(3) [OF assms(1,2) qp] by simp
  then show False using qp assms(4) by simp
qed

lemma pids_join [simp]: "s \<notin> fst ` set (r_members x) \<Longrightarrow> pids (join_room s p x) = insert p (pids x)"
  by (simp add: pids_def join_room_def set_smap_insert_new)

lemma seats_join:
  assumes old: "seats_ok c r x" and new: "p \<notin> pids x" "s \<notin> fst ` set (r_members x)" "c_serial c p = s"
    and room: "length (r_observers x) < MAX_ROOM_MEMBER"
    and c': "c_serial c' = c_serial c" "c_team c' = (c_team c)(p := c_select x)" "c_index c' = (c_index c)(p := int r)"
  shows "seats_ok c' r (join_room s p x)"
proof -
  let ?x = "join_room s p x"
  have mem: "set (r_members ?x) = insert (s, p) (set (r_members x))" "smap_ok (r_members ?x)"
    using new(2) old by (simp_all add: join_room_def set_smap_insert_new seats_ok_def)
  have notp: "\<forall>sp \<in> set (r_members x). snd sp \<noteq> p" using new(1) by (auto simp: pids_def)
  have team: "team_ok c' ?x t" for t
  proof -
    have t: "smap_ok (t_members (r_team x t))" "set (t_members (r_team x t)) = {sp \<in> set (r_members x). c_team c (snd sp) = t}"
      "distinct (t_observers (r_team x t))" "set (t_observers (r_team x t)) = snd ` set (t_members (r_team x t))"
      using old by (auto simp: seats_ok_def team_ok_def)
    have same: "{sp \<in> set (r_members x). c_team c' (snd sp) = t} = {sp \<in> set (r_members x). c_team c (snd sp) = t}"
      using notp c'(2) by auto
    show ?thesis
    proof (cases "t = c_select x")
      case False
      then have "{sp \<in> set (r_members ?x). c_team c' (snd sp) = t} = {sp \<in> set (r_members x). c_team c' (snd sp) = t}"
        unfolding mem c'(2) by auto
      then show ?thesis using t False same by (simp add: team_ok_def join_room_def)
    next
      case True
      have "p \<notin> set (t_observers (r_team x t))" using t(2,4) notp by auto
      moreover have "s \<notin> fst ` set (t_members (r_team x t))" using t(2) new(2) by auto
      moreover have "{sp \<in> set (r_members ?x). c_team c' (snd sp) = t} = insert (s, p) {sp \<in> set (r_members x). c_team c' (snd sp) = t}"
        unfolding mem c'(2) using True by auto
      ultimately show ?thesis unfolding team_ok_def same
        using t same True by (simp add: join_room_def AddMember_def AddObserver_def set_smap_insert_new)
    qed
  qed
  have "set (r_observers ?x) = insert p (set (r_observers x))" "p \<notin> set (r_observers x)"
    using old new(1) by (auto simp: join_room_def seats_ok_def)
  then show ?thesis using old new mem team room c'(1,3)
    by (auto simp: seats_ok_def pids_def join_room_def)
qed

lemma seats_room_cong: "\<lbrakk>r_members y = r_members x; r_observers y = r_observers x; r_team y = r_team x\<rbrakk> \<Longrightarrow> seats_ok c r y = seats_ok c r x"
  by (simp add: seats_ok_def pids_def team_ok_def)

lemma seats_core_cong: "\<lbrakk>c_serial c' = c_serial c; c_team c' = c_team c; c_index c' = c_index c\<rbrakk> \<Longrightarrow> seats_ok c' r x = seats_ok c r x"
  by (simp add: seats_ok_def team_ok_def)

lemma outside_not_seated: "\<lbrakk>inv c; c_state c p \<in> outside; r < MAX_ROOM_COUNT\<rbrakk> \<Longrightarrow> p \<notin> pids (c_rooms c ! r)"
  using inv_in_room(5) by blast

text \<open>The lobby after a move of \<open>p\<close> on top of steps that leave states, serials, lobby and players alone.\<close>

lemma lobby_ok_after:
  assumes "inv c" "p \<in> connected c" "c_state d = c_state c" "c_lobby d = c_lobby c" "c_map d = c_map c" "c_serial d = c_serial c"
  shows "lobby_ok (c_move st p d)"
proof -
  have "lobby_ok (c_move st p c)" by (rule lobby_ok_move [OF inv_parts(3,2) [OF assms(1)] assms(2)])
  moreover have "c_lobby (c_move st p d) = c_lobby (c_move st p c)" using assms(3-6) by (simp add: c_move_def)
  ultimately show ?thesis using assms(3-6) by (simp add: lobby_ok_def)
qed

lemma inv_enter:
  assumes i: "inv c" and r: "r < MAX_ROOM_COUNT" and p: "p \<in> connected c" "c_state c p \<in> outside"
    and x: "length (r_observers (c_rooms c ! r)) < MAX_ROOM_MEMBER" "r_state (c_rooms c ! r) \<noteq> ROOM_NONE"
    and st: "st \<in> allowed (r_state (c_rooms c ! r))"
  shows "inv (c_move st p (c_join r p c))"
proof -
  let ?x = "c_rooms c ! r" and ?c = "c_move st p (c_join r p c)"
  have notp: "p \<notin> pids ?x" by (rule outside_not_seated [OF i p(2) r])
  note ser = fresh_serial [OF i r p(1) notp] and so = inv_room [OF i r]
  show ?thesis
  proof (rule inv_room_change [OF i r, where P = "{p}" and x = "join_room (c_serial c p) p ?x"])
    have "seats_ok (c_join r p c) r (join_room (c_serial c p) p ?x)"
      using so by (intro seats_join [OF _ notp ser refl x(1)]) (simp_all add: c_join_def)
    then show "seats_ok ?c r (join_room (c_serial c p) p ?x)" using seats_core_cong [of ?c "c_join r p c"] by simp
    have "r_members ?x \<noteq> []" using so x(2) by (simp add: phase_ok_def)
    then show "phase_ok ?c (join_room (c_serial c p) p ?x)"
      using so x(2) st ser notp unfolding phase_ok_def pids_join [OF ser]
      by (auto simp: c_join_def join_room_def set_smap_insert_new keys_smap_insert)
    show "pids (join_room (c_serial c p) p ?x) \<subseteq> connected c" using inv_in_room(3) [OF i r] p ser by auto
    show "lists_ok ?c"
      by (rule lists_ok_same [OF inv_parts(1) [OF i]]) (use r inv_parts(5) [OF i] in \<open>auto simp: c_join_def join_room_def nth_list_update\<close>)
    show "lobby_ok ?c" by (rule lobby_ok_after [OF i p(1)]) (simp_all add: c_join_def)
    show "short_names ?c" using inv_parts(4) [OF i] by (simp add: short_names_def c_join_def)
  qed (use outside_not_seated [OF i p(2)] ser in \<open>auto simp: c_join_def\<close>)
qed

section \<open>Opening a room\<close>

definition open_room :: "nat \<Rightarrow> nat \<Rightarrow> int \<Rightarrow> room \<Rightarrow> room" where
  "open_room s p mode x = (join_room s p x)\<lparr>m_pRoomChief := Some p, r_state := ROOM_WAIT, m_GameMode := mode\<rparr>"

definition c_open :: "nat \<Rightarrow> nat \<Rightarrow> int \<Rightarrow> core \<Rightarrow> core" where
  "c_open r p mode c = c\<lparr>c_team := (c_team c)(p := c_select (c_rooms c ! r)), c_index := (c_index c)(p := int r),
     c_rooms := (c_rooms c)[r := open_room (c_serial c p) p mode (c_rooms c ! r)],
     c_empty := tl (c_empty c), c_active := smap_insert r r (c_active c)\<rparr>"

lemma OnCreateRoom_ok:
  assumes i: "inv (core w)"
  shows "ends (OnCreateRoom E p mode w) (\<lambda>(b, w'). b = (c_empty (core w) \<noteq> []) \<and>
    core w' = (if b then c_open (snd (hd (c_empty (core w)))) p mode (core w) else core w))"
proof (cases "c_empty (core w)")
  case Nil
  then show ?thesis by (simp add: OnCreateRoom_def GetEmptyRoom_def core_reads)
next
  case (Cons kr m)
  obtain k r where kr: "kr = (k, r)" by (cases kr)
  have "(k, r) \<in> set (c_empty (core w))" using Cons kr by simp
  then have r: "r < MAX_ROOM_COUNT" "r_state (c_rooms (core w) ! r) = ROOM_NONE" using inv_parts(1) [OF i] by (auto simp: lists_ok_def)
  then have "r_members (c_rooms (core w) ! r) = []" using inv_room [OF i] by (simp add: phase_ok_def)
  then have obs: "r_observers (c_rooms (core w) ! r) = []" using inv_room [OF i r(1)] by (simp add: seats_ok_def pids_def)
  have len: "r < length (c_rooms (core w))" using r inv_parts(5) [OF i] by simp
  define v where "v = room_Open r p (w\<lparr>m_EmptyRoomMap := m\<rparr>)"
  have v: "core v = (core w)\<lparr>c_team := (c_team (core w))(p := c_select (c_rooms (core w) ! r)),
      c_rooms := (c_rooms (core w))[r := (join_room (c_serial (core w) p) p (c_rooms (core w) ! r))\<lparr>m_pRoomChief := Some p\<rparr>], c_empty := m\<rparr>"
    using len obs by (simp add: v_def room_Open_def Let_def core_AddTeamMember core_simps join_room_def c_select_def AddObserver_def core_reads)
       (auto intro!: field_wise)
  have st: "r_state (c_rooms (core v) ! r) = ROOM_NONE" using len r by (simp add: v join_room_def)
  have "ends (room_ChangeState E r ROOM_WAIT v) (\<lambda>(_, v'). core v' = (core v)\<lparr>c_rooms := (c_rooms (core v))[r := (c_rooms (core v) ! r)\<lparr>r_state := ROOM_WAIT\<rparr>]\<rparr>)"
    using st by (simp add: room_ChangeState_def room_state_OnLeave_def room_state_OnEnter_def core_reads core_simps)
  then show ?thesis
    using Cons kr len by (auto simp: OnCreateRoom_def GetEmptyRoom_def core_reads v_def [symmetric] Let_def core_simps v c_open_def open_room_def
        elim!: ends_mono intro!: field_wise)
qed

lemma inv_open:
  assumes i: "inv c" and e: "c_empty c \<noteq> []" "r = snd (hd (c_empty c))" and p: "p \<in> connected c" "c_state c p \<in> outside"
    and mode: "mode \<in> set (c_modes c)"
  shows "inv (c_move PLAYER_ROOM p (c_open r p mode c))"
proof -
  let ?x = "c_rooms c ! r" and ?c = "c_move PLAYER_ROOM p (c_open r p mode c)"
  let ?y = "open_room (c_serial c p) p mode ?x"
  obtain k m where km: "c_empty c = (k, r) # m" using e by (cases "c_empty c") auto
  have lo: "smap_ok (c_empty c)" "smap_ok (c_active c)"
    "set (c_empty c) = {(r, r) | r. r < MAX_ROOM_COUNT \<and> r_state (c_rooms c ! r) = ROOM_NONE}"
    "set (c_active c) = {(r, r) | r. r < MAX_ROOM_COUNT \<and> r_state (c_rooms c ! r) \<noteq> ROOM_NONE}"
    using inv_parts(1) [OF i] by (simp_all add: lists_ok_def)
  have "(k, r) \<in> set (c_empty c)" by (simp add: km)
  then have r: "r < MAX_ROOM_COUNT" "r_state ?x = ROOM_NONE" and kr: "k = r" unfolding lo(3) by auto
  have notp: "p \<notin> pids ?x" by (rule outside_not_seated [OF i p(2) r(1)])
  note ser = fresh_serial [OF i r(1) p(1) notp] and so = inv_room [OF i r(1)]
  have none: "r_members ?x = []" using so r by (simp add: phase_ok_def)
  have py: "pids ?y = {p}" using none by (simp add: pids_def open_room_def join_room_def)
  have st: "r_state (c_rooms ?c ! r') = (if r' = r then ROOM_WAIT else r_state (c_rooms c ! r'))" if "r' < MAX_ROOM_COUNT" for r'
    using that inv_parts(5) [OF i] by (simp add: c_open_def open_room_def nth_list_update)
  show ?thesis
  proof (rule inv_room_change [OF i r(1), where P = "{p}" and x = ?y])
    have "r_observers ?x = []" using so none by (simp add: seats_ok_def pids_def)
    then have "seats_ok (c_join r p c) r (join_room (c_serial c p) p ?x)"
      using so by (intro seats_join [OF _ notp ser refl]) (simp_all add: c_join_def MAX_ROOM_MEMBER_def)
    then show "seats_ok ?c r ?y"
      using seats_core_cong [of ?c "c_join r p c"] seats_room_cong [of ?y "join_room (c_serial c p) p ?x"]
      by (simp add: c_join_def c_open_def open_room_def)
    show "phase_ok ?c ?y" using so none mode r(2) unfolding phase_ok_def py
      by (simp add: c_open_def open_room_def join_room_def)
    show "pids ?y \<subseteq> connected c" using py p by simp
    have "distinct (c_empty c)" using smap_ok_distinct [OF lo(1)] by (simp add: distinct_map)
    then have "set m = set (c_empty c) - {(r, r)}" by (auto simp: km kr)
    moreover have "smap_ok m" using lo(1) by (simp add: km smap_ok_def)
    moreover have "r \<notin> fst ` set (c_active c)" unfolding lo(4) using r(2) by auto
    ultimately show "lists_ok ?c" unfolding lists_ok_def
      using lo r st by (auto simp: c_open_def km set_smap_insert_new split: if_splits)
    show "lobby_ok ?c" by (rule lobby_ok_after [OF i p(1)]) (simp_all add: c_open_def)
    show "short_names ?c" using inv_parts(4) [OF i] by (simp add: short_names_def c_open_def)
  qed (use outside_not_seated [OF i p(2)] none py in \<open>auto simp: c_open_def pids_def\<close>)
qed

section \<open>Leaving a room\<close>

definition leave_room :: "nat \<Rightarrow> nat \<Rightarrow> eTeamType \<Rightarrow> room \<Rightarrow> room" where
  "leave_room s p t x = x\<lparr>r_members := smap_erase s (r_members x), r_observers := DelObserver p (r_observers x),
     r_team := (r_team x)(t := DelMember s p (r_team x t))\<rparr>"

lemma seats_leave:
  assumes so: "seats_ok c r x" and p: "p \<in> pids x"
  shows "seats_ok c r (leave_room (c_serial c p) p (c_team c p) x)"
    and "pids (leave_room (c_serial c p) p (c_team c p) x) = pids x - {p}"
    and "set (r_members (leave_room (c_serial c p) p (c_team c p) x)) = {sp \<in> set (r_members x). snd sp \<noteq> p}"
proof -
  let ?s = "c_serial c p" and ?t = "c_team c p"
  let ?y = "leave_room ?s p ?t x"
  have ser: "\<forall>sp \<in> set (r_members x). c_serial c (snd sp) = fst sp" and ok: "smap_ok (r_members x)" using so by (auto simp: seats_ok_def)
  obtain s where s: "(s, p) \<in> set (r_members x)" using p by (auto simp: pids_def)
  then have ss: "s = ?s" using bspec [OF ser s] by simp
  have iff: "fst sp = ?s \<longleftrightarrow> snd sp = p" if sp: "sp \<in> set (r_members x)" for sp
  proof
    assume "fst sp = ?s"
    then show "snd sp = p" using smap_key_unique [OF ok, of ?s "snd sp" p] s ss sp by (cases sp) simp
  next
    assume "snd sp = p"
    then show "fst sp = ?s" using bspec [OF ser sp] by simp
  qed
  show mem: "set (r_members ?y) = {sp \<in> set (r_members x). snd sp \<noteq> p}"
    using iff by (auto simp: leave_room_def set_smap_erase)
  then show pids: "pids ?y = pids x - {p}" by (auto simp: pids_def)
  have team: "team_ok c ?y t" for t
  proof -
    have t: "smap_ok (t_members (r_team x t))" "set (t_members (r_team x t)) = {sp \<in> set (r_members x). c_team c (snd sp) = t}"
      "distinct (t_observers (r_team x t))" "set (t_observers (r_team x t)) = snd ` set (t_members (r_team x t))"
      using so by (auto simp: seats_ok_def team_ok_def)
    show ?thesis
    proof (cases "t = ?t")
      case False
      then have "{sp \<in> set (r_members ?y). c_team c (snd sp) = t} = {sp \<in> set (r_members x). c_team c (snd sp) = t}"
        unfolding mem by auto
      then show ?thesis using t False by (simp add: team_ok_def leave_room_def)
    next
      case True
      have tm: "set (t_members (DelMember ?s p (r_team x t))) = {sp \<in> set (t_members (r_team x t)). snd sp \<noteq> p}"
        using iff unfolding t(2) DelMember_def by (auto simp: set_smap_erase t(2))
      have "{sp \<in> set (r_members ?y). c_team c (snd sp) = t} = {sp \<in> set (t_members (r_team x t)). snd sp \<noteq> p}"
        unfolding mem t(2) by auto
      moreover have "set (t_observers (DelMember ?s p (r_team x t))) = snd ` {sp \<in> set (t_members (r_team x t)). snd sp \<noteq> p}"
        using t(3,4) by (auto simp: DelMember_def DelObserver_def)
      ultimately show ?thesis using True t(1,3) tm
        by (simp add: team_ok_def leave_room_def DelMember_def DelObserver_def)
    qed
  qed
  show "seats_ok c r ?y"
    using so team pids mem by (auto simp: seats_ok_def leave_room_def DelObserver_def length_remove1)
qed

end
