(* ===== verification/GameLeave.thy ===== *)
theory GameLeave
  imports GameSteps
begin

text \<open>
  Leaving a room and changing the team: the members, the observers and the two teams change together,
  the room chief is passed on, and the last member closes the room.
\<close>

section \<open>The effect of leaving\<close>

definition c_leave :: "nat \<Rightarrow> nat \<Rightarrow> core \<Rightarrow> core" where
  "c_leave r p c = (let x = leave_room (c_serial c p) p (c_team c p) (c_rooms c ! r)
     in if r_observers x = []
     then c\<lparr>c_rooms := (c_rooms c)[r := x\<lparr>r_state := ROOM_NONE\<rparr>], c_empty := smap_insert r r (c_empty c), c_active := smap_erase r (c_active c)\<rparr>
     else c\<lparr>c_rooms := (c_rooms c)[r := x\<lparr>m_pRoomChief := if m_pRoomChief x = Some p then Some (snd (hd (r_members x))) else m_pRoomChief x\<rparr>]\<rparr>)"

definition c_unpeer :: "nat \<Rightarrow> nat \<Rightarrow> core \<Rightarrow> core" where
  "c_unpeer r p c = c\<lparr>c_rooms := (c_rooms c)[r := (c_rooms c ! r)\<lparr>r_peers := DeletePeer (c_serial c p) (r_peers (c_rooms c ! r))\<rparr>]\<rparr>"

lemma no_members: "\<lbrakk>seats_ok c r x; r_observers x = []\<rbrakk> \<Longrightarrow> r_members x = [] \<and> t_members (r_team x t) = []"
  by (auto simp: seats_ok_def pids_def team_ok_def)

lemma has_members: "\<lbrakk>seats_ok c r x; r_observers x \<noteq> []\<rbrakk> \<Longrightarrow> r_members x \<noteq> []"
  by (auto simp: seats_ok_def pids_def)

lemma RecallRoom_ok:
  assumes frame: "mode_frame E" and len: "r < length (c_rooms (core w))" and play: "playable r (core w)"
    and state: "r_state (c_rooms (core w) ! r) \<noteq> ROOM_NONE" and none: "c_room_players r (core w) = []"
  shows "ends (RecallRoom E r w) (core_is ((core w)\<lparr>c_rooms := (c_rooms (core w))[r := (c_rooms (core w) ! r)\<lparr>r_state := ROOM_NONE\<rparr>],
    c_empty := smap_insert r r (c_empty (core w)), c_active := smap_erase r (c_active (core w))\<rparr>))"
proof -
  have "ends (room_state_OnLeave E r w) (core_is (core w))"
  proof (cases "r_state (c_rooms (core w) ! r) = ROOM_PLAY")
    case True
    have "ends (ChangePlayerFSM E r PLAYER_PLAYEND v) (core_is (core w))" if "core v = core w" for v
      using ends_ChangePlayerFSM [OF frame, of r v PLAYER_PLAYEND] none by (simp add: that)
    then show ?thesis using True play
      by (auto simp: room_state_OnLeave_def core_reads playable_def intro!: ends_mono [OF ends_mode_request [OF frame]])
  qed (simp add: room_state_OnLeave_def core_reads)
  then show ?thesis using state len
    by (auto simp: RecallRoom_def room_ChangeState_def room_state_OnEnter_def core_reads core_simps elim!: ends_mono)
qed

lemma room_OnLeave_ok:
  assumes frame: "mode_frame E" and i: "inv (core w)" and r: "r < MAX_ROOM_COUNT" and p: "p \<in> pids (c_rooms (core w) ! r)"
  shows "ends (room_OnLeave E r p w) (\<lambda>(b, w'). b \<and> core w' = c_leave r p (core w))"
proof -
  let ?x = "c_rooms (core w) ! r" and ?s = "c_serial (core w) p"
  let ?y = "leave_room ?s p (c_team (core w) p) ?x"
  have len: "r < length (c_rooms (core w))" using inv_parts(5) [OF i] r by simp
  have so: "seats_ok (core w) r ?x" and ph: "phase_ok (core w) ?x" using inv_room [OF i r] by simp_all
  note so' = seats_leave(1) [OF so p]
  define v where "v = upd_room r (\<lambda>x. x\<lparr>r_members := smap_erase (serial_of w p) (r_members x), r_observers := DelObserver p (r_observers x)\<rparr>) w"
  have v: "core v = (core w)\<lparr>c_rooms := (c_rooms (core w))[r := ?x\<lparr>r_members := smap_erase ?s (r_members ?x), r_observers := DelObserver p (r_observers ?x)\<rparr>]\<rparr>"
    by (simp add: v_def core_simps core_reads)
  have short: "short_names (core v)" using inv_parts(4) [OF i] by (simp add: v short_names_def)
  then have n: "length (c_str (c_name (core v) p)) < 100" by (simp add: short_names_def)
  have "ends (PropagateMessage r (MsgLeaveTeamMember (c_serial (core v) p) (c_str (c_name (core v) p))) v) (core_is (core v))"
    by (rule ends_PropagateMessage) (simp add: n)
  then have msg: "ends (name_message MsgLeaveTeamMember p v) (\<lambda>m. ends (PropagateMessage r m v) (core_is (core v)))"
    by (simp add: name_message_ok [OF short])
  have del: "core (DelTeamMember r p u) = (core w)\<lparr>c_rooms := (c_rooms (core w))[r := ?y]\<rparr>" if u: "core u = core v" for u
    using len by (simp add: DelTeamMember_def Let_def core_simps core_reads u v leave_room_def)
  have state: "r_state ?x \<noteq> ROOM_NONE" using ph p by (auto simp: phase_ok_def pids_def)
  have rest: "ends (if r_observers (the_room r u) = [] then do { w4 \<leftarrow> RecallRoom E r u; Some (True, w4) }
     else do {
       chief \<leftarrow> m_pRoomChief (the_room r u);
       if chief = p
       then (case r_members (the_room r u) of
           [] \<Rightarrow> Some (False, u)
         | (_, q) # _ \<Rightarrow> Some (True, upd_room r (\<lambda>x. x\<lparr>m_pRoomChief := Some q\<rparr>) u))
       else Some (True, u)
     }) (\<lambda>(b, w'). b \<and> core w' = c_leave r p (core w))" if u: "core u = (core w)\<lparr>c_rooms := (c_rooms (core w))[r := ?y]\<rparr>" for u
  proof (cases "r_observers ?y = []")
    case True
    have "ends (RecallRoom E r u) (core_is (c_leave r p (core w)))"
    proof (rule ends_mono [OF RecallRoom_ok [OF frame]])
      show "playable r (core u)" using inv_in_room(6) [OF i r p] len by (auto simp: u playable_def leave_room_def)
      show "c_room_players r (core u) = []" using no_members [OF so' True] len by (simp add: u c_room_players_def)
    qed (use len state True in \<open>auto simp: u c_leave_def leave_room_def\<close>)
    then show ?thesis using True len by (auto simp: core_reads u elim!: ends_mono)
  next
    case False
    obtain chief where c: "m_pRoomChief ?x = Some chief" using ph p by (auto simp: phase_ok_def pids_def)
    obtain sq qs where m: "r_members ?y = sq # qs" using has_members [OF so' False] by (cases "r_members ?y") auto
    have cy: "m_pRoomChief ?y = Some chief" using c by (simp add: leave_room_def)
    show ?thesis using False len c cy m
      by (auto simp: core_reads u c_leave_def core_simps Let_def split: prod.split intro!: field_wise)
  qed
  show ?thesis unfolding room_OnLeave_def v_def [symmetric] Let_def ends_bind
    by (rule ends_mono [OF msg], erule ends_mono) (use rest [OF del] in simp)
qed

lemma inv_leave:
  assumes i: "inv c" and r: "r < MAX_ROOM_COUNT" and p: "p \<in> pids (c_rooms c ! r)"
  shows "inv (c_move PLAYER_LOBBY p (c_unpeer r p (c_leave r p c)))"
proof -
  let ?x = "c_rooms c ! r" and ?s = "c_serial c p" and ?c = "c_move PLAYER_LOBBY p (c_unpeer r p (c_leave r p c))"
  let ?y = "leave_room ?s p (c_team c p) ?x"
  have len: "r < length (c_rooms c)" using inv_parts(5) [OF i] r by simp
  have so: "seats_ok c r ?x" and ph: "phase_ok c ?x" using inv_room [OF i r] by simp_all
  note so' = seats_leave(1) [OF so p] and pids = seats_leave(2) [OF so p]
  define chief where "chief = (if m_pRoomChief ?x = Some p then Some (snd (hd (r_members ?y))) else m_pRoomChief ?x)"
  define z where "z = (if r_observers ?y = [] then ?y\<lparr>r_state := ROOM_NONE, r_peers := DeletePeer ?s (r_peers ?x)\<rparr>
    else ?y\<lparr>m_pRoomChief := chief, r_peers := DeletePeer ?s (r_peers ?x)\<rparr>)"
  have rooms: "c_rooms ?c = (c_rooms c)[r := z]"
    using len by (simp add: c_unpeer_def c_leave_def Let_def z_def chief_def leave_room_def)
  have rest: "c_map ?c = c_map c" "c_serial ?c = c_serial c" "c_modes ?c = c_modes c" "c_pool ?c = c_pool c" "c_fresh ?c = c_fresh c"
    "c_team ?c = c_team c" "c_index ?c = c_index c" "c_name ?c = c_name c"
    by (simp_all add: c_unpeer_def c_leave_def Let_def)
  have states: "c_state ?c = (c_state c)(p := PLAYER_LOBBY)" by (simp add: c_unpeer_def c_leave_def Let_def)
  have zy: "r_members z = r_members ?y" "r_observers z = r_observers ?y" "r_team z = r_team ?y" "m_GameMode z = m_GameMode ?x"
    "m_pCurrentGameMode z = m_pCurrentGameMode ?x" "r_peers z = smap_erase ?s (r_peers ?x)"
    "r_state z = (if r_observers ?y = [] then ROOM_NONE else r_state ?x)"
    by (simp_all add: z_def leave_room_def DeletePeer_def)
  have pz: "pids z = pids ?x - {p}" using pids by (simp add: pids_def zy)
  have empty: "r_observers ?y = [] \<longleftrightarrow> r_members ?y = []" using no_members [OF so'] has_members [OF so'] by blast
  have state: "r_state ?x \<noteq> ROOM_NONE" "r_members ?x \<noteq> []" using ph p by (auto simp: phase_ok_def pids_def)
  have mem: "r_members ?y = smap_erase ?s (r_members ?x)" by (simp add: leave_room_def)
  show ?thesis
  proof (rule inv_room_change [OF i r rooms rest(1-5), where P = "{p}"])
    show "seats_ok ?c r z" using so' seats_core_cong [OF rest(2,6,7)] seats_room_cong [OF zy(1-3)] by simp
    have "\<exists>q \<in> pids z. m_pRoomChief z = Some q" if m: "r_members z \<noteq> []"
    proof -
      have "r_observers ?y \<noteq> []" using m empty by (simp add: zy(1))
      then have ch: "m_pRoomChief z = chief" by (simp add: z_def)
      obtain sq ms where sq: "r_members ?y = sq # ms" using m zy(1) by (cases "r_members ?y") auto
      obtain q where q: "q \<in> pids ?x" "m_pRoomChief ?x = Some q" using ph state(2) by (auto simp: phase_ok_def)
      show ?thesis
      proof (cases "q = p")
        case True
        then show ?thesis using ch q sq by (simp add: chief_def pids_def zy)
      next
        case False
        then show ?thesis using ch q pz by (simp add: chief_def)
      qed
    qed
    moreover have "\<forall>q \<in> pids z. c_state ?c q \<in> allowed (r_state z)"
    proof
      fix q assume q: "q \<in> pids z"
      then have "r_observers ?y \<noteq> []" using empty by (auto simp: pids_def zy(1))
      moreover have "q \<noteq> p" "q \<in> pids ?x" using q pz by auto
      ultimately show "c_state ?c q \<in> allowed (r_state z)" using ph unfolding states by (simp add: zy(7) phase_ok_def)
    qed
    moreover have "fst ` set (r_peers z) \<subseteq> fst ` set (r_members z)"
      using ph unfolding zy(1,6) mem keys_smap_erase by (auto simp: phase_ok_def)
    ultimately show "phase_ok ?c z"
      using ph state empty unfolding phase_ok_def rest(3) by (simp add: zy split: if_split)
    show "pids z \<subseteq> connected c" using inv_in_room(3) [OF i r] pz by auto
    show "\<forall>q \<in> connected c. q \<in> {p} \<union> pids ?x \<longrightarrow> c_state ?c q \<in> outside \<or> q \<in> pids z"
      unfolding states pz by (auto simp: outside_def)
    show "lists_ok ?c"
    proof (cases "r_observers ?y = []")
      case True
      have lo: "lists_ok c" by (rule inv_parts(1) [OF i])
      have st: "r_state (c_rooms ?c ! r') = (if r' = r then ROOM_NONE else r_state (c_rooms c ! r'))" if "r' < MAX_ROOM_COUNT" for r'
        unfolding rooms using len zy(7) True by (simp add: nth_list_update)
      have "r \<notin> fst ` set (c_empty c)" using lo state(1) by (auto simp: lists_ok_def)
      moreover have "c_empty ?c = smap_insert r r (c_empty c)" "c_active ?c = smap_erase r (c_active c)"
        using True by (simp_all add: c_unpeer_def c_leave_def)
      ultimately show ?thesis using lo r st unfolding lists_ok_def
        by (auto simp: set_smap_insert_new set_smap_erase split: if_splits)
    next
      case False
      then have "c_empty ?c = c_empty c" "c_active ?c = c_active c" by (simp_all add: c_unpeer_def c_leave_def Let_def)
      then show ?thesis
      proof (rule lists_ok_same [OF inv_parts(1) [OF i]])
        show "\<forall>r' < MAX_ROOM_COUNT. r_state (c_rooms ?c ! r') = ROOM_NONE \<longleftrightarrow> r_state (c_rooms c ! r') = ROOM_NONE"
          unfolding rooms using len zy(7) False by (simp add: nth_list_update)
      qed
    qed
    show "lobby_ok ?c" using inv_in_room(3) [OF i r p] by (intro lobby_ok_after [OF i]) (simp_all add: c_unpeer_def c_leave_def Let_def)
    show "short_names ?c" using inv_parts(4) [OF i] unfolding short_names_def rest(8) .
    show "\<forall>q. q \<notin> {p} \<longrightarrow> c_state ?c q = c_state c q \<and> c_team ?c q = c_team c q \<and> c_index ?c q = c_index c q"
      unfolding states rest by simp
  qed (use inv_one_room [OF i] r p in auto)
qed

end
