(* ===== verification/GamePhase.thy ===== *)
theory GamePhase
  imports GameLeave
begin

text \<open>
  Changing the team, and the phases of a game: the chief starts the loading, every member reports that
  it has loaded, the last report starts the game, and players enter a running game late.
\<close>

section \<open>Changing the team\<close>

fun other_team :: "eTeamType \<Rightarrow> eTeamType" where
  "other_team TEAM_RED = TEAM_BLUE"
| "other_team TEAM_BLUE = TEAM_RED"

lemma other_team_neq [simp]: "other_team t \<noteq> t" "t \<noteq> other_team t"
  by (cases t; simp)+

definition switch_room :: "nat \<Rightarrow> nat \<Rightarrow> eTeamType \<Rightarrow> room \<Rightarrow> room" where
  "switch_room s p t x = x\<lparr>r_team := (r_team x)(t := DelMember s p (r_team x t), other_team t := AddMember s p (r_team x (other_team t)))\<rparr>"

definition c_switch :: "nat \<Rightarrow> nat \<Rightarrow> core \<Rightarrow> core" where
  "c_switch r p c = c\<lparr>c_team := (c_team c)(p := other_team (c_team c p)),
     c_rooms := (c_rooms c)[r := switch_room (c_serial c p) p (c_team c p) (c_rooms c ! r)]\<rparr>"

lemma ChangeTeam_core: "r < length (c_rooms (core w)) \<Longrightarrow> core (ChangeTeam r p w) = c_switch r p (core w)"
  by (cases "c_team (core w) p")
    (simp_all add: ChangeTeam_def set_member_def DelTeamMember_def Let_def core_simps core_reads c_switch_def switch_room_def)

lemma team_del:
  assumes so: "seats_ok c r x" and p: "p \<in> pids x" and t: "t = c_team c p"
  shows "smap_ok (t_members (DelMember (c_serial c p) p (r_team x t)))"
    and "set (t_members (DelMember (c_serial c p) p (r_team x t))) = {sp \<in> set (r_members x). c_team c (snd sp) = t \<and> snd sp \<noteq> p}"
    and "distinct (t_observers (DelMember (c_serial c p) p (r_team x t)))"
    and "set (t_observers (DelMember (c_serial c p) p (r_team x t))) = snd ` {sp \<in> set (r_members x). c_team c (snd sp) = t \<and> snd sp \<noteq> p}"
proof -
  have "team_ok c (leave_room (c_serial c p) p t x) t" using seats_leave(1) [OF so p] t by (simp add: seats_ok_def)
  moreover have "r_team (leave_room (c_serial c p) p t x) t = DelMember (c_serial c p) p (r_team x t)" by (simp add: leave_room_def)
  moreover have "{sp \<in> set (r_members (leave_room (c_serial c p) p t x)). c_team c (snd sp) = t} =
      {sp \<in> set (r_members x). c_team c (snd sp) = t \<and> snd sp \<noteq> p}"
    using seats_leave(3) [OF so p] t by auto
  ultimately show "smap_ok (t_members (DelMember (c_serial c p) p (r_team x t)))"
    "set (t_members (DelMember (c_serial c p) p (r_team x t))) = {sp \<in> set (r_members x). c_team c (snd sp) = t \<and> snd sp \<noteq> p}"
    "distinct (t_observers (DelMember (c_serial c p) p (r_team x t)))"
    "set (t_observers (DelMember (c_serial c p) p (r_team x t))) = snd ` {sp \<in> set (r_members x). c_team c (snd sp) = t \<and> snd sp \<noteq> p}"
    by (simp_all add: team_ok_def)
qed

lemma seats_switch:
  assumes so: "seats_ok c r x" and p: "p \<in> pids x"
  shows "seats_ok (c\<lparr>c_team := (c_team c)(p := other_team (c_team c p))\<rparr>) r (switch_room (c_serial c p) p (c_team c p) x)"
proof -
  let ?c = "c\<lparr>c_team := (c_team c)(p := other_team (c_team c p))\<rparr>" and ?s = "c_serial c p" and ?t = "c_team c p"
  let ?y = "switch_room ?s p ?t x"
  have ser: "\<forall>sp \<in> set (r_members x). c_serial c (snd sp) = fst sp" and ok: "smap_ok (r_members x)" using so by (auto simp: seats_ok_def)
  obtain s where "(s, p) \<in> set (r_members x)" using p by (auto simp: pids_def)
  with bspec [OF ser this] have s: "(?s, p) \<in> set (r_members x)" by simp
  have same: "sp = (?s, p)" if sp: "sp \<in> set (r_members x)" "fst sp = ?s" for sp
    using smap_key_unique [OF ok, of ?s "snd sp" p] s sp by (cases sp) simp
  have uniq: "sp = (?s, p)" if sp: "sp \<in> set (r_members x)" "snd sp = p" for sp
    using bspec [OF ser sp(1)] sp(2) by (cases sp) simp
  have team: "team_ok ?c ?y t" for t
  proof (cases "t = ?t")
    case True
    have "{sp \<in> set (r_members x). c_team ?c (snd sp) = ?t} = {sp \<in> set (r_members x). c_team c (snd sp) = ?t \<and> snd sp \<noteq> p}"
      by auto
    then show ?thesis using True team_del [OF so p refl] by (simp add: team_ok_def switch_room_def)
  next
    case False
    then have t: "t = other_team ?t" by (cases t; cases "?t") simp_all
    have old: "smap_ok (t_members (r_team x t))" "set (t_members (r_team x t)) = {sp \<in> set (r_members x). c_team c (snd sp) = t}"
      "distinct (t_observers (r_team x t))" "set (t_observers (r_team x t)) = snd ` set (t_members (r_team x t))"
      using so by (auto simp: seats_ok_def team_ok_def)
    have "?s \<notin> fst ` set (t_members (r_team x t))" unfolding old(2) using same t by fastforce
    moreover have "p \<notin> set (t_observers (r_team x t))" unfolding old(2,4) using uniq t by fastforce
    moreover have "{sp \<in> set (r_members x). c_team ?c (snd sp) = t} = insert (?s, p) {sp \<in> set (r_members x). c_team c (snd sp) = t}"
    proof (rule set_eqI)
      fix sp show "sp \<in> {sp \<in> set (r_members x). c_team ?c (snd sp) = t} \<longleftrightarrow> sp \<in> insert (?s, p) {sp \<in> set (r_members x). c_team c (snd sp) = t}"
        using s uniq [of sp] t by (cases "snd sp = p") auto
    qed
    ultimately show ?thesis using t old
      by (simp add: team_ok_def switch_room_def AddMember_def AddObserver_def set_smap_insert_new)
  qed
  show ?thesis using so team by (simp add: seats_ok_def switch_room_def pids_def)
qed

lemma inv_switch:
  assumes i: "inv c" and r: "r < MAX_ROOM_COUNT" and p: "p \<in> pids (c_rooms c ! r)"
  shows "inv (c_switch r p c)"
proof -
  let ?x = "c_rooms c ! r" and ?c = "c_switch r p c"
  let ?y = "switch_room (c_serial c p) p (c_team c p) ?x"
  have so: "seats_ok c r ?x" and ph: "phase_ok c ?x" using inv_room [OF i r] by simp_all
  have py: "pids ?y = pids ?x" by (simp add: pids_def switch_room_def)
  show ?thesis
  proof (rule inv_room_change [OF i r, where P = "{p}" and x = ?y])
    show "seats_ok ?c r ?y"
      using seats_switch [OF so p] seats_core_cong [of ?c "c\<lparr>c_team := (c_team c)(p := other_team (c_team c p))\<rparr>"] by (simp add: c_switch_def)
    have "phase_ok ?c ?y = phase_ok c ?x" by (simp add: phase_ok_def py c_switch_def) (simp add: switch_room_def)
    then show "phase_ok ?c ?y" using ph by simp
    show "pids ?y \<subseteq> connected c" using inv_in_room(3) [OF i r] py by auto
    show "lists_ok ?c"
      by (rule lists_ok_same [OF inv_parts(1) [OF i]]) (use r inv_parts(5) [OF i] in \<open>auto simp: c_switch_def switch_room_def nth_list_update\<close>)
    show "lobby_ok ?c" by (rule lobby_ok_same [OF inv_parts(2) [OF i]]) (simp_all add: c_switch_def)
    show "short_names ?c" using inv_parts(4) [OF i] by (simp add: short_names_def c_switch_def)
    show "\<forall>q \<in> connected c. q \<in> {p} \<union> pids ?x \<longrightarrow> c_state ?c q \<in> outside \<or> q \<in> pids ?y" using py p by auto
  qed (use inv_one_room [OF i] r p in \<open>auto simp: c_switch_def\<close>)
qed

section \<open>All players of a room\<close>

definition c_all :: "ePlayerState \<Rightarrow> nat \<Rightarrow> core \<Rightarrow> core" where
  "c_all st r c = c\<lparr>c_state := (\<lambda>q. if q \<in> pids (c_rooms c ! r) then st else c_state c q),
     c_load := (\<lambda>q. if st = PLAYER_LOADING \<and> q \<in> pids (c_rooms c ! r) then False else c_load c q)\<rparr>"

lemma distinct_mapD: "distinct (map f xs) \<Longrightarrow> distinct xs"
  by (simp add: distinct_map)

lemma room_players:
  assumes "seats_ok c r (c_rooms c ! r)"
  shows "set (c_room_players r c) = pids (c_rooms c ! r)" "distinct (c_room_players r c)"
proof -
  let ?x = "c_rooms c ! r"
  have ser: "\<forall>sp \<in> set (r_members ?x). c_serial c (snd sp) = fst sp" using assms by (simp add: seats_ok_def)
  have t: "smap_ok (t_members (r_team ?x t))" "set (t_members (r_team ?x t)) = {sp \<in> set (r_members ?x). c_team c (snd sp) = t}" for t
    using assms by (auto simp: seats_ok_def team_ok_def)
  have d: "distinct (map snd (t_members (r_team ?x t)))" for t
  proof -
    have "map fst (t_members (r_team ?x t)) = map (c_serial c) (map snd (t_members (r_team ?x t)))" using t(2) ser by auto
    with smap_ok_distinct [OF t(1)] have "distinct (map (c_serial c) (map snd (t_members (r_team ?x t))))" by metis
    then show ?thesis by (rule distinct_mapD)
  qed
  have cover: "c_team c q = TEAM_RED \<or> c_team c q = TEAM_BLUE" for q using eTeamType.exhaust by blast
  have "snd ` {sp \<in> set (r_members ?x). c_team c (snd sp) = TEAM_RED} \<union> snd ` {sp \<in> set (r_members ?x). c_team c (snd sp) = TEAM_BLUE} = pids ?x"
    unfolding pids_def using cover by blast
  then show "set (c_room_players r c) = pids ?x" by (simp add: c_room_players_def t(2))
  show "distinct (c_room_players r c)" using d by (auto simp: c_room_players_def t(2))
qed

lemma ends_all:
  assumes "mode_frame E" "seats_ok (core w) r (c_rooms (core w) ! r)" "\<forall>p \<in> pids (c_rooms (core w) ! r). c_state (core w) p \<notin> {PLAYER_LOBBY, st}"
    and "st \<noteq> PLAYER_LOBBY" "st = PLAYER_PLAY \<longrightarrow> (\<forall>p \<in> pids (c_rooms (core w) ! r). c_room (c_index (core w) p) (core w) = Some r) \<and> playable r (core w)"
  shows "ends (ChangePlayerFSM E r st w) (core_is (c_all st r (core w)))"
proof -
  note ps = room_players [OF assms(2)]
  have "ends (ChangePlayerFSM E r st w) (core_is (fold (c_move st) (c_room_players r (core w)) (core w)))"
    by (rule ends_ChangePlayerFSM [OF assms(1)]) (use ps assms(4,5) in \<open>auto simp: c_move_ok_def\<close>)
  moreover have "fold (c_move st) (c_room_players r (core w)) (core w) = c_all st r (core w)"
    unfolding c_all_def using ps assms(3,4) by (subst fold_move) auto
  ultimately show ?thesis by simp
qed

section \<open>The start of the loading\<close>

definition set_state :: "nat \<Rightarrow> eRoomState \<Rightarrow> core \<Rightarrow> core" where
  "set_state r st c = c\<lparr>c_rooms := (c_rooms c)[r := (c_rooms c ! r)\<lparr>r_state := st\<rparr>]\<rparr>"

definition c_start :: "nat \<Rightarrow> core \<Rightarrow> core" where
  "c_start r c = c_all PLAYER_LOADING r (set_state r ROOM_LOADING c)"

lemma wait_OnLoadingStart_ok:
  assumes frame: "mode_frame E" and i: "inv (core w)" and r: "r < MAX_ROOM_COUNT" and st: "r_state (c_rooms (core w) ! r) = ROOM_WAIT"
  shows "ends (wait_OnLoadingStart E r p w) (core_is (if m_pRoomChief (c_rooms (core w) ! r) = Some p then c_start r (core w) else core w))"
proof -
  let ?x = "c_rooms (core w) ! r"
  have so: "seats_ok (core w) r ?x" and ph: "phase_ok (core w) ?x" using inv_room [OF i r] by simp_all
  have len: "r < length (c_rooms (core w))" using inv_parts(5) [OF i] r by simp
  obtain q where q: "m_pRoomChief ?x = Some q" using ph st by (auto simp: phase_ok_def)
  have rm: "\<forall>p \<in> pids ?x. c_state (core w) p = PLAYER_ROOM" using ph st by (simp add: phase_ok_def)
  have chk: "CheckPlayerState r PLAYER_ROOM w"
    using rm room_players(1) [OF so] by (simp add: CheckPlayerState_def team_players_def core_reads c_room_players_def)
  define v where "v = upd_room r (\<lambda>x. x\<lparr>r_state := ROOM_LOADING\<rparr>) w"
  have v: "core v = set_state r ROOM_LOADING (core w)" by (simp add: v_def core_simps set_state_def)
  have "seats_ok (core v) r (c_rooms (core v) ! r)"
    using so len seats_room_cong [of "?x\<lparr>r_state := ROOM_LOADING\<rparr>" ?x] seats_core_cong [of "core v" "core w"] by (simp add: v set_state_def)
  then have "ends (ChangePlayerFSM E r PLAYER_LOADING v) (core_is (c_start r (core w)))"
    unfolding c_start_def v [symmetric] by (rule ends_all [OF frame]) (use rm len in \<open>simp_all add: v set_state_def pids_def\<close>)
  then have "ends (room_ChangeState E r ROOM_LOADING w) (\<lambda>(_, w'). core w' = c_start r (core w))"
    using st by (auto simp: room_ChangeState_def room_state_OnLeave_def room_state_OnEnter_def core_reads v_def [symmetric] elim!: ends_mono)
  then show ?thesis using q chk by (auto simp: wait_OnLoadingStart_def core_reads elim!: ends_mono)
qed

text \<open>A step that changes the state of a room and of all its members, inside a game.\<close>

lemma inv_all:
  assumes i: "inv c" and r: "r < MAX_ROOM_COUNT" and some: "r_state (c_rooms c ! r) \<noteq> ROOM_NONE"
    and rooms: "c_rooms c' = (c_rooms c)[r := x]" and st: "c_state c' = (\<lambda>q. if q \<in> pids (c_rooms c ! r) then st else c_state c q)"
    and same: "c_map c' = c_map c" "c_serial c' = c_serial c" "c_modes c' = c_modes c" "c_pool c' = c_pool c" "c_fresh c' = c_fresh c"
      "c_team c' = c_team c" "c_index c' = c_index c" "c_lobby c' = c_lobby c" "c_empty c' = c_empty c" "c_active c' = c_active c" "c_name c' = c_name c"
    and x: "r_members x = r_members (c_rooms c ! r)" "r_observers x = r_observers (c_rooms c ! r)" "r_team x = r_team (c_rooms c ! r)"
      "m_pRoomChief x = m_pRoomChief (c_rooms c ! r)" "m_GameMode x = m_GameMode (c_rooms c ! r)" "r_peers x = r_peers (c_rooms c ! r)"
    and new: "r_state x \<in> {ROOM_LOADING, ROOM_PLAY}" "st \<in> allowed (r_state x)" "st \<notin> outside"
      "r_state x = ROOM_PLAY \<longrightarrow> (\<exists>m \<in> set (c_modes c). m_pCurrentGameMode x = Some m)"
  shows "inv c'"
proof -
  let ?x = "c_rooms c ! r"
  have so: "seats_ok c r ?x" and ph: "phase_ok c ?x" using inv_room [OF i r] by simp_all
  have px: "pids x = pids ?x" by (simp add: pids_def x)
  show ?thesis
  proof (rule inv_room_change [OF i r rooms same(1-5), where P = "pids ?x"])
    show "seats_ok c' r x" using so seats_core_cong [OF same(2,6,7)] seats_room_cong [OF x(1-3)] by simp
    show "phase_ok c' x" using ph new some unfolding phase_ok_def px x same st by auto
    show "pids x \<subseteq> connected c" using inv_in_room(3) [OF i r] px by auto
    show "lists_ok c'" by (rule lists_ok_same [OF inv_parts(1) [OF i] same(9,10)])
      (use new(1) some in \<open>auto simp: rooms nth_list_update inv_parts(5) [OF i] r\<close>)
    have "\<forall>p \<in> connected c. c_state c' p = PLAYER_LOBBY \<longleftrightarrow> c_state c p = PLAYER_LOBBY"
      using inv_in_room(5) [OF i r] new(3) by (auto simp: st outside_def)
    then show "lobby_ok c'" by (rule lobby_ok_same [OF inv_parts(2) [OF i] same(8,1)])
    show "short_names c'" using inv_parts(4) [OF i] by (simp add: short_names_def same)
    show "\<forall>r' < MAX_ROOM_COUNT. r' \<noteq> r \<longrightarrow> pids ?x \<inter> pids (c_rooms c ! r') = {}" using inv_one_room [OF i r] by blast
  qed (use px in \<open>auto simp: st same\<close>)
qed

lemma inv_start:
  assumes "inv c" "r < MAX_ROOM_COUNT" "r_state (c_rooms c ! r) = ROOM_WAIT"
  shows "inv (c_start r c)"
  by (rule inv_all [OF assms(1,2), where x = "(c_rooms c ! r)\<lparr>r_state := ROOM_LOADING\<rparr>" and st = PLAYER_LOADING])
    (use assms inv_parts(5) [OF assms(1)] in \<open>auto simp: c_start_def set_state_def c_all_def outside_def pids_def\<close>)

section \<open>The end of the loading\<close>

definition c_peer :: "nat \<Rightarrow> nat \<Rightarrow> peer_info \<Rightarrow> core \<Rightarrow> core" where
  "c_peer r p info c = c\<lparr>c_rooms := (c_rooms c)[r := (c_rooms c ! r)\<lparr>r_peers := AddPeer (c_serial c p) info (r_peers (c_rooms c ! r))\<rparr>]\<rparr>"

definition c_play :: "nat \<Rightarrow> core \<Rightarrow> core" where
  "c_play r c = c_all PLAYER_PLAY r (c\<lparr>c_rooms := (c_rooms c)[r := (c_rooms c ! r)\<lparr>r_state := ROOM_PLAY, m_pCurrentGameMode := Some (m_GameMode (c_rooms c ! r))\<rparr>]\<rparr>)"

lemma inv_peer:
  assumes i: "inv c" and r: "r < MAX_ROOM_COUNT" and p: "p \<in> pids (c_rooms c ! r)" and st: "r_state (c_rooms c ! r) \<noteq> ROOM_WAIT"
  shows "inv (c_peer r p info c)"
proof -
  let ?x = "c_rooms c ! r" and ?c = "c_peer r p info c"
  let ?y = "?x\<lparr>r_peers := AddPeer (c_serial c p) info (r_peers ?x)\<rparr>"
  have so: "seats_ok c r ?x" and ph: "phase_ok c ?x" using inv_room [OF i r] by simp_all
  have py: "pids ?y = pids ?x" by (simp add: pids_def)
  obtain s where s: "(s, p) \<in> set (r_members ?x)" using p by (auto simp: pids_def)
  then have "c_serial c p = s" using so by (auto simp: seats_ok_def)
  then have key: "c_serial c p \<in> fst ` set (r_members ?x)" using s by force
  show ?thesis
  proof (rule inv_room_change [OF i r, where P = "{}" and x = ?y])
    show "seats_ok ?c r ?y" using so seats_core_cong [of ?c c] seats_room_cong [of ?y ?x] by (simp add: c_peer_def)
    show "phase_ok ?c ?y" using ph key st unfolding phase_ok_def py by (auto simp: c_peer_def AddPeer_def keys_smap_insert)
    show "pids ?y \<subseteq> connected c" using inv_in_room(3) [OF i r] py by auto
    show "lists_ok ?c"
      by (rule lists_ok_same [OF inv_parts(1) [OF i]]) (use r inv_parts(5) [OF i] in \<open>auto simp: c_peer_def nth_list_update\<close>)
    show "lobby_ok ?c" by (rule lobby_ok_same [OF inv_parts(2) [OF i]]) (simp_all add: c_peer_def)
    show "short_names ?c" using inv_parts(4) [OF i] by (simp add: short_names_def c_peer_def)
  qed (use py in \<open>auto simp: c_peer_def\<close>)
qed

lemma inv_play:
  assumes i: "inv c" and r: "r < MAX_ROOM_COUNT" and st: "r_state (c_rooms c ! r) = ROOM_LOADING"
  shows "inv (c_play r c)"
proof -
  have "m_GameMode (c_rooms c ! r) \<in> set (c_modes c)" using inv_room [OF i r] st by (auto simp: phase_ok_def)
  then show ?thesis
    by (intro inv_all [OF i r, where x = "(c_rooms c ! r)\<lparr>r_state := ROOM_PLAY, m_pCurrentGameMode := Some (m_GameMode (c_rooms c ! r))\<rparr>" and st = PLAYER_PLAY])
      (use st r inv_parts(5) [OF i] in \<open>auto simp: c_play_def c_all_def outside_def pids_def\<close>)
qed

lemma room_to_play_ok:
  assumes frame: "mode_frame E" and i: "inv (core w)" and r: "r < MAX_ROOM_COUNT" and st: "r_state (c_rooms (core w) ! r) = ROOM_LOADING"
  shows "ends (do { (_, w2) \<leftarrow> room_ChangeState E r ROOM_PLAYREADY w; (_, w3) \<leftarrow> room_ChangeState E r ROOM_PLAY w2; Some w3 })
    (core_is (c_play r (core w)))"
proof -
  let ?x = "c_rooms (core w) ! r" and ?c = "core w"
  let ?mode = "m_GameMode ?x"
  have so: "seats_ok ?c r ?x" and ph: "phase_ok ?c ?x" using inv_room [OF i r] by simp_all
  have len: "r < length (c_rooms ?c)" using inv_parts(5) [OF i] r by simp
  have loading: "\<forall>p \<in> pids ?x. c_state ?c p = PLAYER_LOADING" using ph st by (simp add: phase_ok_def)
  have mode: "?mode \<in> set (c_modes ?c)" using ph st by (auto simp: phase_ok_def)
  have index: "\<forall>p \<in> pids ?x. c_index ?c p = int r" using so by (simp add: seats_ok_def)
  let ?c1 = "c_all PLAYER_PLAYREADY r (set_state r ROOM_PLAYREADY ?c)"
  have first: "ends (room_ChangeState E r ROOM_PLAYREADY w) (\<lambda>(_, w'). core w' = ?c1)"
  proof -
    define v where "v = set_spawns r (upd_room r (\<lambda>x. x\<lparr>r_state := ROOM_PLAYREADY\<rparr>) w)"
    have v: "core v = set_state r ROOM_PLAYREADY ?c" by (simp add: v_def core_simps set_state_def)
    have "seats_ok (core v) r (c_rooms (core v) ! r)"
      using so len seats_room_cong [of "?x\<lparr>r_state := ROOM_PLAYREADY\<rparr>" ?x] seats_core_cong [of "core v" ?c] by (simp add: v set_state_def)
    then have "ends (ChangePlayerFSM E r PLAYER_PLAYREADY v) (core_is ?c1)"
      unfolding v [symmetric] by (rule ends_all [OF frame]) (use loading len in \<open>simp_all add: v set_state_def pids_def\<close>)
    then show ?thesis using st
      by (auto simp: room_ChangeState_def room_state_OnLeave_def room_state_OnEnter_def core_reads v_def [symmetric] elim!: ends_mono)
  qed
  have second: "ends (room_ChangeState E r ROOM_PLAY w1) (\<lambda>(_, w'). core w' = c_play r ?c)" if w1: "core w1 = ?c1" for w1
  proof -
    let ?y = "?x\<lparr>r_state := ROOM_PLAY, m_pCurrentGameMode := Some ?mode\<rparr>"
    define v where "v = snd (SetGameMode r ?mode (upd_room r (\<lambda>x. x\<lparr>r_state := ROOM_PLAY\<rparr>) w1))"
    have v: "core v = ?c1\<lparr>c_rooms := (c_rooms ?c)[r := ?y]\<rparr>"
      using mode len by (simp add: v_def SetGameMode_def core_simps core_reads w1 c_all_def set_state_def)
    have c1: "c_serial ?c1 = c_serial ?c" "c_team ?c1 = c_team ?c" "c_index ?c1 = c_index ?c" "c_modes ?c1 = c_modes ?c"
      by (simp_all add: c_all_def set_state_def)
    have py: "pids ?y = pids ?x" by (simp add: pids_def)
    have ready: "\<forall>p \<in> pids ?x. c_state ?c1 p = PLAYER_PLAYREADY" using len by (simp add: c_all_def set_state_def pids_def)
    have vr: "c_rooms (core v) ! r = ?y" using len by (simp add: v)
    have room: "c_room (int r) (core v) = Some r" using r vr by (simp add: c_room_def)
    have "ends (ChangePlayerFSM E r PLAYER_PLAY v) (core_is (c_all PLAYER_PLAY r (core v)))"
    proof (rule ends_all [OF frame])
      show "seats_ok (core v) r (c_rooms (core v) ! r)"
        using so seats_room_cong [of ?y ?x] seats_core_cong [of "core v" ?c] unfolding vr by (simp add: v c1)
      show "\<forall>p \<in> pids (c_rooms (core v) ! r). c_state (core v) p \<notin> {PLAYER_LOBBY, PLAYER_PLAY}"
        using ready unfolding vr py by (simp add: v)
      show "PLAYER_PLAY = PLAYER_PLAY \<longrightarrow> (\<forall>p \<in> pids (c_rooms (core v) ! r). c_room (c_index (core v) p) (core v) = Some r) \<and> playable r (core v)"
        using index mode room unfolding vr py playable_def by (simp add: v c1)
    qed simp
    moreover have "c_all PLAYER_PLAY r (core v) = c_play r ?c"
      unfolding c_play_def c_all_def vr py using len by (auto simp: v c_all_def set_state_def pids_def intro!: field_wise)
    ultimately have players: "ends (ChangePlayerFSM E r PLAYER_PLAY v) (core_is (c_play r ?c))" by simp
    have px: "c_rooms (c_play r ?c) ! r = ?y" "c_modes (c_play r ?c) = c_modes ?c" using len by (simp_all add: c_play_def c_all_def)
    have enter: "ends (mode_OnEnter E r ?mode u) (\<lambda>(b, w'). b \<and> core w' = c_play r ?c)" if u: "core u = c_play r ?c" for u
    proof -
      let ?u = "upd_room r (\<lambda>x. x\<lparr>m_pCurrentGameMode := Some ?mode\<rparr>) u"
      have "?mode \<in> set (game_modes ?u)" using mode px by (simp add: core_reads core_simps u)
      then obtain b w' where "run_mode E r ?mode (ModeOnEnter ?mode) ?u = Some (b, w')" "core w' = core ?u"
        using frame unfolding mode_frame_def by blast
      moreover have "core ?u = c_play r ?c" using px by (simp add: core_simps u) (simp add: c_play_def c_all_def)
      ultimately show ?thesis using mode px by (simp add: mode_OnEnter_def core_reads u)
    qed
    have tell: "ends (PropagateMessage r MsgPeerList u) (core_is (c_play r ?c))" if u: "core u = c_play r ?c" for u
    proof -
      have "\<forall>p \<in> set (r_observers (c_rooms (core u) ! r)). message_ok MsgPeerList (core u) p"
        using so index r px by (simp add: u seats_ok_def c_room_def) (simp add: c_play_def c_all_def)
      then show ?thesis using ends_PropagateMessage [of u r MsgPeerList] by (simp add: u)
    qed
    have mode1: "m_GameMode (the_room r (upd_room r (\<lambda>x. x\<lparr>r_state := ROOM_PLAY\<rparr>) w1)) = ?mode"
      using len by (simp add: core_reads core_simps w1 c_all_def set_state_def)
    have "ends (room_state_OnEnter E r ROOM_PLAY (upd_room r (\<lambda>x. x\<lparr>r_state := ROOM_PLAY\<rparr>) w1)) (core_is (c_play r ?c))"
      unfolding room_state_OnEnter_def eRoomState.case SFRoomPlay_OnEnter_def Let_def mode1 v_def [symmetric] ends_bind
      by (rule ends_mono [OF players], rule ends_mono [OF enter], assumption) (auto simp: tell)
    moreover have "r_state (the_room r w1) = ROOM_PLAYREADY" using len by (simp add: core_reads w1 c_all_def set_state_def)
    ultimately show ?thesis
      by (auto simp: room_ChangeState_def room_state_OnLeave_def elim!: ends_mono)
  qed
  show ?thesis unfolding ends_bind
    by (rule ends_mono [OF first]) (auto simp del: ends_bind simp: ends_bind intro!: ends_mono [OF second])
qed

end
