(* ===== verification/GameEvents.thy ===== *)
theory GameEvents
  imports GamePhase
begin

text \<open>
  The abstract room system: one transition relation on the core, whose steps keep the invariant, and
  the proof that every packet handler of the code makes steps of this system and never fails.
\<close>

section \<open>Transition systems\<close>

text \<open>A transition relation and a property that every transition keeps: so does every run.\<close>

locale preserved =
  fixes step :: "'s \<Rightarrow> 's \<Rightarrow> bool" and good :: "'s \<Rightarrow> bool"
  assumes keep: "\<lbrakk>step s t; good s\<rbrakk> \<Longrightarrow> good t"
begin

lemma keep_all: "\<lbrakk>step\<^sup>*\<^sup>* s t; good s\<rbrakk> \<Longrightarrow> good t"
  by (induction rule: rtranclp_induct) (auto intro: keep)

end

section \<open>The abstract room system\<close>

definition loaded :: "nat \<Rightarrow> core \<Rightarrow> core" where
  "loaded p c = c\<lparr>c_load := (c_load c)(p := True)\<rparr>"

definition c_gone :: "nat \<Rightarrow> core \<Rightarrow> core" where
  "c_gone p c = (c_move PLAYER_NONE p c)\<lparr>c_pool := c_pool c @ [p], c_map := smap_erase (c_serial c p) (c_map c)\<rparr>"

text \<open>The core after a connection: player \<open>p\<close> was free and is now called \<open>s\<close>; only \<open>p\<close> changes.\<close>

definition c_connected :: "nat \<Rightarrow> nat \<Rightarrow> core \<Rightarrow> core \<Rightarrow> bool" where
  "c_connected s p c c' \<longleftrightarrow>
     (\<forall>q. q \<noteq> p \<longrightarrow> c_state c' q = c_state c q \<and> c_serial c' q = c_serial c q \<and> c_index c' q = c_index c q \<and>
       c_team c' q = c_team c q \<and> c_load c' q = c_load c q \<and> c_name c' q = c_name c q) \<and>
     c_state c' p = PLAYER_INIT \<and> c_serial c' p = s \<and> c_team c' p = TEAM_RED \<and> \<not> c_load c' p \<and>
     (c_name c' p = [] \<or> c_name c' p = c_name c p) \<and>
     c_map c' = smap_insert s p (c_map c) \<and> c_lobby c' = c_lobby c \<and> c_rooms c' = c_rooms c \<and> c_empty c' = c_empty c \<and>
     c_active c' = c_active c \<and> c_modes c' = c_modes c \<and>
     (c_pool c = p # c_pool c' \<and> c_fresh c' = c_fresh c \<or> c_pool c = [] \<and> c_pool c' = [] \<and> p = c_fresh c \<and> c_fresh c' = c_fresh c + 1)"

inductive cstep :: "core \<Rightarrow> core \<Rightarrow> bool" where
  connect: "c_connected s p c c' \<Longrightarrow> cstep c c'"
| name: "\<lbrakk>p \<in> connected c; c_state c p = PLAYER_INIT; length (c_str u) < 100\<rbrakk> \<Longrightarrow> cstep c (c\<lparr>c_name := (c_name c)(p := u)\<rparr>)"
| login: "\<lbrakk>p \<in> connected c; c_state c p = PLAYER_INIT\<rbrakk> \<Longrightarrow> cstep c (c_move PLAYER_LOGIN p c)"
| to_lobby: "\<lbrakk>p \<in> connected c; c_state c p = PLAYER_LOGIN\<rbrakk> \<Longrightarrow> cstep c (c_move PLAYER_LOBBY p c)"
| opens: "\<lbrakk>p \<in> connected c; c_state c p = PLAYER_LOBBY; c_empty c \<noteq> []; mode \<in> set (c_modes c)\<rbrakk> \<Longrightarrow>
    cstep c (c_move PLAYER_ROOM p (c_open (snd (hd (c_empty c))) p mode c))"
| enters: "\<lbrakk>p \<in> connected c; c_state c p = PLAYER_LOBBY; r < MAX_ROOM_COUNT; r_state (c_rooms c ! r) = ROOM_WAIT;
    length (r_observers (c_rooms c ! r)) < MAX_ROOM_MEMBER\<rbrakk> \<Longrightarrow> cstep c (c_move PLAYER_ROOM p (c_join r p c))"
| enters_late: "\<lbrakk>p \<in> connected c; c_state c p = PLAYER_LOBBY; r < MAX_ROOM_COUNT; r_state (c_rooms c ! r) = ROOM_PLAY;
    length (r_observers (c_rooms c ! r)) < MAX_ROOM_MEMBER\<rbrakk> \<Longrightarrow> cstep c (c_move PLAYER_LOADING p (c_join r p c))"
| leaves: "\<lbrakk>r < MAX_ROOM_COUNT; p \<in> pids (c_rooms c ! r)\<rbrakk> \<Longrightarrow> cstep c (c_move PLAYER_LOBBY p (c_unpeer r p (c_leave r p c)))"
| switches: "\<lbrakk>r < MAX_ROOM_COUNT; p \<in> pids (c_rooms c ! r); r_state (c_rooms c ! r) = ROOM_WAIT\<rbrakk> \<Longrightarrow> cstep c (c_switch r p c)"
| starts: "\<lbrakk>r < MAX_ROOM_COUNT; r_state (c_rooms c ! r) = ROOM_WAIT; m_pRoomChief (c_rooms c ! r) = Some p; p \<in> pids (c_rooms c ! r)\<rbrakk> \<Longrightarrow> cstep c (c_start r c)"
| loads: "\<lbrakk>r < MAX_ROOM_COUNT; p \<in> pids (c_rooms c ! r); r_state (c_rooms c ! r) = ROOM_LOADING\<rbrakk> \<Longrightarrow> cstep c (c_peer r p info (loaded p c))"
| plays: "\<lbrakk>r < MAX_ROOM_COUNT; r_state (c_rooms c ! r) = ROOM_LOADING; \<forall>p \<in> pids (c_rooms c ! r). c_load c p\<rbrakk> \<Longrightarrow> cstep c (c_play r c)"
| plays_late: "\<lbrakk>r < MAX_ROOM_COUNT; p \<in> pids (c_rooms c ! r); r_state (c_rooms c ! r) = ROOM_PLAY\<rbrakk> \<Longrightarrow> cstep c (c_move PLAYER_PLAY p (loaded p c))"
| gone: "\<lbrakk>p \<in> connected c; c_state c p \<in> outside\<rbrakk> \<Longrightarrow> cstep c (c_gone p c)"

section \<open>What each event does\<close>

text \<open>
  The core after an event is a function of the core before it, apart from the uninitialised members of
  a new player. \<open>missing\<close> tells that peer-to-peer addresses are asked for and the player has sent
  none; \<open>info\<close> are the addresses of the player.
\<close>

abbreviation left :: "nat \<Rightarrow> nat \<Rightarrow> core \<Rightarrow> core" where
  "left r p c \<equiv> c_move PLAYER_LOBBY p (c_unpeer r p (c_leave r p c))"

definition enter_effect :: "nat \<Rightarrow> nat \<Rightarrow> core \<Rightarrow> core" where
  "enter_effect r p c =
     (if length (r_observers (c_rooms c ! r)) \<ge> MAX_ROOM_MEMBER then c
      else if r_state (c_rooms c ! r) = ROOM_WAIT then c_move PLAYER_ROOM p (c_join r p c)
      else if r_state (c_rooms c ! r) = ROOM_PLAY then c_move PLAYER_LOADING p (c_join r p c)
      else c)"

definition lobby_effect :: "bool \<Rightarrow> nat \<Rightarrow> packet \<Rightarrow> core \<Rightarrow> core" where
  "lobby_effect missing p pkt c = (case pkt of
       PktEnterRoom i _ \<Rightarrow> (if missing then c else case c_room i c of None \<Rightarrow> c | Some r \<Rightarrow> enter_effect r p c)
     | PktCreateRoom mode \<Rightarrow>
         (if missing \<or> c_empty c = [] then c else c_move PLAYER_ROOM p (c_open (snd (hd (c_empty c))) p mode c))
     | _ \<Rightarrow> c)"

definition wait_effect :: "nat \<Rightarrow> nat \<Rightarrow> packet \<Rightarrow> core \<Rightarrow> core" where
  "wait_effect r p pkt c = (case pkt of
       PktChangeTeam \<Rightarrow> c_switch r p c
     | PktLeaveRoom \<Rightarrow> left r p c
     | PktLoadingStart \<Rightarrow> (if m_pRoomChief (c_rooms c ! r) = Some p then c_start r c else c)
     | _ \<Rightarrow> c)"

text \<open>A member of a loading room reports that it has loaded; the last report starts the game.\<close>

definition load_effect :: "nat \<Rightarrow> nat \<Rightarrow> peer_info \<Rightarrow> core \<Rightarrow> core" where
  "load_effect r p info c = (let d = c_peer r p info (loaded p c)
     in if \<forall>q \<in> pids (c_rooms d ! r). c_load d q then c_play r d else d)"

definition packet_effect :: "bool \<Rightarrow> peer_info \<Rightarrow> nat \<Rightarrow> packet \<Rightarrow> core \<Rightarrow> core" where
  "packet_effect missing info p pkt c = (let r = nat (c_index c p) in case c_state c p of
       PLAYER_INIT \<Rightarrow> (case pkt of PktLogin u _ \<Rightarrow> c\<lparr>c_name := (c_name c)(p := u)\<rparr> | _ \<Rightarrow> c)
     | PLAYER_LOGIN \<Rightarrow> (if pkt = PktEnterLobby then c_move PLAYER_LOBBY p c else c)
     | PLAYER_LOBBY \<Rightarrow> lobby_effect missing p pkt c
     | PLAYER_ROOM \<Rightarrow> wait_effect r p pkt c
     | PLAYER_LOADING \<Rightarrow>
         (if pkt \<noteq> PktLoadingComplete then c
          else if r_state (c_rooms c ! r) = ROOM_LOADING then load_effect r p info c
          else c_move PLAYER_PLAY p (loaded p c))
     | PLAYER_PLAY \<Rightarrow> (if pkt = PktLeaveRoom then left r p c else c)
     | _ \<Rightarrow> c)"

definition disconnect_effect :: "nat \<Rightarrow> core \<Rightarrow> core" where
  "disconnect_effect p c = c_gone p (if c_state c p \<in> outside then c else left (nat (c_index c p)) p c)"

fun event_effect :: "'m world \<Rightarrow> event \<Rightarrow> core \<Rightarrow> bool" where
  "event_effect w (EvConnect s) c' = (\<exists>p. c_connected s p (core w) c')"
| "event_effect w (EvTimer t) c' = (c' = core w)"
| "event_effect w (EvData s pkt) c' = (c' = (case map_of (PlayerMap w) s of None \<Rightarrow> core w
     | Some p \<Rightarrow> packet_effect (peer_missing p w) (m_info (players w p)) p pkt (core w)))"
| "event_effect w (EvDB s result) c' = (c' = (case map_of (PlayerMap w) s of None \<Rightarrow> core w
     | Some p \<Rightarrow> if m_state (players w p) = PLAYER_INIT \<and> result = 0 \<and> names w (m_username (players w p)) = None
         then c_move PLAYER_LOGIN p (core w) else core w))"
| "event_effect w (EvDisconnect s) c' = (c' = (case map_of (PlayerMap w) s of None \<Rightarrow> core w
     | Some p \<Rightarrow> disconnect_effect p (core w)))"

section \<open>The steps keep the invariant\<close>

text \<open>A move of a player between states outside the rooms.\<close>

lemma inv_move_outside:
  assumes i: "inv c" and p: "p \<in> connected c" "c_state c p \<in> outside" and st: "st \<in> outside"
  shows "inv (c_move st p c)"
proof -
  have no: "\<forall>r < MAX_ROOM_COUNT. p \<notin> pids (c_rooms c ! r)" using outside_not_seated [OF i p(2)] by blast
  show ?thesis
  proof (rule inv_room_change [OF i, where r = 0 and P = "{p}" and x = "c_rooms c ! 0"])
    show "seats_ok (c_move st p c) 0 (c_rooms c ! 0)"
      using inv_room [OF i, of 0] seats_core_cong [of "c_move st p c" c] by (simp add: MAX_ROOM_COUNT_def)
    show "phase_ok (c_move st p c) (c_rooms c ! 0)"
      using inv_room [OF i, of 0] no phase_cong [of "c_rooms c ! 0" "c_move st p c" c] by (auto simp: MAX_ROOM_COUNT_def)
    show "pids (c_rooms c ! 0) \<subseteq> connected c" using inv_in_room(3) [OF i, of 0] by (auto simp: MAX_ROOM_COUNT_def)
    show "lists_ok (c_move st p c)" by (rule lists_ok_same [OF inv_parts(1) [OF i]]) simp_all
    show "lobby_ok (c_move st p c)" by (rule lobby_ok_move [OF inv_parts(3,2) [OF i] p(1)])
    show "short_names (c_move st p c)" using inv_parts(4) [OF i] by (simp add: short_names_def)
  qed (use no st in \<open>auto simp: MAX_ROOM_COUNT_def\<close>)
qed

text \<open>Names and loading flags are not part of the invariant, apart from the length of a name.\<close>

lemma inv_same:
  assumes i: "inv c" and same: "c_state c' = c_state c" "c_serial c' = c_serial c" "c_index c' = c_index c" "c_team c' = c_team c"
      "c_map c' = c_map c" "c_lobby c' = c_lobby c" "c_rooms c' = c_rooms c" "c_empty c' = c_empty c" "c_active c' = c_active c"
      "c_modes c' = c_modes c" "c_pool c' = c_pool c" "c_fresh c' = c_fresh c" and short: "short_names c'"
  shows "inv c'"
proof -
  have "seats_ok c' r x = seats_ok c r x" "phase_ok c' x = phase_ok c x" for r x
    using seats_core_cong phase_cong by (metis same)+
  moreover have "lists_ok c' = lists_ok c" "lobby_ok c' = lobby_ok c" "people_ok c' = people_ok c"
    by (simp_all add: lists_ok_def lobby_ok_def people_ok_def same)
  ultimately show ?thesis using i short by (simp add: inv_def same)
qed

lemma inv_loaded: "inv c \<Longrightarrow> inv (loaded p c)"
  by (rule inv_same) (simp_all add: loaded_def inv_def short_names_def)

lemma inv_plays_late:
  assumes i: "inv c" and r: "r < MAX_ROOM_COUNT" and p: "p \<in> pids (c_rooms c ! r)" and st: "r_state (c_rooms c ! r) = ROOM_PLAY"
  shows "inv (c_move PLAYER_PLAY p c)"
proof -
  let ?x = "c_rooms c ! r" and ?c = "c_move PLAYER_PLAY p c"
  have so: "seats_ok c r ?x" and ph: "phase_ok c ?x" using inv_room [OF i r] by simp_all
  show ?thesis
  proof (rule inv_room_change [OF i r, where P = "{p}" and x = ?x])
    show "seats_ok ?c r ?x" using so seats_core_cong [of ?c c] by simp
    show "phase_ok ?c ?x" using ph st unfolding phase_ok_def by simp
    show "pids ?x \<subseteq> connected c" using inv_in_room(3) [OF i r] by auto
    show "lists_ok ?c" by (rule lists_ok_same [OF inv_parts(1) [OF i]]) simp_all
    show "lobby_ok ?c" by (rule lobby_ok_move [OF inv_parts(3,2) [OF i] inv_in_room(3) [OF i r p]])
    show "short_names ?c" using inv_parts(4) [OF i] by (simp add: short_names_def)
  qed (use inv_one_room [OF i] r p in auto)
qed

lemma inv_gone:
  assumes i: "inv c" and p: "p \<in> connected c" "c_state c p \<in> outside"
  shows "inv (c_gone p c)"
proof -
  let ?c = "c_gone p c"
  have no: "p \<notin> pids (c_rooms c ! r)" if "r < MAX_ROOM_COUNT" for r using outside_not_seated [OF i p(2) that] .
  note pe = inv_parts(3) [OF i, unfolded people_ok_def]
  obtain s where s: "(s, p) \<in> set (c_map c)" using p(1) by auto
  have same: "fst sp = c_serial c p \<longleftrightarrow> snd sp = p" if sp: "sp \<in> set (c_map c)" for sp
  proof
    assume "fst sp = c_serial c p"
    moreover have "c_serial c p = s" using pe s by auto
    ultimately show "snd sp = p" using smap_key_unique [of "c_map c" s "snd sp" p] pe s sp by (cases sp) simp
  qed (use pe sp in auto)
  have map: "set (c_map ?c) = {sp \<in> set (c_map c). snd sp \<noteq> p}" using same by (auto simp: c_gone_def set_smap_erase)
  then have con: "connected ?c = connected c - {p}" by auto
  have room: "seats_ok ?c r (c_rooms ?c ! r) \<and> phase_ok ?c (c_rooms ?c ! r)" if r: "r < MAX_ROOM_COUNT" for r
  proof -
    have "\<forall>q \<in> pids (c_rooms c ! r). c_state ?c q = c_state c q" using no [OF r] by (auto simp: c_gone_def)
    then have "phase_ok ?c (c_rooms c ! r) = phase_ok c (c_rooms c ! r)" by (rule phase_cong) (simp add: c_gone_def)
    moreover have "seats_ok ?c r (c_rooms c ! r) = seats_ok c r (c_rooms c ! r)" by (rule seats_core_cong) (simp_all add: c_gone_def)
    ultimately show ?thesis using inv_room [OF i r] by (simp add: c_gone_def)
  qed
  have "lobby_ok (c_move PLAYER_NONE p c)" by (rule lobby_ok_move [OF inv_parts(3,2) [OF i] p(1)])
  then have "lobby_ok ?c" unfolding lobby_ok_def map by (auto simp: c_gone_def)
  moreover have "people_ok ?c"
  proof -
    have "\<forall>r < MAX_ROOM_COUNT. pids (c_rooms c ! r) \<subseteq> connected ?c" using pe no con by auto
    moreover have "\<forall>q \<in> connected ?c. c_state ?c q \<in> outside \<or> (\<exists>r < MAX_ROOM_COUNT. q \<in> pids (c_rooms c ! r))"
      using pe unfolding con by (auto simp: c_gone_def)
    moreover have "\<forall>sp \<in> set (c_map ?c). c_serial c (snd sp) = fst sp" using pe unfolding map by simp
    moreover have "smap_ok (c_map ?c)" "c_pool ?c = c_pool c @ [p]" "c_fresh ?c = c_fresh c" "c_rooms ?c = c_rooms c" "c_serial ?c = c_serial c"
      using pe by (simp_all add: c_gone_def)
    moreover have "p \<notin> set (c_pool c)" using pe p(1) by auto
    ultimately show ?thesis using pe p(1) unfolding people_ok_def con by auto
  qed
  moreover have "lists_ok ?c" by (rule lists_ok_same [OF inv_parts(1) [OF i]]) (simp_all add: c_gone_def)
  moreover have "short_names ?c" using inv_parts(4) [OF i] by (simp add: short_names_def c_gone_def)
  moreover have "length (c_rooms ?c) = MAX_ROOM_COUNT" using inv_parts(5) [OF i] by (simp add: c_gone_def)
  ultimately show ?thesis using room by (simp add: inv_def)
qed

lemma inv_connect:
  assumes i: "inv c" and k: "c_connected s p c c'"
  shows "inv c'"
proof -
  note pe = inv_parts(3) [OF i, unfolded people_ok_def]
  have q: "c_state c' q = c_state c q" "c_serial c' q = c_serial c q" "c_index c' q = c_index c q" "c_team c' q = c_team c q"
      "c_name c' q = c_name c q" if "q \<noteq> p" for q
    using k that by (auto simp: c_connected_def)
  have new: "c_state c' p = PLAYER_INIT" "c_serial c' p = s" "c_map c' = smap_insert s p (c_map c)"
    using k by (auto simp: c_connected_def)
  have same: "c_lobby c' = c_lobby c" "c_rooms c' = c_rooms c" "c_empty c' = c_empty c" "c_active c' = c_active c" "c_modes c' = c_modes c"
    using k by (auto simp: c_connected_def)
  have pool: "p \<notin> connected c \<and> distinct (c_pool c') \<and> set (c_pool c') \<subseteq> set (c_pool c) \<and> p \<notin> set (c_pool c') \<and> c_fresh c \<le> c_fresh c' \<and> p < c_fresh c'"
    using k pe by (auto simp: c_connected_def)
  have map: "set (c_map c') = set (c_map c) \<or> s \<notin> fst ` set (c_map c) \<and> set (c_map c') = insert (s, p) (set (c_map c))"
  proof (cases "s \<in> fst ` set (c_map c)")
    case True
    then show ?thesis using smap_insert_old [of "c_map c" s p] pe by (simp add: new)
  next
    case False
    then show ?thesis using set_smap_insert_new [OF False, of p] by (simp add: new)
  qed
  have con: "connected c \<subseteq> connected c' \<and> connected c' \<subseteq> insert p (connected c)" using map by auto
  have sub: "pids (c_rooms c ! r) \<subseteq> connected c" "p \<notin> pids (c_rooms c ! r)" if "r < MAX_ROOM_COUNT" for r using pe pool that by auto
  have room: "seats_ok c' r (c_rooms c ! r) \<and> phase_ok c' (c_rooms c ! r)" if r: "r < MAX_ROOM_COUNT" for r
  proof -
    have n: "\<forall>x \<in> pids (c_rooms c ! r). x \<noteq> p" using sub(2) [OF r] by auto
    have "seats_ok c' r (c_rooms c ! r) = seats_ok c r (c_rooms c ! r)" using n q by (intro seats_cong) auto
    moreover have "phase_ok c' (c_rooms c ! r) = phase_ok c (c_rooms c ! r)" using n q same by (intro phase_cong) auto
    ultimately show ?thesis using inv_room [OF i r] by simp
  qed
  have lob: "{sp \<in> set (c_map c'). c_state c' (snd sp) = PLAYER_LOBBY} = {sp \<in> set (c_map c). c_state c (snd sp) = PLAYER_LOBBY}"
  proof (rule set_eqI)
    fix sp
    have "snd sp \<noteq> p" if "sp \<in> set (c_map c)" using pool that by force
    then show "sp \<in> {sp \<in> set (c_map c'). c_state c' (snd sp) = PLAYER_LOBBY} \<longleftrightarrow> sp \<in> {sp \<in> set (c_map c). c_state c (snd sp) = PLAYER_LOBBY}"
      using map q [of "snd sp"] new(1) by (cases "snd sp = p") auto
  qed
  then have "lobby_ok c'" using inv_parts(2) [OF i] by (simp add: lobby_ok_def same)
  moreover have "people_ok c'"
  proof -
    have ser: "c_serial c' (snd sp) = fst sp" if sp: "sp \<in> set (c_map c')" for sp
    proof (cases "snd sp = p")
      case True
      then have "sp \<notin> set (c_map c)" using pool by force
      then have "sp = (s, p)" using map sp by auto
      then show ?thesis by (simp add: new)
    next
      case False
      then have "sp \<in> set (c_map c)" using map sp by auto
      then show ?thesis using pe q(2) [OF False] by simp
    qed
    have st: "c_state c' x \<in> outside \<or> (\<exists>r < MAX_ROOM_COUNT. x \<in> pids (c_rooms c ! r))" if x: "x \<in> connected c'" for x
    proof (cases "x = p")
      case False
      then have "x \<in> connected c" using con x by auto
      then show ?thesis using pe q(1) [OF False] by auto
    qed (simp add: new outside_def)
    have ok: "smap_ok (c_map c')" using pe by (simp add: new)
    have old: "set (c_pool c) \<inter> connected c = {}" "\<forall>x \<in> set (c_pool c) \<union> connected c. x < c_fresh c" using pe by simp_all
    have "set (c_pool c') \<subseteq> set (c_pool c)" "p \<notin> set (c_pool c')" "p < c_fresh c'" "c_fresh c \<le> c_fresh c'" using pool by simp_all
    note pool' = this
    have free: "set (c_pool c') \<inter> connected c' = {}" using old(1) pool'(1,2) con by blast
    have below: "\<forall>x \<in> set (c_pool c') \<union> connected c'. x < c_fresh c'"
    proof
      fix x assume "x \<in> set (c_pool c') \<union> connected c'"
      then have "x = p \<or> x \<in> set (c_pool c) \<union> connected c" using pool'(1) con by blast
      then show "x < c_fresh c'"
      proof
        assume "x \<in> set (c_pool c) \<union> connected c"
        with old(2) have "x < c_fresh c" by (rule bspec)
        then show ?thesis using pool'(4) by simp
      qed (simp add: pool'(3))
    qed
    have seats: "\<forall>r < MAX_ROOM_COUNT. pids (c_rooms c ! r) \<subseteq> connected c'"
      using subset_trans [OF sub(1) conjunct1 [OF con]] by simp
    have d: "distinct (c_pool c')" using pool by simp
    show ?thesis unfolding people_ok_def same
    proof (intro conjI)
      show "\<forall>sp \<in> set (c_map c'). c_serial c' (snd sp) = fst sp" using ser by blast
      show "\<forall>x \<in> connected c'. c_state c' x \<in> outside \<or> (\<exists>r < MAX_ROOM_COUNT. x \<in> pids (c_rooms c ! r))" using st by blast
    qed (fact ok d free below seats)+
  qed
  moreover have "lists_ok c'" using inv_parts(1) [OF i] by (simp add: lists_ok_def same)
  moreover have "short_names c'" unfolding short_names_def
  proof
    fix x show "length (c_str (c_name c' x)) < 100"
      using k inv_parts(4) [OF i] by (cases "x = p") (auto simp: c_connected_def short_names_def c_str_def)
  qed
  moreover have "length (c_rooms c') = MAX_ROOM_COUNT" using inv_parts(5) [OF i] by (simp add: same)
  ultimately show ?thesis using room by (simp add: inv_def same)
qed

lemma cstep_inv: "\<lbrakk>cstep c c'; inv c\<rbrakk> \<Longrightarrow> inv c'"
proof (induction rule: cstep.induct)
  case (name p c u)
  then have "short_names (c\<lparr>c_name := (c_name c)(p := u)\<rparr>)" using inv_parts(4) [of c] by (simp add: short_names_def)
  then show ?case by (intro inv_same [OF name.prems]) simp_all
next
  case (plays_late r p c)
  then show ?case by (intro inv_plays_late [of _ r] inv_loaded) (simp_all add: loaded_def)
next
  case (loads r p c info)
  then show ?case by (intro inv_peer inv_loaded) (simp_all add: loaded_def)
qed (auto simp: outside_def intro: inv_connect inv_move_outside inv_open inv_enter inv_leave inv_switch inv_start inv_play inv_gone)

text \<open>The steps also keep the registered game modes.\<close>

lemma cstep_modes: "cstep c c' \<Longrightarrow> c_modes c' = c_modes c"
  by (induction rule: cstep.induct)
    (simp_all add: c_connected_def c_open_def c_join_def c_unpeer_def c_leave_def Let_def c_switch_def c_start_def c_all_def set_state_def
      c_peer_def loaded_def c_play_def c_gone_def)

interpretation room_system: preserved cstep inv
  by unfold_locales (rule cstep_inv)

interpretation room_modes: preserved cstep "\<lambda>c. c_modes c = m" for m
  by unfold_locales (simp add: cstep_modes)

lemmas csteps_inv = room_system.keep_all
lemmas csteps_modes = room_modes.keep_all [where m = "c_modes c" for c]

end
