(* ===== verification/GameHandlers.thy ===== *)
theory GameHandlers
  imports GameEvents
begin

text \<open>
  Every handler of the code returns and makes steps of the abstract room system, for packets and
  network events with the bounds of \<open>event_ok\<close>: names fit the buffers they are copied to, the packet
  with the addresses of a player has all its bytes, and rooms are created with a registered game mode.
\<close>

section \<open>Handlers of the rooms\<close>

lemma wait_OnEnterRoom_ok:
  assumes frame: "mode_frame E" and i: "inv (core w)" and r: "r < MAX_ROOM_COUNT" and p: "p \<notin> pids (c_rooms (core w) ! r)"
  shows "ends (wait_OnEnterRoom E r p w) (core_is (if length (r_observers (c_rooms (core w) ! r)) < MAX_ROOM_MEMBER
    then c_move PLAYER_ROOM p (c_join r p (core w)) else core w))"
proof -
  have so: "seats_ok (core w) r (c_rooms (core w) ! r)" using inv_room [OF i r] by simp
  have "ends (room_OnEnter r p w) (\<lambda>(b, w'). b = (length (r_observers (c_rooms (core w) ! r)) < MAX_ROOM_MEMBER) \<and>
      core w' = (if b then c_join r p (core w) else core w))"
    by (rule room_OnEnter_ok) (use inv_parts(4,5) [OF i] r p so in \<open>auto simp: seats_ok_def\<close>)
  then show ?thesis unfolding wait_OnEnterRoom_def ends_bind
    by (rule ends_mono) (auto split: if_splits intro!: ends_mono [OF ends_move_player [OF frame]] simp: c_move_ok_def)
qed

lemma play_OnEnterRoom_ok:
  assumes frame: "mode_frame E" and i: "inv (core w)" and r: "r < MAX_ROOM_COUNT" and p: "p \<notin> pids (c_rooms (core w) ! r)"
  shows "ends (play_OnEnterRoom E r p w) (core_is (if length (r_observers (c_rooms (core w) ! r)) < MAX_ROOM_MEMBER
    then c_move PLAYER_LOADING p (c_join r p (core w)) else core w))"
proof -
  have so: "seats_ok (core w) r (c_rooms (core w) ! r)" using inv_room [OF i r] by simp
  have "ends (room_OnEnter r p w) (\<lambda>(b, w'). b = (length (r_observers (c_rooms (core w) ! r)) < MAX_ROOM_MEMBER) \<and>
      core w' = (if b then c_join r p (core w) else core w))"
    by (rule room_OnEnter_ok) (use inv_parts(4,5) [OF i] r p so in \<open>auto simp: seats_ok_def\<close>)
  then show ?thesis unfolding play_OnEnterRoom_def ends_bind
    by (rule ends_mono) (auto split: if_splits intro!: ends_mono [OF ends_move_player [OF frame]] simp: c_move_ok_def core_simps)
qed

text \<open>A member of the room that asks to enter it again is refused.\<close>

lemma play_OnEnterRoom_again:
  assumes "inv (core w)" "r < MAX_ROOM_COUNT" "p \<in> pids (c_rooms (core w) ! r)"
  shows "play_OnEnterRoom E r p w = Some w"
proof -
  have "p \<in> set (r_observers (the_room r w))" using assms inv_room [OF assms(1,2)] by (simp add: core_reads seats_ok_def)
  then show ?thesis by (simp add: play_OnEnterRoom_def room_OnEnter_def AddObserver_def)
qed

lemma left_ok: "\<lbrakk>inv c; r < MAX_ROOM_COUNT; p \<in> pids (c_rooms c ! r)\<rbrakk> \<Longrightarrow> c_move_ok PLAYER_LOBBY p (c_unpeer r p (c_leave r p c))"
  using inv_chiefs [OF inv_leave, of c r p] by (simp add: c_move_ok_def chiefs_ok_def)

lemma unpeer_none: "r_peers (c_rooms c ! r) = [] \<Longrightarrow> r < length (c_rooms c) \<Longrightarrow> c_unpeer r p (c_leave r p c) = c_leave r p c"
  by (auto simp: c_unpeer_def c_leave_def leave_room_def DeletePeer_def Let_def intro!: field_wise)

lemma wait_OnLeaveRoom_ok:
  assumes frame: "mode_frame E" and i: "inv (core w)" and r: "r < MAX_ROOM_COUNT" and p: "p \<in> pids (c_rooms (core w) ! r)"
    and st: "r_state (c_rooms (core w) ! r) = ROOM_WAIT"
  shows "ends (wait_OnLeaveRoom E r p w) (core_is (left r p (core w)))"
proof -
  have "r_peers (c_rooms (core w) ! r) = []" using inv_room [OF i r] st by (simp add: phase_ok_def)
  then have same: "c_unpeer r p (c_leave r p (core w)) = c_leave r p (core w)" using inv_parts(5) [OF i] r by (intro unpeer_none) simp_all
  have "ends (move_player E PLAYER_LOBBY p v) (core_is (left r p (core w)))" if "core v = c_leave r p (core w)" for v
    using ends_move_player [OF frame, of PLAYER_LOBBY p v] left_ok [OF i r p] by (simp add: that same)
  then show ?thesis unfolding wait_OnLeaveRoom_def ends_bind
    by (auto intro!: ends_mono [OF room_OnLeave_ok [OF frame i r p]] elim!: ends_mono simp: core_simps)
qed

lemma game_OnLeaveRoom_ok:
  assumes frame: "mode_frame E" and i: "inv (core w)" and r: "r < MAX_ROOM_COUNT" and p: "p \<in> pids (c_rooms (core w) ! r)"
  shows "ends (game_OnLeaveRoom E r p w) (core_is (left r p (core w)))"
proof -
  let ?l = "c_leave r p (core w)"
  have tell: "ends (PropagateMessage r m v) (core_is ?l)" if "core v = ?l" "m = MsgDestroyPlayer s \<or> m = MsgDeletePeer s" for m s v
    using ends_PropagateMessage [of v r m] that by auto
  have unpeer: "core (upd_room r (\<lambda>x. x\<lparr>r_peers := DeletePeer (serial_of v p) (r_peers x)\<rparr>) v) = c_unpeer r p ?l" if "core v = ?l" for v
    by (simp add: core_simps core_reads that c_unpeer_def)
  have move: "ends (move_player E PLAYER_LOBBY p v) (core_is (left r p (core w)))" if "core v = c_unpeer r p ?l" for v
    using ends_move_player [OF frame, of PLAYER_LOBBY p v] left_ok [OF i r p] by (simp add: that)
  have "ends (do { w2 \<leftarrow> PropagateMessage r (MsgDestroyPlayer (serial_of v p)) v;
       w3 \<leftarrow> PropagateMessage r (MsgDeletePeer (serial_of w2 p)) w2;
       let w4 = upd_room r (\<lambda>x. x\<lparr>r_peers := DeletePeer (serial_of w3 p) (r_peers x)\<rparr>) w3;
       w5 \<leftarrow> move_player E PLAYER_LOBBY p w4;
       Some (SendLeaveRoom p w5) }) (core_is (left r p (core w)))" if v: "core v = ?l" for v
    unfolding ends_bind Let_def
    by (rule ends_mono [OF tell [OF v]], simp, rule ends_mono [OF tell], assumption, simp)
      (auto simp: core_simps intro!: ends_mono [OF move [OF unpeer]])
  then show ?thesis unfolding game_OnLeaveRoom_def ends_bind [of "room_OnLeave E r p w"]
    by (auto intro!: ends_mono [OF room_OnLeave_ok [OF frame i r p]] simp del: ends_bind)
qed

text \<open>Leaving, in any phase.\<close>

lemma room_OnLeaveRoom_ok:
  assumes frame: "mode_frame E" and i: "inv (core w)" and r: "r < MAX_ROOM_COUNT" and p: "p \<in> pids (c_rooms (core w) ! r)"
  shows "ends (room_OnLeaveRoom E r p w) (core_is (left r p (core w)))"
proof -
  have ph: "phase_ok (core w) (c_rooms (core w) ! r)" using inv_room [OF i r] by simp
  moreover have "r_members (c_rooms (core w) ! r) \<noteq> []" using p by (auto simp: pids_def)
  ultimately consider "r_state (c_rooms (core w) ! r) = ROOM_WAIT" | "r_state (c_rooms (core w) ! r) = ROOM_LOADING" | "r_state (c_rooms (core w) ! r) = ROOM_PLAY"
    by (auto simp: phase_ok_def)
  then show ?thesis
    using wait_OnLeaveRoom_ok [OF frame i r p] game_OnLeaveRoom_ok [OF frame i r p] by cases (simp_all add: room_OnLeaveRoom_def core_reads)
qed

lemma loading_OnLoadingComplete_ok:
  assumes frame: "mode_frame E" and i: "inv c" and w: "core w = loaded p c" and r: "r < MAX_ROOM_COUNT" and p: "p \<in> pids (c_rooms c ! r)"
    and st: "r_state (c_rooms c ! r) = ROOM_LOADING"
  shows "ends (loading_OnLoadingComplete E r p w) (core_is (load_effect r p (m_info (players w p)) c))"
proof -
  define v where "v = upd_room r (\<lambda>x. x\<lparr>r_peers := AddPeer (serial_of w p) (m_info (players w p)) (r_peers x)\<rparr>) w"
  define d where "d = c_peer r p (m_info (players w p)) (loaded p c)"
  have v: "core v = d" by (simp add: v_def d_def core_simps core_reads w c_peer_def)
  have len: "r < length (c_rooms c)" using inv_parts(5) [OF i] r by simp
  have d: "inv d" unfolding d_def by (rule inv_peer [OF inv_loaded [OF i] r]) (use p st in \<open>simp_all add: loaded_def\<close>)
  have std: "r_state (c_rooms d ! r) = ROOM_LOADING" using len st by (simp add: d_def c_peer_def loaded_def)
  have so: "seats_ok d r (c_rooms d ! r)" using inv_room [OF d r] by simp
  have chk: "CheckLoadingComplete r v \<longleftrightarrow> (\<forall>q \<in> pids (c_rooms d ! r). c_load d q)"
    using room_players(1) [OF so] by (simp add: CheckLoadingComplete_def team_players_def core_reads c_room_players_def v)
  have play: "ends (do { (_, w2) \<leftarrow> room_ChangeState E r ROOM_PLAYREADY v; (_, w3) \<leftarrow> room_ChangeState E r ROOM_PLAY w2; Some w3 }) (core_is (c_play r d))"
    using room_to_play_ok [OF frame, of v r] d r std unfolding v by simp
  show ?thesis
  proof (cases "CheckLoadingComplete r v")
    case True
    then have "loading_OnLoadingComplete E r p w = do { (_, w2) \<leftarrow> room_ChangeState E r ROOM_PLAYREADY v; (_, w3) \<leftarrow> room_ChangeState E r ROOM_PLAY w2; Some w3 }"
      by (simp add: loading_OnLoadingComplete_def Let_def v_def [symmetric])
    with play have "ends (loading_OnLoadingComplete E r p w) (core_is (c_play r d))" by (simp only:)
    moreover have "\<forall>q \<in> pids (c_rooms d ! r). c_load d q" using True chk by simp
    ultimately show ?thesis
      by (elim ends_mono) (simp add: load_effect_def d_def [symmetric])
  next
    case False
    then have "loading_OnLoadingComplete E r p w = Some v" by (simp add: loading_OnLoadingComplete_def Let_def v_def [symmetric])
    moreover have "\<not> (\<forall>q \<in> pids (c_rooms d ! r). c_load d q)" using False chk by simp
    then have "load_effect r p (m_info (players w p)) c = d" unfolding load_effect_def d_def [symmetric] Let_def by (rule if_not_P)
    ultimately show ?thesis using v by simp
  qed
qed

lemma play_OnLoadingComplete_ok:
  assumes frame: "mode_frame E" and i: "inv c" and w: "core w = loaded p c" and r: "r < MAX_ROOM_COUNT" and p: "p \<in> pids (c_rooms c ! r)"
  shows "ends (play_OnLoadingComplete E r p w) (core_is (c_move PLAYER_PLAY p (loaded p c)))"
proof -
  let ?v = "fold (\<lambda>(_, q) w. if q = p then w else SendToClient q (OutCreatePlayer (serial_of w p) (m_spawnIndex (players w p))) w) (r_members (the_room r w)) w"
  have v: "core ?v = loaded p c" unfolding w [symmetric] by (rule core_fold) (auto simp: core_simps split: prod.split)
  have "c_move_ok PLAYER_PLAY p (loaded p c)"
    using inv_in_room(4,6) [OF i r p] by (simp add: c_move_ok_def loaded_def c_room_def playable_def)
  then show ?thesis using ends_move_player [OF frame, of PLAYER_PLAY p ?v] unfolding play_OnLoadingComplete_def v by simp
qed

section \<open>Packets of a player\<close>

fun packet_ok :: "int list \<Rightarrow> packet \<Rightarrow> bool" where
  "packet_ok modes (PktLogin u pw) = (length (c_str u) < 100 \<and> length (c_str u) + 1 + length (c_str pw) + 1 \<le> MAX_MESSAGE_BUFFER)"
| "packet_ok modes (PktCreateRoom mode) = (mode \<in> set modes)"
| "packet_ok modes (PktPlayerIP bytes) = (19 \<le> length bytes)"
| "packet_ok modes _ = True"

lemma ends_fst: "ends (do { (_, w') \<leftarrow> m; Some w' }) P = ends m (\<lambda>(_, w'). P w')"
  by (simp add: split_def)

lemma seated:
  assumes "inv (core w)" "p \<in> connected (core w)" "c_state (core w) p \<notin> outside"
  obtains r where "r < MAX_ROOM_COUNT" "p \<in> pids (c_rooms (core w) ! r)" "GetRoom (m_roomIndex (players w p)) w = Some r"
proof -
  obtain r where r: "r < MAX_ROOM_COUNT" "p \<in> pids (c_rooms (core w) ! r)" by (rule inv_playing [OF assms])
  moreover have "GetRoom (m_roomIndex (players w p)) w = Some r" using inv_in_room(4) [OF assms(1) r] by (simp add: GetRoom_core core_reads)
  ultimately show ?thesis by (rule that)
qed

lemma lobby_OnEnterRoom_ok:
  assumes frame: "mode_frame E" and i: "inv (core w)" and p: "c_state (core w) p = PLAYER_LOBBY"
  shows "ends (lobby_OnEnterRoom E p i' mode w) (core_is (lobby_effect (peer_missing p w) p (PktEnterRoom i' mode) (core w)))"
proof (cases "peer_missing p w \<or> GetRoom i' w = None")
  case True
  then show ?thesis by (auto simp: lobby_OnEnterRoom_def lobby_effect_def GetRoom_core)
next
  case False
  then obtain r where g: "GetRoom i' w = Some r" by auto
  then have r: "r < MAX_ROOM_COUNT" "r_state (c_rooms (core w) ! r) \<noteq> ROOM_NONE" by (auto simp: GetRoom_core c_room_def split: if_splits)
  have no: "p \<notin> pids (c_rooms (core w) ! r)" using outside_not_seated [OF i _ r(1)] p by (simp add: outside_def)
  let ?e = "enter_effect r p (core w)"
  have wait: "ends (wait_OnEnterRoom E r p w) (core_is ?e)" if "r_state (c_rooms (core w) ! r) = ROOM_WAIT"
    using wait_OnEnterRoom_ok [OF frame i r(1) no] that by (auto simp: enter_effect_def elim!: ends_mono split: if_splits)
  have play: "ends (play_OnEnterRoom E r p w) (core_is ?e)" if "r_state (c_rooms (core w) ! r) = ROOM_PLAY"
    using play_OnEnterRoom_ok [OF frame i r(1) no] that by (auto simp: enter_effect_def elim!: ends_mono split: if_splits)
  have "phase_ok (core w) (c_rooms (core w) ! r)" using inv_room [OF i r(1)] by simp
  then have "r_state (c_rooms (core w) ! r) \<in> {ROOM_WAIT, ROOM_LOADING, ROOM_PLAY}" using r(2) by (auto simp: phase_ok_def)
  then have "ends (room_ProcessUserRequest E r p (PktEnterRoom i' mode) w) (\<lambda>(_, w'). core w' = ?e)"
    using wait play by (auto simp: room_ProcessUserRequest_def core_reads wait_ProcessUserRequest_def loading_ProcessUserRequest_def play_ProcessUserRequest_def
        enter_effect_def)
  then show ?thesis using False g by (auto simp: lobby_OnEnterRoom_def lobby_effect_def GetRoom_core core_simps elim!: ends_mono)
qed

lemma lobby_OnCreateRoom_ok:
  assumes frame: "mode_frame E" and i: "inv (core w)"
  shows "ends (lobby_OnCreateRoom E p mode w) (core_is (lobby_effect (peer_missing p w) p (PktCreateRoom mode) (core w)))"
proof -
  have move: "ends (move_player E PLAYER_ROOM p v) (core_is (c_move PLAYER_ROOM p (c_open (snd (hd (c_empty (core w)))) p mode (core w))))"
    if "core v = c_open (snd (hd (c_empty (core w)))) p mode (core w)" for v
    using ends_move_player [OF frame, of PLAYER_ROOM p v] by (simp add: that c_move_ok_def)
  have "ends (do { (b, w1) \<leftarrow> OnCreateRoom E p mode w;
      if b then do { w2 \<leftarrow> move_player E PLAYER_ROOM p w1; Some (SendCreateRoom p mode w2) } else Some w1 })
    (core_is (lobby_effect False p (PktCreateRoom mode) (core w)))"
    unfolding ends_bind [of "OnCreateRoom E p mode w"]
    by (rule ends_mono [OF OnCreateRoom_ok [OF i]]) (auto simp: core_simps lobby_effect_def dest: move elim!: ends_mono split: if_splits)
  then show ?thesis by (simp add: lobby_OnCreateRoom_def lobby_effect_def)
qed

lemma lobby_ProcessPacket_ok:
  assumes frame: "mode_frame E" and i: "inv (core w)" and p: "c_state (core w) p = PLAYER_LOBBY"
    and ok: "packet_ok (game_modes w) pkt"
  shows "ends (lobby_ProcessPacket E p pkt w) (core_is (lobby_effect (peer_missing p w) p pkt (core w)))"
proof -
  have page: "ends (SendRoomPage p w) (core_is (core w))" using SendRoomPage_ok [OF inv_chiefs [OF i], of p] by (simp add: ends_def)
  have other: "lobby_effect m p pkt c = c" if "\<forall>i mode. pkt \<noteq> PktEnterRoom i mode" "\<forall>mode. pkt \<noteq> PktCreateRoom mode" for m c
    using that by (cases pkt) (simp_all add: lobby_effect_def)
  show ?thesis
    using lobby_OnEnterRoom_ok [OF frame i p] lobby_OnCreateRoom_ok [OF frame i, of p] page ok other
    by (cases pkt) (simp_all add: lobby_ProcessPacket_def lobby_OnPlayerIP_def core_simps Let_def)
qed

text \<open>The index of a seated player is that of its room.\<close>

lemma seated_index: "\<lbrakk>inv (core w); r < MAX_ROOM_COUNT; p \<in> pids (c_rooms (core w) ! r)\<rbrakk> \<Longrightarrow> nat (c_index (core w) p) = r"
  using inv_in_room(1) by fastforce

lemma room_ProcessPacket_ok:
  assumes frame: "mode_frame E" and i: "inv (core w)" and p: "p \<in> connected (core w)" "c_state (core w) p = PLAYER_ROOM"
  shows "ends (room_ProcessPacket E p pkt w) (core_is (wait_effect (nat (c_index (core w) p)) p pkt (core w)))"
proof -
  have "c_state (core w) p \<notin> outside" using p(2) by (simp add: outside_def)
  then obtain r where r: "r < MAX_ROOM_COUNT" and pr: "p \<in> pids (c_rooms (core w) ! r)" and g: "GetRoom (m_roomIndex (players w p)) w = Some r"
    by (rule seated [OF i p(1)])
  have st: "r_state (c_rooms (core w) ! r) = ROOM_WAIT" using inv_in_room(2) [OF i r pr] p(2) by (cases "r_state (c_rooms (core w) ! r)") auto
  have len: "r < length (c_rooms (core w))" using inv_parts(5) [OF i] r by simp
  have "ends (room_ProcessUserRequest E r p pkt w) (\<lambda>(_, w'). core w' = wait_effect r p pkt (core w))" if "is_room_packet pkt"
    using that wait_OnLoadingStart_ok [OF frame i r st, of p] wait_OnLeaveRoom_ok [OF frame i r pr st] ChangeTeam_core [OF len, of p] st
    by (cases pkt) (simp_all add: is_room_packet_def room_ProcessUserRequest_def core_reads wait_ProcessUserRequest_def core_simps wait_effect_def)
  moreover have "wait_effect r p pkt (core w) = core w" if "\<not> is_room_packet pkt"
    using that by (cases pkt) (simp_all add: is_room_packet_def wait_effect_def)
  ultimately show ?thesis by (simp add: room_ProcessPacket_def g split_def seated_index [OF i r pr])
qed

lemma loading_ProcessPacket_ok:
  assumes frame: "mode_frame E" and i: "inv (core w)" and p: "p \<in> connected (core w)" "c_state (core w) p = PLAYER_LOADING"
  shows "ends (loading_ProcessPacket E p pkt w) (core_is (packet_effect m (m_info (players w p)) p pkt (core w)))"
proof -
  have "c_state (core w) p \<notin> outside" using p(2) by (simp add: outside_def)
  then obtain r where r: "r < MAX_ROOM_COUNT" and pr: "p \<in> pids (c_rooms (core w) ! r)" and g: "GetRoom (m_roomIndex (players w p)) w = Some r"
    by (rule seated [OF i p(1)])
  let ?v = "upd_player p (\<lambda>x. x\<lparr>m_bLoadingComplete := True\<rparr>) w"
  have v: "core ?v = loaded p (core w)" by (simp add: core_simps loaded_def)
  have info: "m_info (players ?v p) = m_info (players w p)" by (simp add: upd_player_def)
  have std: "r_state (c_rooms (core w) ! r) = ROOM_LOADING \<or> r_state (c_rooms (core w) ! r) = ROOM_PLAY"
    using inv_in_room(2) [OF i r pr] p(2) by (cases "r_state (c_rooms (core w) ! r)") auto
  let ?e = "packet_effect m (m_info (players w p)) p PktLoadingComplete (core w)"
  have eff: "?e = (if r_state (c_rooms (core w) ! r) = ROOM_LOADING then load_effect r p (m_info (players w p)) (core w)
      else c_move PLAYER_PLAY p (loaded p (core w)))"
    by (simp add: packet_effect_def p(2) seated_index [OF i r pr])
  have "r_state (the_room r ?v) = r_state (c_rooms (core w) ! r)" by (simp add: core_reads v) (simp add: loaded_def)
  then have "ends (room_ProcessUserRequest E r p PktLoadingComplete ?v) (\<lambda>(_, w'). core w' = ?e)"
    using std loading_OnLoadingComplete_ok [OF frame i v r pr, unfolded info] play_OnLoadingComplete_ok [OF frame i v r pr] unfolding eff
    by (auto simp: room_ProcessUserRequest_def loading_ProcessUserRequest_def play_ProcessUserRequest_def)
  then show ?thesis by (simp add: loading_ProcessPacket_def g split_def) (simp add: packet_effect_def p(2))
qed

lemma play_ProcessPacket_ok:
  assumes frame: "mode_frame E" and i: "inv (core w)" and p: "p \<in> connected (core w)" "c_state (core w) p = PLAYER_PLAY"
  shows "ends (play_ProcessPacket E p pkt w) (core_is (if pkt = PktLeaveRoom then left (nat (c_index (core w) p)) p (core w) else core w))"
proof -
  have "c_state (core w) p \<notin> outside" using p(2) by (simp add: outside_def)
  then obtain r where r: "r < MAX_ROOM_COUNT" and pr: "p \<in> pids (c_rooms (core w) ! r)" and g: "GetRoom (m_roomIndex (players w p)) w = Some r"
    by (rule seated [OF i p(1)])
  have st: "r_state (c_rooms (core w) ! r) = ROOM_PLAY" using inv_in_room(2) [OF i r pr] p(2) by (cases "r_state (c_rooms (core w) ! r)") auto
  have mode: "ends (mode_request E r k w) (\<lambda>(_, w'). core w' = core w)" for k
    using ends_mode_request [OF frame, of w r k] inv_in_room(6) [OF i r pr] st by (auto simp: playable_def)
  have load: "ends (play_OnLoadingComplete E r p w) (core_is (core w))"
  proof -
    let ?v = "fold (\<lambda>(_, q) w. if q = p then w else SendToClient q (OutCreatePlayer (serial_of w p) (m_spawnIndex (players w p))) w) (r_members (the_room r w)) w"
    have v: "core ?v = core w" by (rule core_fold) (auto simp: core_simps split: prod.split)
    have "m_state (players ?v p) = PLAYER_PLAY" unfolding core_reads(1) v by (rule p(2))
    then show ?thesis by (simp add: play_OnLoadingComplete_def move_player_def player_ChangeState_def v)
  qed
  have "ends (room_ProcessUserRequest E r p pkt w) (\<lambda>(_, w'). core w' = (if pkt = PktLeaveRoom then left r p (core w) else core w))"
    using mode game_OnLeaveRoom_ok [OF frame i r pr] load st play_OnEnterRoom_again [OF i r pr, of E]
    by (cases pkt) (simp_all add: room_ProcessUserRequest_def core_reads play_ProcessUserRequest_def)
  then show ?thesis by (cases "pkt = PktLeaveRoom") (simp_all add: play_ProcessPacket_def g split_def seated_index [OF i r pr])
qed

lemma player_ProcessPacket_ok:
  assumes frame: "mode_frame E" and i: "inv (core w)" and p: "p \<in> connected (core w)" and ok: "packet_ok (game_modes w) pkt"
  shows "ends (player_ProcessPacket E p pkt w) (core_is (packet_effect (peer_missing p w) (m_info (players w p)) p pkt (core w)))"
proof (cases "c_state (core w) p")
  case PLAYER_INIT
  then show ?thesis using ok by (cases pkt) (simp_all add: player_ProcessPacket_def core_reads packet_effect_def init_OnLogin_def core_simps)
next
  case PLAYER_LOGIN
  have "ends (move_player E PLAYER_LOBBY p w) (core_is (c_move PLAYER_LOBBY p (core w)))"
    by (rule ends_move_player [OF frame]) (simp add: c_move_ok_def inv_chiefs [OF i])
  then show ?thesis using PLAYER_LOGIN by (simp add: player_ProcessPacket_def core_reads packet_effect_def)
next
  case PLAYER_LOADING
  then show ?thesis using loading_ProcessPacket_ok [OF frame i p PLAYER_LOADING] by (simp add: player_ProcessPacket_def core_reads)
qed (use lobby_ProcessPacket_ok [OF frame i _ ok, of p] room_ProcessPacket_ok [OF frame i p] play_ProcessPacket_ok [OF frame i p]
  in \<open>simp_all add: player_ProcessPacket_def core_reads packet_effect_def Let_def\<close>)

end
