(* ===== verification/GameServer.thy ===== *)
theory GameServer
  imports GameHandlers
begin

text \<open>
  The events of the server (LogicLayer/CasualGame: SFLogicEntry): connections, packets, the timer, the
  answers of the database and disconnections. Each is handled without a failure and makes steps of the
  abstract room system; so does every sequence of events from the start of the server.
\<close>

section \<open>Events\<close>

lemma OnConnectPlayer_ok:
  assumes frame: "mode_frame E"
  shows "ends (OnConnectPlayer E serial w) (\<lambda>w'. \<exists>p. c_connected serial p (core w) (core w'))"
proof -
  obtain p w1 where a: "pool_Alloc E w = (p, w1)" by (cases "pool_Alloc E w")
  define v where "v = upd_player p (\<lambda>x. x\<lparr>m_state := PLAYER_NONE, m_bLoadingComplete := False, m_teamType := TEAM_RED, m_serial := serial\<rparr>) w1"
  have w1: "(\<forall>q. q \<noteq> p \<longrightarrow> players w1 q = players w q) \<and> (m_username (players w1 p) = [] \<or> m_username (players w1 p) = m_username (players w p)) \<and>
      PlayerMap w1 = PlayerMap w \<and> lobby w1 = lobby w \<and> rooms w1 = rooms w \<and> m_EmptyRoomMap w1 = m_EmptyRoomMap w \<and>
      m_ActiveRoomMap w1 = m_ActiveRoomMap w \<and> game_modes w1 = game_modes w \<and>
      (pool w = p # pool w1 \<and> fresh_player w1 = fresh_player w \<or> pool w = [] \<and> pool w1 = [] \<and> p = fresh_player w \<and> fresh_player w1 = fresh_player w + 1)"
    using a by (auto simp: pool_Alloc_def SFPlayer_ctor_def split: list.splits)
  let ?d = "(c_move PLAYER_INIT p (core v))\<lparr>c_map := smap_insert serial p (c_map (core v))\<rparr>"
  have none: "c_state (core v) p = PLAYER_NONE" by (simp add: core_def v_def upd_player_def)
  have one: "c_connected serial p (core w) ?d"
    unfolding c_connected_def c_move_def using w1 by (auto simp: none) (auto simp: core_def v_def upd_player_def)
  have "ends (move_player E PLAYER_INIT p v) (core_is (c_move PLAYER_INIT p (core v)))" by (rule ends_move_player [OF frame]) (simp add: c_move_ok_def)
  then have "ends (OnConnectPlayer E serial w) (core_is ?d)"
    by (auto simp: OnConnectPlayer_def a v_def [symmetric] core_simps core_reads elim!: ends_mono)
  then show ?thesis by (rule ends_mono) (use one in auto)
qed

text \<open>A client disconnects: its player leaves the room it is in, then the player is free again.\<close>

definition disconnect_rest :: "'m env \<Rightarrow> nat \<Rightarrow> nat \<Rightarrow> 'm world \<Rightarrow> 'm world option" where
  "disconnect_rest E serial p w2 = do {
     w3 \<leftarrow> move_player E PLAYER_NONE p w2;
     let w4 = pool_Release p w3;
     Some (w4\<lparr>PlayerMap := smap_erase serial (PlayerMap w4)\<rparr>)
   }"

lemma disconnect_rest_ok:
  assumes frame: "mode_frame E" and s: "c_serial (core w2) p = serial"
  shows "ends (disconnect_rest E serial p w2) (core_is (c_gone p (core w2)))"
proof -
  have "ends (move_player E PLAYER_NONE p w2) (core_is (c_move PLAYER_NONE p (core w2)))"
    by (rule ends_move_player [OF frame]) (simp add: c_move_ok_def)
  moreover have "core ((pool_Release p w3)\<lparr>PlayerMap := smap_erase serial (PlayerMap (pool_Release p w3))\<rparr>) = c_gone p (core w2)"
    if "core w3 = c_move PLAYER_NONE p (core w2)" for w3 :: "'a world"
    using that s by (simp add: pool_Release_def core_simps core_reads c_gone_def)
  ultimately show ?thesis unfolding disconnect_rest_def Let_def ends_bind ends_Some by (elim ends_mono) (simp only:)
qed

lemma connected_player:
  assumes "inv (core w)" "map_of (PlayerMap w) serial = Some p"
  shows "p \<in> connected (core w)" "c_serial (core w) p = serial"
proof -
  have sp: "(serial, p) \<in> set (c_map (core w))" using assms(2) by (simp add: core_reads map_of_SomeD)
  then show "p \<in> connected (core w)" by force
  have "\<forall>sp \<in> set (c_map (core w)). c_serial (core w) (snd sp) = fst sp" using inv_parts(3) [OF assms(1)] by (simp add: people_ok_def)
  from bspec [OF this sp] show "c_serial (core w) p = serial" by simp
qed

lemma disconnect_in_room:
  assumes frame: "mode_frame E" and i: "inv (core w)" and s: "map_of (PlayerMap w) serial = Some p"
    and r: "r < MAX_ROOM_COUNT" "p \<in> pids (c_rooms (core w) ! r)"
  shows "ends (OnDisconnectPlayer E serial w) (core_is (c_gone p (left r p (core w))))"
proof -
  define w1 where "w1 = DelPlayer p w"
  have w1: "core w1 = core w" by (simp add: w1_def DelPlayer_def core_simps)
  have g: "GetRoom (m_roomIndex (players w1 p)) w1 = Some r" using inv_in_room(4) [OF i r] by (simp add: GetRoom_core core_reads w1)
  have "m_state (players w1 p) \<in> {PLAYER_LOADING, PLAYER_ROOM, PLAYER_PLAY, PLAYER_PLAYEND, PLAYER_PLAYREADY}"
    using inv_in_room(2) [OF i r] by (cases "r_state (c_rooms (core w) ! r)") (auto simp: core_reads w1)
  moreover have "ends (room_OnLeaveRoom E r p w1) (core_is (left r p (core w)))"
    using room_OnLeaveRoom_ok [OF frame, of w1] i r by (simp add: w1)
  moreover have "ends (disconnect_rest E serial p y) (core_is (c_gone p (left r p (core w))))" if y: "core y = left r p (core w)" for y :: "'a world"
  proof -
    have "c_serial (core y) p = serial" using connected_player(2) [OF i s] unfolding y by (simp add: c_unpeer_def c_leave_def Let_def)
    then show ?thesis using disconnect_rest_ok [OF frame, of y p serial] unfolding y by simp
  qed
  ultimately have "ends (do { w2 \<leftarrow> (if m_state (players w1 p) \<in> {PLAYER_LOADING, PLAYER_ROOM, PLAYER_PLAY, PLAYER_PLAYEND, PLAYER_PLAYREADY}
      then do { r \<leftarrow> GetRoom (m_roomIndex (players w1 p)) w1; room_OnLeaveRoom E r p w1 } else Some w1);
      disconnect_rest E serial p w2 }) (core_is (c_gone p (left r p (core w))))"
    using g by (auto elim!: ends_mono)
  then show ?thesis unfolding OnDisconnectPlayer_def disconnect_rest_def by (simp only: s option.case Let_def w1_def [symmetric])
qed

lemma disconnect_outside:
  assumes frame: "mode_frame E" and i: "inv (core w)" and s: "map_of (PlayerMap w) serial = Some p" and out: "c_state (core w) p \<in> outside"
  shows "ends (OnDisconnectPlayer E serial w) (core_is (c_gone p (core w)))"
proof -
  define w1 where "w1 = DelPlayer p w"
  have w1: "core w1 = core w" by (simp add: w1_def DelPlayer_def core_simps)
  have "m_state (players w1 p) \<notin> {PLAYER_LOADING, PLAYER_ROOM, PLAYER_PLAY, PLAYER_PLAYEND, PLAYER_PLAYREADY}"
    using out by (auto simp: core_reads w1 outside_def)
  moreover have "ends (disconnect_rest E serial p w1) (core_is (c_gone p (core w)))"
    using disconnect_rest_ok [OF frame, of w1 p serial] connected_player(2) [OF i s] by (simp add: w1)
  ultimately have "ends (do { w2 \<leftarrow> (if m_state (players w1 p) \<in> {PLAYER_LOADING, PLAYER_ROOM, PLAYER_PLAY, PLAYER_PLAYEND, PLAYER_PLAYREADY}
      then do { r \<leftarrow> GetRoom (m_roomIndex (players w1 p)) w1; room_OnLeaveRoom E r p w1 } else Some w1);
      disconnect_rest E serial p w2 }) (core_is (c_gone p (core w)))"
    by simp
  then show ?thesis unfolding OnDisconnectPlayer_def disconnect_rest_def by (simp only: s option.case Let_def w1_def [symmetric])
qed

lemma OnDisconnectPlayer_ok:
  assumes frame: "mode_frame E" and i: "inv (core w)"
  shows "ends (OnDisconnectPlayer E serial w) (event_effect w (EvDisconnect serial) \<circ> core)"
proof (cases "map_of (PlayerMap w) serial")
  case None
  then show ?thesis by (simp add: OnDisconnectPlayer_def)
next
  case (Some p)
  note p = connected_player [OF i Some]
  show ?thesis
  proof (cases "c_state (core w) p \<in> outside")
    case True
    then show ?thesis using disconnect_outside [OF frame i Some True] Some by (simp add: disconnect_effect_def comp_def)
  next
    case False
    then obtain r where r: "r < MAX_ROOM_COUNT" "p \<in> pids (c_rooms (core w) ! r)" by (rule inv_playing [OF i p(1)])
    then show ?thesis using disconnect_in_room [OF frame i Some r] Some False
      by (simp add: disconnect_effect_def seated_index [OF i r] comp_def)
  qed
qed

lemma OnDBResult_ok:
  assumes frame: "mode_frame E"
  shows "ends (OnDBResult E serial result w) (event_effect w (EvDB serial result) \<circ> core)"
proof (cases "map_of (PlayerMap w) serial")
  case (Some p)
  let ?u = "m_username (players w p)"
  have add: "AddPlayer p w = (if names w ?u = None then (True, w\<lparr>names := (names w)(?u \<mapsto> p)\<rparr>) else (False, w))"
    by (simp add: AddPlayer_def split: option.split)
  have "ends (move_player E PLAYER_LOGIN p (w\<lparr>names := ns\<rparr>)) (core_is (c_move PLAYER_LOGIN p (core w)))" for ns
    using ends_move_player [OF frame, of PLAYER_LOGIN p "w\<lparr>names := ns\<rparr>"] by (simp add: c_move_ok_def core_simps)
  then have "ends (OnDBLogin E p result w) (core_is (if result = 0 \<and> names w ?u = None then c_move PLAYER_LOGIN p (core w) else core w))"
    by (auto simp: OnDBLogin_def add core_simps elim!: ends_mono)
  then show ?thesis using Some by (auto simp: OnDBResult_def comp_def)
qed (simp add: OnDBResult_def)

lemma RoomManager_Update_ok:
  assumes frame: "mode_frame E" and i: "inv (core w)"
  shows "ends (RoomManager_Update E timerId w) (core_is (core w))"
proof -
  have one: "\<exists>w'. room_Update E timerId r v = Some w' \<and> core w' = core v" if r: "r \<in> set (map snd (c_active (core w)))" and v: "core v = core w" for r v
  proof (cases "r_state (c_rooms (core w) ! r) = ROOM_PLAY")
    case True
    have "r < MAX_ROOM_COUNT" using r inv_parts(1) [OF i] by (auto simp: lists_ok_def)
    from inv_room [OF i this] obtain m where m: "m \<in> set (c_modes (core w))" "m_pCurrentGameMode (c_rooms (core w) ! r) = Some m"
      using True by (auto simp: phase_ok_def)
    then have "m \<in> set (game_modes v)" by (simp add: core_reads v)
    then obtain b w' where "run_mode E r m (ModeUpdate timerId) v = Some (b, w')" "core w' = core v"
      using frame unfolding mode_frame_def by blast
    then show ?thesis using True m by (simp add: room_Update_def mode_Update_def core_reads v)
  qed (simp add: room_Update_def core_reads v)
  have "\<exists>w'. for_each (room_Update E timerId) (map snd (c_active (core w))) w = Some w' \<and> core w' = fold (\<lambda>_ c. c) (map snd (c_active (core w))) (core w)"
    by (rule for_each_core [where P = "\<lambda>c. c = core w"]) (use one in auto)
  moreover have "fold (\<lambda>_ c. c) ps (core w) = core w" for ps :: "nat list" by (induction ps) auto
  ultimately show ?thesis by (auto simp: RoomManager_Update_def core_reads ends_def)
qed

fun event_ok :: "int list \<Rightarrow> event \<Rightarrow> bool" where
  "event_ok modes (EvData serial pkt) = packet_ok modes pkt"
| "event_ok modes _ = True"

lemma OnPlayerData_ok:
  assumes frame: "mode_frame E" and i: "inv (core w)" and ok: "packet_ok (game_modes w) pkt"
  shows "ends (OnPlayerData E serial pkt w) (event_effect w (EvData serial pkt) \<circ> core)"
proof (cases "map_of (PlayerMap w) serial")
  case (Some p)
  then show ?thesis using player_ProcessPacket_ok [OF frame i connected_player(1) [OF i Some] ok]
    by (simp add: OnPlayerData_def comp_def)
qed (simp add: OnPlayerData_def)

text \<open>Every event has exactly its effect.\<close>

lemma ProcessPacket_effect:
  assumes frame: "mode_frame E" and i: "inv (core w)" and ok: "event_ok (game_modes w) ev"
  shows "ends (ProcessPacket E ev w) (\<lambda>w'. event_effect w ev (core w'))"
  using OnConnectPlayer_ok [OF frame] OnDisconnectPlayer_ok [OF frame i] OnDBResult_ok [OF frame] OnPlayerData_ok [OF frame i]
    RoomManager_Update_ok [OF frame i] ok
  by (cases ev) (simp_all add: ProcessPacket_def comp_def del: event_effect.simps, simp_all)

section \<open>The effects are transitions of the room system\<close>

lemma lobby_effect_steps:
  assumes p: "p \<in> connected c" "c_state c p = PLAYER_LOBBY" and ok: "packet_ok (c_modes c) pkt"
  shows "cstep\<^sup>*\<^sup>* c (lobby_effect m p pkt c)"
proof -
  have "cstep\<^sup>*\<^sup>* c (enter_effect r p c)" if "c_room i c = Some r" for i r
    using that enters [OF p, of r] enters_late [OF p, of r] by (auto simp: enter_effect_def c_room_def split: if_splits)
  then show ?thesis using opens [OF p] ok by (cases pkt) (auto simp: lobby_effect_def split: option.split)
qed

lemma load_effect_steps:
  assumes i: "inv c" and r: "r < MAX_ROOM_COUNT" "p \<in> pids (c_rooms c ! r)" "r_state (c_rooms c ! r) = ROOM_LOADING"
  shows "cstep\<^sup>*\<^sup>* c (load_effect r p info c)"
proof -
  define d where "d = c_peer r p info (loaded p c)"
  have one: "cstep\<^sup>*\<^sup>* c d" unfolding d_def using loads [OF r] by blast
  have st: "r_state (c_rooms d ! r) = ROOM_LOADING" using r inv_parts(5) [OF i] by (simp add: d_def c_peer_def loaded_def)
  have "cstep\<^sup>*\<^sup>* c (c_play r d)" if "\<forall>q \<in> pids (c_rooms d ! r). c_load d q"
    by (rule rtranclp.rtrancl_into_rtrancl [OF one plays [OF r(1) st that]])
  then show ?thesis using one by (simp add: load_effect_def d_def [symmetric] Let_def)
qed

lemma packet_effect_steps:
  assumes i: "inv c" and p: "p \<in> connected c" and ok: "packet_ok (c_modes c) pkt"
  shows "cstep\<^sup>*\<^sup>* c (packet_effect m info p pkt c)"
proof (cases "c_state c p \<in> outside")
  case True
  then show ?thesis using name [OF p] to_lobby [OF p] lobby_effect_steps [OF p _ ok] ok
    by (cases pkt) (auto simp: packet_effect_def outside_def Let_def)
next
  case False
  then obtain r where r: "r < MAX_ROOM_COUNT" "p \<in> pids (c_rooms c ! r)" by (rule inv_playing [OF i p])
  have idx: "nat (c_index c p) = r" using inv_in_room(1) [OF i r] by simp
  have ph: "c_state c p \<in> allowed (r_state (c_rooms c ! r))" by (rule inv_in_room(2) [OF i r])
  have leave: "cstep\<^sup>*\<^sup>* c (left r p c)" using leaves [OF r] by blast
  have wait: "cstep\<^sup>*\<^sup>* c (wait_effect r p pkt c)" if "r_state (c_rooms c ! r) = ROOM_WAIT"
    using leave switches [OF r that] starts [OF r(1) that _ r(2)] by (cases pkt) (auto simp: wait_effect_def)
  show ?thesis using ph leave wait load_effect_steps [OF i r] plays_late [OF r]
    by (cases "r_state (c_rooms c ! r)") (auto simp: packet_effect_def idx Let_def)
qed

lemma event_effect_steps:
  assumes i: "inv (core w)" and ok: "event_ok (game_modes w) ev" and e: "event_effect w ev c'"
  shows "cstep\<^sup>*\<^sup>* (core w) c'"
proof (cases ev)
  case (EvConnect s)
  then show ?thesis using e connect by auto
next
  case (EvData s pkt)
  then show ?thesis using e ok packet_effect_steps [OF i connected_player(1) [OF i]] by (auto simp: core_reads split: option.splits)
next
  case (EvDB s result)
  then show ?thesis using e login [OF connected_player(1) [OF i]] by (auto simp: core_reads(1) split: option.splits if_splits)
next
  case (EvDisconnect s)
  have "cstep\<^sup>*\<^sup>* (core w) (disconnect_effect p (core w))" if sp: "map_of (PlayerMap w) s = Some p" for p
  proof (cases "c_state (core w) p \<in> outside")
    case True
    then show ?thesis using gone [OF connected_player(1) [OF i sp] True] by (auto simp: disconnect_effect_def)
  next
    case False
    note p = connected_player [OF i sp]
    obtain r where r: "r < MAX_ROOM_COUNT" "p \<in> pids (c_rooms (core w) ! r)" by (rule inv_playing [OF i p(1) False])
    let ?l = "left r p (core w)"
    have "c_map ?l = c_map (core w)" by (simp add: c_unpeer_def c_leave_def Let_def)
    then have "cstep ?l (c_gone p ?l)" using p(1) by (intro gone) (simp_all add: outside_def)
    then show ?thesis using leaves [OF r] False
      by (simp add: disconnect_effect_def seated_index [OF i r])
  qed
  then show ?thesis using EvDisconnect e by (auto split: option.splits)
next
  case (EvTimer t)
  then show ?thesis using e by simp
qed

lemma ProcessPacket_ok:
  assumes frame: "mode_frame E" and i: "inv (core w)" and ok: "event_ok (game_modes w) ev"
  shows "ends (ProcessPacket E ev w) (\<lambda>w'. event_effect w ev (core w') \<and> cstep\<^sup>*\<^sup>* (core w) (core w'))"
  using ProcessPacket_effect [OF assms] by (rule ends_mono) (use event_effect_steps [OF i ok] in blast)

section \<open>Runs of the server\<close>

text \<open>The events of a run are processed in order, from the start of the server.\<close>

definition served :: "'m env \<Rightarrow> bool \<Rightarrow> int list \<Rightarrow> 'm \<Rightarrow> event list \<Rightarrow> 'm world option" where
  "served E p2p modes d evs = for_each (ProcessPacket E) evs (init_world E p2p modes d)"

lemma inv_init: "inv (core (init_world E p2p modes d))"
proof -
  have "smap_ok (map (\<lambda>i. (i, i)) [0..<n])" for n :: nat by (simp add: smap_ok_def comp_def sorted_wrt_upt)
  then show ?thesis
    by (auto simp: inv_def core_def init_world_def empty_room_def lists_ok_def lobby_ok_def people_ok_def short_names_def seats_ok_def
        phase_ok_def team_ok_def pids_def SFPlayer_ctor_def c_str_def)
qed

lemma run_ok:
  assumes frame: "mode_frame E"
  shows "\<lbrakk>inv (core w); \<forall>ev \<in> set evs. event_ok (game_modes w) ev\<rbrakk> \<Longrightarrow>
    ends (for_each (ProcessPacket E) evs w) (\<lambda>w'. inv (core w') \<and> game_modes w' = game_modes w \<and> cstep\<^sup>*\<^sup>* (core w) (core w'))"
proof (induction evs arbitrary: w)
  case (Cons ev evs)
  have "ends (ProcessPacket E ev w) (\<lambda>w'. cstep\<^sup>*\<^sup>* (core w) (core w'))"
    by (rule ends_mono [OF ProcessPacket_ok [OF frame]]) (use Cons.prems in simp_all)
  moreover have "ends (for_each (ProcessPacket E) evs w1) (\<lambda>w'. inv (core w') \<and> game_modes w' = game_modes w \<and> cstep\<^sup>*\<^sup>* (core w) (core w'))"
    if "cstep\<^sup>*\<^sup>* (core w) (core w1)" for w1
    using Cons.IH [of w1] csteps_inv [OF that Cons.prems(1)] csteps_modes [OF that refl] Cons.prems(2) that
    by (auto simp: core_reads elim!: ends_mono)
  ultimately show ?case by (auto elim: ends_mono)
qed simp

text \<open>The worlds of the runs whose packets satisfy \<open>packet_ok\<close>.\<close>

definition game_world :: "'m env \<Rightarrow> int list \<Rightarrow> 'm world \<Rightarrow> bool" where
  "game_world E modes w \<longleftrightarrow> mode_frame E \<and>
     (\<exists>p2p d evs. (\<forall>ev \<in> set evs. event_ok modes ev) \<and> served E p2p modes d evs = Some w)"

lemma game_world_inv:
  assumes "game_world E modes w"
  shows "mode_frame E" "inv (core w)" "game_modes w = modes"
proof -
  show frame: "mode_frame E" using assms by (simp add: game_world_def)
  obtain p2p d evs where e: "\<forall>ev \<in> set evs. event_ok modes ev" "for_each (ProcessPacket E) evs (init_world E p2p modes d) = Some w"
    using assms by (auto simp: game_world_def served_def)
  have "game_modes (init_world E p2p modes d) = modes" by (simp add: init_world_def)
  then show "inv (core w)" "game_modes w = modes" using run_ok [OF frame inv_init [of E p2p modes d], of evs] e by simp_all
qed

lemma game_world_steps:
  assumes "game_world E modes w"
  shows "\<exists>p2p d. cstep\<^sup>*\<^sup>* (core (init_world E p2p modes d)) (core w)"
proof -
  obtain p2p d evs where e: "\<forall>ev \<in> set evs. event_ok modes ev" "for_each (ProcessPacket E) evs (init_world E p2p modes d) = Some w"
    using assms by (auto simp: game_world_def served_def)
  have "\<forall>ev \<in> set evs. event_ok (game_modes (init_world E p2p modes d)) ev" using e(1) by (simp add: init_world_def)
  then have "cstep\<^sup>*\<^sup>* (core (init_world E p2p modes d)) (core w)"
    using run_ok [OF game_world_inv(1) [OF assms] inv_init [of E p2p modes d], of evs] e(2) by simp
  then show ?thesis by blast
qed

end
