(* ===== verification/GameSolo.thy ===== *)
theory GameSolo
  imports GameServer
begin

text \<open>
  A room with one member that plays alone, with a game mode that need not be registered: the invariant
  of the reachable worlds does not cover it, so the steps are followed one by one.
\<close>

section \<open>The room\<close>

definition solo :: "nat \<Rightarrow> nat \<Rightarrow> nat \<Rightarrow> int \<Rightarrow> eRoomState \<Rightarrow> ePlayerState \<Rightarrow> core \<Rightarrow> bool" where
  "solo r s p mode st ps c \<longleftrightarrow> r < MAX_ROOM_COUNT \<and> length (c_rooms c) = MAX_ROOM_COUNT \<and>
     map_of (c_map c) s = Some p \<and> c_serial c p = s \<and> c_index c p = int r \<and> c_state c p = ps \<and>
     (let x = c_rooms c ! r in r_state x = st \<and> r_observers x = [p] \<and> r_members x = [(s, p)] \<and> m_pRoomChief x = Some p \<and>
       t_members (r_team x TEAM_RED) = [(s, p)] \<and> t_members (r_team x TEAM_BLUE) = [] \<and> m_GameMode x = mode)"

lemma solo_world:
  "solo r s p mode st ps (core w) \<longleftrightarrow> r < MAX_ROOM_COUNT \<and> length (rooms w) = MAX_ROOM_COUNT \<and>
     map_of (PlayerMap w) s = Some p \<and> serial_of w p = s \<and> m_roomIndex (players w p) = int r \<and> m_state (players w p) = ps \<and>
     r_state (rooms w ! r) = st \<and> r_observers (rooms w ! r) = [p] \<and> r_members (rooms w ! r) = [(s, p)] \<and>
     m_pRoomChief (rooms w ! r) = Some p \<and> t_members (r_team (rooms w ! r) TEAM_RED) = [(s, p)] \<and>
     t_members (r_team (rooms w ! r) TEAM_BLUE) = [] \<and> m_GameMode (rooms w ! r) = mode"
  by (simp add: solo_def core_def Let_def)

text \<open>The member of a room that has just been created.\<close>

lemma solo_create:
  assumes frame: "mode_frame E" and i: "inv (core w)" and sp: "map_of (PlayerMap w) s = Some p" and lob: "m_state (players w p) = PLAYER_LOBBY"
    and addr: "\<not> peer_missing p w" and e: "m_EmptyRoomMap w = (k, r) # rest"
  shows "ends (ProcessPacket E (EvData s (PktCreateRoom mode)) w) (\<lambda>w'. solo r s p mode ROOM_WAIT PLAYER_ROOM (core w') \<and>
    game_modes w' = game_modes w \<and> m_pCurrentGameMode (the_room r w') = m_pCurrentGameMode (the_room r w))"
proof -
  let ?c = "core w" let ?x = "c_rooms ?c ! r"
  have "(k, r) \<in> set (c_empty ?c)" using e by (simp add: core_reads)
  then have r: "r < MAX_ROOM_COUNT" "r_state ?x = ROOM_NONE" using inv_parts(1) [OF i] by (auto simp: lists_ok_def)
  then have none: "r_members ?x = []" using inv_room [OF i] by (simp add: phase_ok_def)
  have so: "seats_ok ?c r ?x" using inv_room [OF i r(1)] by simp
  then have obs: "r_observers ?x = []" "t_members (r_team ?x t) = []" for t
    using none by (simp_all add: seats_ok_def team_ok_def pids_def)
  have len: "length (c_rooms ?c) = MAX_ROOM_COUNT" by (rule inv_parts(5) [OF i])
  have s: "map_of (c_map ?c) s = Some p" "c_serial ?c p = s" using sp connected_player(2) [OF i sp] by (simp_all add: core_reads)
  have "ProcessPacket E (EvData s (PktCreateRoom mode)) w = lobby_OnCreateRoom E p mode w"
    using sp lob by (simp add: ProcessPacket_def OnPlayerData_def player_ProcessPacket_def lobby_ProcessPacket_def)
  moreover have "lobby_effect (peer_missing p w) p (PktCreateRoom mode) ?c = c_move PLAYER_ROOM p (c_open r p mode ?c)"
    using addr e by (simp add: lobby_effect_def core_reads)
  ultimately have "ends (ProcessPacket E (EvData s (PktCreateRoom mode)) w) (core_is (c_move PLAYER_ROOM p (c_open r p mode ?c)))"
    using lobby_OnCreateRoom_ok [OF frame i, of p mode] by simp
  then show ?thesis
    by (rule ends_mono)
      (use r len s obs none in \<open>simp add: solo_def core_reads c_open_def open_room_def join_room_def Let_def AddMember_def AddObserver_def c_select_def\<close>)
qed

lemma solo_start:
  assumes "solo r s p mode ROOM_WAIT PLAYER_ROOM (core w)"
  shows "ends (ProcessPacket E (EvData s PktLoadingStart) w) (\<lambda>w'. solo r s p mode ROOM_LOADING PLAYER_LOADING (core w') \<and>
    game_modes w' = game_modes w \<and> m_pCurrentGameMode (the_room r w') = m_pCurrentGameMode (the_room r w))"
  using assms unfolding solo_world
  by (simp add: ProcessPacket_def OnPlayerData_def player_ProcessPacket_def room_ProcessPacket_def GetRoom_def is_room_packet_def
      room_ProcessUserRequest_def wait_ProcessUserRequest_def wait_OnLoadingStart_def CheckPlayerState_def team_players_def
      room_ChangeState_def room_state_OnLeave_def room_state_OnEnter_def ChangePlayerFSM_def move_player_def player_ChangeState_def
      player_OnLeave_def player_OnEnter_def SendToClient_def upd_player_def upd_room_def the_room_def Let_def)

text \<open>The report of the only member: the room is ready, then it plays.\<close>

definition solo_ready :: "nat \<Rightarrow> nat \<Rightarrow> nat \<Rightarrow> 'm world \<Rightarrow> 'm world" where
  "solo_ready r s p w =
     upd_player p (\<lambda>x. x\<lparr>m_bLoadingComplete := True, m_spawnIndex := Suc 0, m_state := PLAYER_PLAYREADY, m_isAlive := True\<rparr>)
       (upd_room r (\<lambda>x. x\<lparr>r_peers := AddPeer s (m_info (players w p)) (r_peers x), r_state := ROOM_PLAYREADY\<rparr>) w)"

lemma solo_ready_room:
  assumes "solo r s p mode ROOM_LOADING PLAYER_LOADING (core w)"
  shows "solo r s p mode ROOM_PLAYREADY PLAYER_PLAYREADY (core (solo_ready r s p w))" "game_modes (solo_ready r s p w) = game_modes w"
    "m_pCurrentGameMode (the_room r (solo_ready r s p w)) = m_pCurrentGameMode (the_room r w)"
  using assms unfolding solo_world by (simp_all add: solo_ready_def upd_player_def upd_room_def the_room_def)

lemma solo_complete:
  assumes "solo r s p mode ROOM_LOADING PLAYER_LOADING (core w)"
  shows "ProcessPacket E (EvData s PktLoadingComplete) w = room_ChangeState E r ROOM_PLAY (solo_ready r s p w) \<bind> (\<lambda>(_, w'). Some w')"
  using assms unfolding solo_world
  by (simp add: ProcessPacket_def OnPlayerData_def player_ProcessPacket_def loading_ProcessPacket_def GetRoom_def
      room_ProcessUserRequest_def loading_ProcessUserRequest_def loading_OnLoadingComplete_def CheckLoadingComplete_def team_players_def
      room_ChangeState_def [of E r ROOM_PLAYREADY] room_state_OnLeave_def room_state_OnEnter_def ChangePlayerFSM_def move_player_def player_ChangeState_def
      player_OnLeave_def player_OnEnter_def SendToClient_def upd_player_def upd_room_def the_room_def set_spawns_def solo_ready_def Let_def split_def)

text \<open>The mode is not registered, so the pointer to the mode of the room stays what it was.\<close>

lemma solo_play:
  assumes frame: "mode_frame E" and so: "solo r s p mode ROOM_PLAYREADY PLAYER_PLAYREADY (core w)" and mode: "mode \<notin> set (game_modes w)"
  shows "m_pCurrentGameMode (the_room r w) = None \<Longrightarrow> room_ChangeState E r ROOM_PLAY w = None"
    and "\<lbrakk>m_pCurrentGameMode (the_room r w) = Some m; m \<in> set (game_modes w)\<rbrakk> \<Longrightarrow> ends (room_ChangeState E r ROOM_PLAY w)
      (\<lambda>(_, w'). solo r s p mode ROOM_PLAY PLAYER_PLAY (core w') \<and> m_pCurrentGameMode (the_room r w') = Some m)"
proof -
  let ?v = "upd_player p (\<lambda>x. x\<lparr>m_state := PLAYER_PLAY\<rparr>) (upd_room r (\<lambda>x. x\<lparr>r_state := ROOM_PLAY\<rparr>) w)"
  let ?u = "SendPlayStart p ?v"
  have u: "solo r s p mode ROOM_PLAY PLAYER_PLAY (core ?u)" "game_modes ?u = game_modes w" "m_pCurrentGameMode (the_room r ?u) = m_pCurrentGameMode (the_room r w)"
    using so unfolding solo_world by (simp_all add: SendToClient_def upd_player_def upd_room_def the_room_def)
  have run: "room_ChangeState E r ROOM_PLAY w = do { w1 \<leftarrow> room_PlayScoreInfo E r p ?u;
      w2 \<leftarrow> for_each (move_player E PLAYER_PLAY) (map snd (t_members (r_team (the_room r (SendCreatePlayer p r False w1)) TEAM_BLUE))) (SendCreatePlayer p r False w1);
      (b, w3) \<leftarrow> mode_OnEnter E r mode w2; w4 \<leftarrow> (if b then PropagateMessage r MsgPeerList w3 else Some w3); Some (True, w4) }"
    using so mode unfolding solo_world
    by (simp add: room_ChangeState_def room_state_OnLeave_def room_state_OnEnter_def SetGameMode_def ChangePlayerFSM_def move_player_def
        player_ChangeState_def player_OnLeave_def player_OnEnter_def GetRoom_def SendToClient_def upd_player_def upd_room_def the_room_def Let_def split_def)
  have st: "r_state (the_room r ?u) = ROOM_PLAY" using u(1) unfolding solo_world by (simp add: the_room_def)
  show "room_ChangeState E r ROOM_PLAY w = None" if "m_pCurrentGameMode (the_room r w) = None"
    using that u(3) st by (simp add: run room_PlayScoreInfo_def mode_request_def del: SendPlayStart_def)
  show "ends (room_ChangeState E r ROOM_PLAY w) (\<lambda>(_, w'). solo r s p mode ROOM_PLAY PLAYER_PLAY (core w') \<and> m_pCurrentGameMode (the_room r w') = Some m)"
    if cur: "m_pCurrentGameMode (the_room r w) = Some m" and m: "m \<in> set (game_modes w)"
  proof -
    have "m \<in> set (game_modes ?u)" using m u(2) by simp
    then obtain b w1 where w1: "run_mode E r m (ModePlayScoreInfo p) ?u = Some (b, w1)" "core w1 = core ?u"
      using frame unfolding mode_frame_def by blast
    let ?w = "SendCreatePlayer p r False w1"
    have w: "core ?w = core ?u" using w1(2) by (simp add: core_simps)
    have one: "room_PlayScoreInfo E r p ?u = Some w1"
      using st cur u(3) w1(1) by (simp add: room_PlayScoreInfo_def mode_request_def del: SendPlayStart_def)
    have facts: "solo r s p mode ROOM_PLAY PLAYER_PLAY (core ?w)" "game_modes ?w = game_modes w" "m_pCurrentGameMode (the_room r ?w) = Some m"
      using u cur unfolding core_reads w by simp_all
    then have "t_members (r_team (the_room r ?w) TEAM_BLUE) = []" unfolding solo_world by (simp add: the_room_def)
    then show ?thesis using facts mode by (simp add: run one mode_OnEnter_def del: SendPlayStart_def)
  qed
qed

section \<open>The modes of the rooms\<close>

text \<open>The mode a room has played is a registered one.\<close>

definition played_ok :: "core \<Rightarrow> bool" where
  "played_ok c \<longleftrightarrow> inv c \<and> (\<forall>x \<in> set (c_rooms c). \<forall>m. m_pCurrentGameMode x = Some m \<longrightarrow> m \<in> set (c_modes c))"

lemma updatedE: "x \<in> set (xs[r := y]) \<Longrightarrow> x \<in> set xs \<or> (r < length xs \<and> xs ! r \<in> set xs \<and> x = y)"
  by (cases "r < length xs") (auto simp: list_update_beyond dest: set_update_subset_insert [THEN subsetD])

lemma cstep_played: "\<lbrakk>cstep c c'; played_ok c\<rbrakk> \<Longrightarrow> played_ok c'"
proof -
  assume s: "cstep c c'" and p: "played_ok c"
  then have i: "inv c" "inv c'" and m: "c_modes c' = c_modes c" using cstep_inv cstep_modes by (auto simp: played_ok_def)
  have "\<forall>x \<in> set (c_rooms c'). \<forall>m. m_pCurrentGameMode x = Some m \<longrightarrow> m \<in> set (c_modes c)"
    using s p i(1) unfolding played_ok_def
  proof (induction rule: cstep.induct)
    case (plays r c)
    then have "m_GameMode (c_rooms c ! r) \<in> set (c_modes c)" using inv_room [of c r] by (auto simp: phase_ok_def)
    then show ?case using plays by (auto simp: c_play_def c_all_def dest!: updatedE)
  qed (auto simp: c_connected_def c_open_def c_join_def c_unpeer_def c_leave_def Let_def c_switch_def c_start_def c_all_def set_state_def
      c_peer_def loaded_def c_gone_def open_room_def join_room_def leave_room_def switch_room_def dest!: updatedE split: if_splits)
  then show ?thesis using i(2) m by (simp add: played_ok_def)
qed

interpretation room_plays: preserved cstep played_ok
  by unfold_locales (rule cstep_played)

lemma game_world_played:
  assumes w: "game_world E modes w" and r: "r < MAX_ROOM_COUNT" and m: "m_pCurrentGameMode (the_room r w) = Some m"
  shows "m \<in> set modes"
proof -
  obtain p2p d where "cstep\<^sup>*\<^sup>* (core (init_world E p2p modes d)) (core w)" using game_world_steps [OF w] by blast
  moreover have "played_ok (core (init_world E p2p modes d))"
    using inv_init [of E p2p modes d] by (auto simp: played_ok_def core_def init_world_def empty_room_def)
  ultimately have p: "played_ok (core w)" by (rule room_plays.keep_all)
  then have "c_rooms (core w) ! r \<in> set (c_rooms (core w))" using r by (simp add: played_ok_def inv_parts(5))
  then show ?thesis using p m game_world_inv(3) [OF w] by (simp add: played_ok_def core_reads)
qed

section \<open>The run\<close>

lemma solo_run:
  assumes w: "game_world E modes w" and sp: "(s, p) \<in> set (PlayerMap w)" "m_state (players w p) = PLAYER_LOBBY" "\<not> peer_missing p w"
    and e: "m_EmptyRoomMap w = (k, r) # rest" and mode: "mode \<notin> set modes"
  shows "m_pCurrentGameMode (the_room r w) = None \<Longrightarrow>
      for_each (ProcessPacket E) [EvData s (PktCreateRoom mode), EvData s PktLoadingStart, EvData s PktLoadingComplete] w = None"
    and "m_pCurrentGameMode (the_room r w) = Some m \<Longrightarrow>
      ends (for_each (ProcessPacket E) [EvData s (PktCreateRoom mode), EvData s PktLoadingStart, EvData s PktLoadingComplete] w)
        (\<lambda>w'. solo r s p mode ROOM_PLAY PLAYER_PLAY (core w') \<and> m_pCurrentGameMode (the_room r w') = Some m)"
proof -
  note frame = game_world_inv(1) [OF w] and i = game_world_inv(2) [OF w] and gm = game_world_inv(3) [OF w]
  have s: "map_of (PlayerMap w) s = Some p" using inv_parts(3) [OF i] sp(1) by (simp add: people_ok_def core_reads)
  have "(k, r) \<in> set (c_empty (core w))" using e by (simp add: core_reads)
  then have r: "r < MAX_ROOM_COUNT" using inv_parts(1) [OF i] by (auto simp: lists_ok_def)
  obtain w1 where w1: "ProcessPacket E (EvData s (PktCreateRoom mode)) w = Some w1" "solo r s p mode ROOM_WAIT PLAYER_ROOM (core w1)"
    "game_modes w1 = modes" "m_pCurrentGameMode (the_room r w1) = m_pCurrentGameMode (the_room r w)"
    using solo_create [OF frame i s sp(2,3) e, of mode] gm by (auto simp: ends_def)
  obtain w2 where w2: "ProcessPacket E (EvData s PktLoadingStart) w1 = Some w2" "solo r s p mode ROOM_LOADING PLAYER_LOADING (core w2)"
    "game_modes w2 = modes" "m_pCurrentGameMode (the_room r w2) = m_pCurrentGameMode (the_room r w)"
    using solo_start [OF w1(2), of E] w1(3,4) by (auto simp: ends_def)
  let ?v = "solo_ready r s p w2"
  have v: "solo r s p mode ROOM_PLAYREADY PLAYER_PLAYREADY (core ?v)" "game_modes ?v = modes"
    "m_pCurrentGameMode (the_room r ?v) = m_pCurrentGameMode (the_room r w)" using solo_ready_room [OF w2(2)] w2(3,4) by simp_all
  have run: "for_each (ProcessPacket E) [EvData s (PktCreateRoom mode), EvData s PktLoadingStart, EvData s PktLoadingComplete] w =
      room_ChangeState E r ROOM_PLAY ?v \<bind> (\<lambda>(_, w'). Some w')"
    by (cases "room_ChangeState E r ROOM_PLAY ?v") (auto simp: w1(1) w2(1) solo_complete [OF w2(2)] split: prod.splits)
  have un: "mode \<notin> set (game_modes ?v)" using mode v(2) by simp
  show "for_each (ProcessPacket E) [EvData s (PktCreateRoom mode), EvData s PktLoadingStart, EvData s PktLoadingComplete] w = None"
    if "m_pCurrentGameMode (the_room r w) = None"
    unfolding run using solo_play(1) [OF frame v(1) un] that v(3) by simp
  show "ends (for_each (ProcessPacket E) [EvData s (PktCreateRoom mode), EvData s PktLoadingStart, EvData s PktLoadingComplete] w)
      (\<lambda>w'. solo r s p mode ROOM_PLAY PLAYER_PLAY (core w') \<and> m_pCurrentGameMode (the_room r w') = Some m)"
    if cur: "m_pCurrentGameMode (the_room r w) = Some m"
  proof -
    have "m \<in> set (game_modes ?v)" using game_world_played [OF w r cur] v(2) by simp
    then show ?thesis unfolding run using solo_play(2) [OF frame v(1) un, of m] cur v(3) by (auto simp: ends_def)
  qed
qed

end
