(* ===== verification/GameProps.thy ===== *)
theory GameProps
  imports GameSolo
begin

text \<open>
  The properties of the game logic: no event of a well-formed client makes the server fail; rooms,
  teams, lobby and player states agree; a game starts when all members have loaded; and the inputs for
  which the code fails or misbehaves.
\<close>

section \<open>A run of the server\<close>

text \<open>A server with the training mode of the sample server, whose methods all return true.\<close>

definition training_env :: "unit env" where
  "training_env = \<lparr>run_mode = (\<lambda>_ _ _ w. Some (True, w)), new_player = \<lparr>m_state = PLAYER_NONE, m_username = [], m_password = [],
     m_serial = 0, m_roomIndex = 0, m_teamType = TEAM_RED, m_bLoadingComplete = False, m_spawnIndex = 0, m_isAlive = False,
     m_info = \<lparr>LocalIP = 0, LocalPort = 0, ExternalIP = 0, ExternalPort = 0\<rparr>\<rparr>, rnd = 0\<rparr>"

definition login_events :: "nat \<Rightarrow> string \<Rightarrow> event list" where
  "login_events s u = [EvConnect s, EvData s (PktLogin u ''x''), EvDB s 0, EvData s PktEnterLobby]"

definition demo :: "event list \<Rightarrow> unit world option" where
  "demo evs = served training_env False [0] () evs"

lemma training_frame: "mode_frame training_env"
  by (auto simp: mode_frame_def training_env_def)

lemma demo_world:
  assumes "demo evs = Some w" "\<forall>ev \<in> set evs. event_ok [0] ev"
  shows "game_world training_env [0] w"
  unfolding game_world_def using assms training_frame unfolding demo_def by blast

text \<open>Evaluation of the model on concrete events.\<close>

lemma set_spawns_enumerate:
  "set_spawns r w = fold (\<lambda>(i, _, p). upd_player p (\<lambda>x. x\<lparr>m_spawnIndex := i\<rparr>)) (List.enumerate 1 (r_members (the_room r w))) w"
  by (simp add: set_spawns_def enumerate_eq_zip)

lemma first_empty: "map (\<lambda>i. (i, i)) [0..<100] = (0, 0) # map (\<lambda>i. (i, i)) [Suc 0..<100 :: nat]"
  by (simp add: upt_conv_Cons [of 0] del: upt_Suc)

lemma first_pool: "[0..<1000] = 0 # Suc 0 # Suc (Suc 0) # Suc (Suc (Suc 0)) # Suc (Suc (Suc (Suc 0))) # [Suc (Suc (Suc (Suc (Suc 0))))..<1000]"
  by (simp add: upt_conv_Cons [of 0] upt_conv_Cons [of "Suc 0"] upt_conv_Cons [of "Suc (Suc 0)"] upt_conv_Cons [of "Suc (Suc (Suc 0))"]
      upt_conv_Cons [of "Suc (Suc (Suc (Suc 0)))"] del: upt_Suc)

lemmas event_evals = ProcessPacket_def OnConnectPlayer_def OnPlayerData_def OnDBResult_def OnDBLogin_def OnDisconnectPlayer_def
  player_ProcessPacket_def lobby_ProcessPacket_def room_ProcessPacket_def loading_ProcessPacket_def play_ProcessPacket_def
  init_OnLogin_def is_room_packet_def lobby_OnEnterRoom_def lobby_OnCreateRoom_def lobby_OnPlayerIP_def peer_missing_def

lemmas manager_evals = pool_Alloc_def pool_Release_def AddPlayer_def DelPlayer_def GetEmptyRoom_def GetRoom_def OnCreateRoom_def RecallRoom_def
  lobby_OnEnter_def lobby_OnLeave_def SendRoomPage_def SendToClient_def upd_player_def upd_room_def the_room_def
  MAX_ROOM_MEMBER_def MAX_MESSAGE_BUFFER_def MAX_ROOM_COUNT_PER_PAGE_def MAX_ROOM_COUNT_def

lemmas room_evals = room_Open_def room_OnEnter_def room_OnLeave_def AddTeamMember_def DelTeamMember_def SelectMyTeam_def set_member_def
  AddMember_def DelMember_def AddObserver_def DelObserver_def smap_erase_def name_message_def c_str_def PropagateMessage_def player_OnMessage_def
  SendRoomMember_def SendCreatePlayer_def SendPeerInfo_def team_players_def CheckPlayerState_def CheckLoadingComplete_def AddPeer_def DeletePeer_def

lemmas fsm_evals = move_player_def player_ChangeState_def player_OnEnter_def player_OnLeave_def ChangePlayerFSM_def
  room_ChangeState_def room_state_OnLeave_def room_state_OnEnter_def set_spawns_enumerate SetGameMode_def mode_OnEnter_def mode_request_def
  room_PlayScoreInfo_def room_ProcessUserRequest_def wait_ProcessUserRequest_def loading_ProcessUserRequest_def play_ProcessUserRequest_def
  wait_OnEnterRoom_def wait_OnLeaveRoom_def wait_OnLoadingStart_def loading_OnLoadingComplete_def game_OnLeaveRoom_def play_OnLoadingComplete_def
  room_OnLeaveRoom_def

lemmas start_evals = demo_def served_def login_events_def training_env_def init_world_def SFPlayer_ctor_def empty_room_def first_empty first_pool

lemmas run_evals = event_evals manager_evals room_evals fsm_evals start_evals

text \<open>A world with two players in a waiting room.\<close>

definition demo_events :: "event list" where
  "demo_events = login_events 1 ''a'' @ login_events 2 ''b'' @ [EvData 1 (PktCreateRoom 0), EvData 2 (PktEnterRoom 0 0)]"

definition demo_wait :: "unit world" where
  "demo_wait = the (demo demo_events)"

lemma evaluated: "case demo evs of None \<Rightarrow> False | Some w \<Rightarrow> P w \<Longrightarrow> demo evs = Some (the (demo evs)) \<and> P (the (demo evs))"
  by (cases "demo evs") auto

lemma demo_eval: "case demo demo_events of None \<Rightarrow> False | Some w \<Rightarrow>
   r_state (the_room 0 w) = ROOM_WAIT \<and> m_pRoomChief (the_room 0 w) = Some 0 \<and> r_members (the_room 0 w) = [(1, 0), (2, 1)] \<and>
   PlayerMap w = [(1, 0), (2, 1)] \<and> serial_of w 0 = 1 \<and> serial_of w 1 = 2 \<and>
   m_state (players w 0) = PLAYER_ROOM \<and> m_roomIndex (players w 0) = 0 \<and>
   0 < length (rooms w) \<and> r_observers (the_room 0 w) = [0, 1] \<and> m_username (players w 7) = []"
  by (simp add: demo_events_def run_evals Let_def del: upt_Suc)

lemmas demo_run = conjunct1 [OF evaluated [OF demo_eval], folded demo_wait_def] conjunct2 [OF evaluated [OF demo_eval], folded demo_wait_def]

lemma demo_game: "game_world training_env [0] demo_wait"
  by (rule demo_world [OF demo_run(1)]) (simp add: demo_events_def login_events_def MAX_MESSAGE_BUFFER_def c_str_def)

section \<open>The server never fails\<close>

text \<open>C5: Whatever well-formed packets the clients send, in whatever order connections, packets, timer ticks, answers of
  the database and disconnections arrive, the game logic processes the whole sequence of events: no null room, chief or game
  mode is dereferenced and no buffer is overrun. Well-formed (\<open>event_ok\<close>) means that a login name has fewer than 100
  characters and fits the database message with its password, that a room is created with a registered game mode, and that
  the packet with the addresses of a player has all its bytes; the game modes, which the server program supplies, return and
  leave players and rooms alone (\<open>mode_frame\<close>).\<close>

theorem game_never_fails:
  assumes "mode_frame E" "\<forall>ev \<in> set evs. event_ok modes ev"
  shows "served E p2p modes d evs \<noteq> None"
proof -
  have "game_modes (init_world E p2p modes d) = modes" by (simp add: init_world_def)
  then show ?thesis using run_ok [OF assms(1) inv_init [of E p2p modes d], of evs] assms(2) by (auto simp: served_def ends_def)
qed

theorem game_never_fails_witness:
  "mode_frame training_env \<and> served training_env True [3] () [EvConnect 5, EvConnect 5, EvData 5 (PktLogin ''a'' []), EvDB 5 0, EvTimer 1, EvDisconnect 5] \<noteq> None"
  using game_never_fails [OF training_frame, of "[EvConnect 5, EvConnect 5, EvData 5 (PktLogin ''a'' []), EvDB 5 0, EvTimer 1, EvDisconnect 5]" "[3]" True "()"]
    training_frame by (simp add: c_str_def MAX_MESSAGE_BUFFER_def)

text \<open>C6: The handlers implement the abstract room system. From every world the server can be in, every event with a
  well-formed packet (\<open>event_ok\<close>) is processed, and the states, rooms, teams and maps change exactly as
  \<open>event_effect\<close> says for this event: a packet has the effect that the state of its sender and the phase of its room give
  it (only the chief of a waiting room starts the loading, a change of the team moves the sender to the other team, the last
  report of a loading room starts the game, a player enters a room with a free seat, packets that the state does not expect
  change nothing), a disconnection takes the player out of its room and frees it, the answer of the database logs in a
  player whose name is free, a timer tick changes nothing. Each effect is a sequence of transitions of \<open>cstep\<close>, which state
  when they may happen.\<close>

theorem game_refines_room_system:
  assumes "game_world E modes w" "event_ok modes ev"
  shows "\<exists>w'. ProcessPacket E ev w = Some w' \<and> event_effect w ev (core w') \<and> cstep\<^sup>*\<^sup>* (core w) (core w')"
  using ProcessPacket_ok [OF game_world_inv(1,2) [OF assms(1)], of ev] assms(2) by (simp add: game_world_inv(3) [OF assms(1)] ends_def)

theorem game_refines_room_system_witness:
  "\<exists>w'. ProcessPacket training_env (EvData 1 PktChangeTeam) demo_wait = Some w' \<and> core w' = c_switch 0 0 (core demo_wait) \<and>
    cstep\<^sup>*\<^sup>* (core demo_wait) (core w')"
proof -
  have "c_state (core demo_wait) 0 = PLAYER_ROOM" "c_index (core demo_wait) 0 = 0" "map_of (PlayerMap demo_wait) 1 = Some 0"
    using demo_run(2) by (simp_all add: core_reads [symmetric])
  then show ?thesis using game_refines_room_system [OF demo_game, of "EvData 1 PktChangeTeam"]
    by (simp add: packet_effect_def wait_effect_def)
qed

section \<open>Rooms, lobby and players agree\<close>

text \<open>C7: In every world the server can be in, the records of a room agree: the observers of the room are exactly its members,
  at most \<open>MAX_ROOM_MEMBER\<close> of them; the observers and the members of each team are the members of the room with that team
  type; a room with members has one of them as its chief; and a room is in the state \<open>ROOM_NONE\<close>, in the map of free
  rooms and out of the map of active rooms exactly when it has no members.\<close>

theorem rooms_agree:
  assumes "game_world E modes w" "r < MAX_ROOM_COUNT"
  shows "let x = the_room r w; ps = snd ` set (r_members x)
    in set (r_observers x) = ps \<and> distinct (r_observers x) \<and> length (r_observers x) \<le> MAX_ROOM_MEMBER \<and>
      (\<forall>t. set (t_observers (r_team x t)) = {p \<in> ps. m_teamType (players w p) = t} \<and>
           snd ` set (t_members (r_team x t)) = {p \<in> ps. m_teamType (players w p) = t}) \<and>
      (ps = {} \<or> (\<exists>q \<in> ps. m_pRoomChief x = Some q)) \<and>
      (r_state x = ROOM_NONE \<longleftrightarrow> ps = {}) \<and> ((r, r) \<in> set (m_EmptyRoomMap w) \<longleftrightarrow> ps = {}) \<and> ((r, r) \<in> set (m_ActiveRoomMap w) \<longleftrightarrow> ps \<noteq> {})"
proof -
  let ?c = "core w" let ?x = "c_rooms ?c ! r"
  note i = game_world_inv(2) [OF assms(1)]
  have so: "seats_ok ?c r ?x" and ph: "phase_ok ?c ?x" using inv_room [OF i assms(2)] by simp_all
  have team: "set (t_observers (r_team ?x t)) = {p \<in> pids ?x. c_team ?c p = t}" "snd ` set (t_members (r_team ?x t)) = {p \<in> pids ?x. c_team ?c p = t}" for t
    using so by (auto simp: seats_ok_def team_ok_def pids_def)
  have none: "r_state ?x = ROOM_NONE \<longleftrightarrow> pids ?x = {}" using ph by (auto simp: phase_ok_def pids_def)
  have chief: "pids ?x = {} \<or> (\<exists>q \<in> pids ?x. m_pRoomChief ?x = Some q)" using ph by (auto simp: phase_ok_def pids_def)
  have "(r, r) \<in> set (c_empty ?c) \<longleftrightarrow> r_state ?x = ROOM_NONE" "(r, r) \<in> set (c_active ?c) \<longleftrightarrow> r_state ?x \<noteq> ROOM_NONE"
    using inv_parts(1) [OF i] assms(2) by (simp_all add: lists_ok_def)
  then show ?thesis using so team none chief unfolding core_reads Let_def pids_def [symmetric] seats_ok_def by simp
qed

theorem rooms_agree_witness:
  "let x = the_room 0 demo_wait; ps = snd ` set (r_members x) in set (r_observers x) = ps \<and> ps = {0, 1}"
  using rooms_agree [OF demo_game, of 0] demo_run(2) by (simp add: Let_def MAX_ROOM_COUNT_def)

text \<open>C8: In every world the server can be in, a connected player is either outside the rooms (initial, logged in or in the
  lobby, and in the list of the lobby exactly when its state is the lobby) and then no room has it as a member, or it is a
  member of exactly the room its room index names, and its state fits the phase of that room: waiting players sit in
  waiting rooms, loading players in rooms that load or play, playing players in rooms that play.\<close>

theorem players_placed:
  assumes "game_world E modes w" "(serial, p) \<in> set (PlayerMap w)"
  shows "m_serial (players w p) = serial \<and> ((serial, p) \<in> set (lobby w) \<longleftrightarrow> m_state (players w p) = PLAYER_LOBBY) \<and>
    (if m_state (players w p) \<in> {PLAYER_INIT, PLAYER_LOGIN, PLAYER_LOBBY}
     then \<forall>r < MAX_ROOM_COUNT. p \<notin> snd ` set (r_members (the_room r w))
     else \<exists>r < MAX_ROOM_COUNT. m_roomIndex (players w p) = int r \<and>
       (\<forall>r' < MAX_ROOM_COUNT. p \<in> snd ` set (r_members (the_room r' w)) \<longleftrightarrow> r' = r) \<and>
       (m_state (players w p), r_state (the_room r w)) \<in>
         {(PLAYER_ROOM, ROOM_WAIT), (PLAYER_LOADING, ROOM_LOADING), (PLAYER_LOADING, ROOM_PLAY), (PLAYER_PLAY, ROOM_PLAY)})"
proof -
  let ?c = "core w"
  note i = game_world_inv(2) [OF assms(1)]
  have sp: "(serial, p) \<in> set (c_map ?c)" using assms(2) by (simp add: core_reads)
  then have p: "p \<in> connected ?c" by force
  have "\<forall>sp \<in> set (c_map ?c). c_serial ?c (snd sp) = fst sp" using inv_parts(3) [OF i] by (simp add: people_ok_def)
  from bspec [OF this sp] have ser: "c_serial ?c p = serial" by simp
  have lob: "(serial, p) \<in> set (c_lobby ?c) \<longleftrightarrow> c_state ?c p = PLAYER_LOBBY" using inv_parts(2) [OF i] sp by (simp add: lobby_ok_def)
  have out: "\<forall>r < MAX_ROOM_COUNT. p \<notin> pids (c_rooms ?c ! r)" if "c_state ?c p \<in> outside" using outside_not_seated [OF i that] by blast
  have room: "\<exists>r < MAX_ROOM_COUNT. c_index ?c p = int r \<and> (\<forall>r' < MAX_ROOM_COUNT. p \<in> pids (c_rooms ?c ! r') \<longleftrightarrow> r' = r) \<and>
      (c_state ?c p, r_state (c_rooms ?c ! r)) \<in> {(PLAYER_ROOM, ROOM_WAIT), (PLAYER_LOADING, ROOM_LOADING), (PLAYER_LOADING, ROOM_PLAY), (PLAYER_PLAY, ROOM_PLAY)}"
    if n: "c_state ?c p \<notin> outside"
  proof -
    obtain r where r: "r < MAX_ROOM_COUNT" "p \<in> pids (c_rooms ?c ! r)" by (rule inv_playing [OF i p n])
    have "\<forall>r' < MAX_ROOM_COUNT. p \<in> pids (c_rooms ?c ! r') \<longleftrightarrow> r' = r" using inv_one_room [OF i _ r(1) _ r(2)] r(2) by blast
    moreover have "(c_state ?c p, r_state (c_rooms ?c ! r)) \<in> {(PLAYER_ROOM, ROOM_WAIT), (PLAYER_LOADING, ROOM_LOADING), (PLAYER_LOADING, ROOM_PLAY), (PLAYER_PLAY, ROOM_PLAY)}"
      using inv_in_room(2) [OF i r] by (cases "r_state (c_rooms ?c ! r)") auto
    ultimately show ?thesis using r(1) inv_in_room(1) [OF i r] by blast
  qed
  show ?thesis using ser lob out room unfolding core_reads pids_def [symmetric] outside_def [symmetric] by simp
qed

theorem players_placed_witness:
  "(2, 1) \<in> set (PlayerMap demo_wait) \<and> m_serial (players demo_wait 1) = 2"
  using players_placed [OF demo_game, of 2 1] demo_run(2) by simp

section \<open>Games start\<close>

text \<open>A report that a member of a loading room has loaded, on the core.\<close>

lemma loading_event:
  assumes frame: "mode_frame E" and i: "inv (core w)" and r: "r < MAX_ROOM_COUNT" and q: "(s, q) \<in> set (r_members (c_rooms (core w) ! r))"
    and st: "r_state (c_rooms (core w) ! r) = ROOM_LOADING"
  shows "ends (ProcessPacket E (EvData s PktLoadingComplete) w) (\<lambda>w'. \<exists>info. core w' = load_effect r q info (core w))"
proof -
  let ?v = "upd_player q (\<lambda>x. x\<lparr>m_bLoadingComplete := True\<rparr>) w"
  have v: "core ?v = loaded q (core w)" by (simp add: core_simps loaded_def)
  have pq: "q \<in> pids (c_rooms (core w) ! r)" using q by (force simp: pids_def)
  have "c_serial (core w) q = s" using inv_room [OF i r] q by (auto simp: seats_ok_def)
  moreover have "q \<in> connected (core w)" by (rule inv_in_room(3) [OF i r pq])
  then obtain s' where "(s', q) \<in> set (c_map (core w))" by auto
  moreover have "\<forall>sp \<in> set (c_map (core w)). c_serial (core w) (snd sp) = fst sp" "smap_ok (c_map (core w))"
    using inv_parts(3) [OF i] by (simp_all add: people_ok_def)
  ultimately have "map_of (PlayerMap w) s = Some q" by (force simp: core_reads)
  moreover have "m_state (players w q) = PLAYER_LOADING" using inv_in_room(2) [OF i r pq] st by (simp add: core_reads)
  moreover have "GetRoom (m_roomIndex (players w q)) w = Some r" using inv_in_room(4) [OF i r pq] by (simp add: GetRoom_core core_reads)
  moreover have "r_state (the_room r ?v) = ROOM_LOADING" unfolding core_reads v using st by (simp add: loaded_def)
  ultimately have "ProcessPacket E (EvData s PktLoadingComplete) w = loading_OnLoadingComplete E r q ?v"
    by (simp add: ProcessPacket_def OnPlayerData_def player_ProcessPacket_def loading_ProcessPacket_def room_ProcessUserRequest_def
        loading_ProcessUserRequest_def)
  then show ?thesis using loading_OnLoadingComplete_ok [OF frame i v r pq st] by (auto elim!: ends_mono)
qed

text \<open>A loading room with the members \<open>M\<close>, of whom those with the serials \<open>S\<close> have loaded.\<close>

definition loading_room :: "nat \<Rightarrow> (nat \<times> nat) list \<Rightarrow> nat set \<Rightarrow> core \<Rightarrow> bool" where
  "loading_room r M S c \<longleftrightarrow> r_state (c_rooms c ! r) = ROOM_LOADING \<and> r_members (c_rooms c ! r) = M \<and>
     (\<forall>sq \<in> set M. c_load c (snd sq) \<longleftrightarrow> fst sq \<in> S)"

lemma loading_run:
  assumes frame: "mode_frame E" and r: "r < MAX_ROOM_COUNT"
  shows "\<lbrakk>inv (core w); loading_room r M S (core w); distinct ss; ss \<noteq> []; set ss \<inter> S = {}; set ss \<union> S = fst ` set M\<rbrakk> \<Longrightarrow>
    ends (for_each (ProcessPacket E) (map (\<lambda>s. EvData s PktLoadingComplete) ss) w) (\<lambda>w'. r_state (c_rooms (core w') ! r) = ROOM_PLAY \<and>
      r_members (c_rooms (core w') ! r) = M \<and> (\<forall>q \<in> snd ` set M. c_state (core w') q = PLAYER_PLAY))"
proof (induction ss arbitrary: w S)
  case (Cons s ss)
  note i = Cons.prems(1)
  have len: "r < length (c_rooms (core w))" using inv_parts(5) [OF i] r by simp
  have room: "r_state (c_rooms (core w) ! r) = ROOM_LOADING" "r_members (c_rooms (core w) ! r) = M"
    and load: "\<forall>sq \<in> set M. c_load (core w) (snd sq) \<longleftrightarrow> fst sq \<in> S" using Cons.prems(2) by (simp_all add: loading_room_def)
  obtain q where q: "(s, q) \<in> set M" using Cons.prems(6) by fastforce
  have so: "smap_ok M" "\<forall>sp \<in> set M. c_serial (core w) (snd sp) = fst sp" using inv_room [OF i r] room(2) by (auto simp: seats_ok_def)
  have same: "snd sp = q \<longleftrightarrow> fst sp = s" if sp: "sp \<in> set M" for sp
    using smap_key_unique [OF so(1), of s "snd sp" q] bspec [OF so(2) sp] bspec [OF so(2) q] q sp by (cases sp) auto
  have one: "ends (for_each (ProcessPacket E) (map (\<lambda>s. EvData s PktLoadingComplete) ss) w') (\<lambda>w'. r_state (c_rooms (core w') ! r) = ROOM_PLAY \<and>
      r_members (c_rooms (core w') ! r) = M \<and> (\<forall>q \<in> snd ` set M. c_state (core w') q = PLAYER_PLAY))"
    if info: "\<exists>info. core w' = load_effect r q info (core w)" for w'
  proof -
    obtain info where w': "core w' = (let d = c_peer r q info (loaded q (core w)) in if \<forall>p \<in> pids (c_rooms d ! r). c_load d p then c_play r d else d)"
      using info unfolding load_effect_def by blast
    define d where "d = c_peer r q info (loaded q (core w))"
    have d: "r_state (c_rooms d ! r) = ROOM_LOADING" "r_members (c_rooms d ! r) = M" "r < length (c_rooms d)"
      using room len by (simp_all add: d_def c_peer_def loaded_def)
    have dload: "\<forall>sp \<in> set M. c_load d (snd sp) \<longleftrightarrow> fst sp \<in> insert s S"
      using load same by (simp add: d_def c_peer_def loaded_def)
    have "inv d" unfolding d_def by (rule inv_peer [OF inv_loaded [OF i] r]) (use q room in \<open>force simp: loaded_def pids_def\<close>)+
    have all: "(\<forall>p \<in> pids (c_rooms d ! r). c_load d p) \<longleftrightarrow> ss = []"
    proof -
      have "(\<forall>p \<in> pids (c_rooms d ! r). c_load d p) \<longleftrightarrow> fst ` set M \<subseteq> insert s S" using dload by (auto simp: pids_def d(2))
      also have "fst ` set M = insert s (set ss) \<union> S" using Cons.prems(6) by simp
      also have "(insert s (set ss) \<union> S \<subseteq> insert s S) \<longleftrightarrow> set ss \<subseteq> {}"
      proof -
        have "s \<notin> set ss" "set ss \<inter> S = {}" using Cons.prems(3,5) by simp_all
        then show ?thesis by blast
      qed
      finally show ?thesis by simp
    qed
    show ?thesis
    proof (cases "ss = []")
      case True
      then have "core w' = c_play r d" using all by (simp add: w' d_def [symmetric])
      then show ?thesis using True d by (simp add: c_play_def c_all_def pids_def)
    next
      case False
      have "\<not> (\<forall>p \<in> pids (c_rooms d ! r). c_load d p)" using all False by simp
      then have c: "core w' = d" unfolding w' d_def [symmetric] Let_def by (rule if_not_P)
      show ?thesis
        by (rule Cons.IH [of w' "insert s S"]) (use c \<open>inv d\<close> d dload False Cons.prems in \<open>auto simp: loading_room_def\<close>)
    qed
  qed
  have "ends (ProcessPacket E (EvData s PktLoadingComplete) w) (\<lambda>w'. \<exists>info. core w' = load_effect r q info (core w))"
    by (rule loading_event [OF frame i r]) (use q room in simp_all)
  then show ?case unfolding for_each.simps list.map ends_bind by (rule ends_mono) (rule one)
qed simp

text \<open>C9: A game starts: when the chief of a waiting room asks for the start and then every member of the room reports, in any
  order, that it has loaded, the room plays, with the same members, and every member is playing.\<close>

theorem game_starts:
  assumes "game_world E modes w" "r < MAX_ROOM_COUNT" "r_state (the_room r w) = ROOM_WAIT" "m_pRoomChief (the_room r w) = Some p"
    and "distinct ss" "set ss = fst ` set (r_members (the_room r w))"
  shows "\<exists>w'. for_each (ProcessPacket E) (EvData (serial_of w p) PktLoadingStart # map (\<lambda>s. EvData s PktLoadingComplete) ss) w = Some w' \<and>
    r_state (the_room r w') = ROOM_PLAY \<and> r_members (the_room r w') = r_members (the_room r w) \<and>
    (\<forall>q \<in> snd ` set (r_members (the_room r w)). m_state (players w' q) = PLAYER_PLAY)"
proof -
  let ?c = "core w" let ?x = "c_rooms ?c ! r" let ?s = "serial_of w p"
  note frame = game_world_inv(1) [OF assms(1)] and i = game_world_inv(2) [OF assms(1)] and r = assms(2)
  have st: "r_state ?x = ROOM_WAIT" and chief: "m_pRoomChief ?x = Some p" using assms(3,4) by (simp_all add: core_reads)
  have pp: "p \<in> pids ?x" using inv_room [OF i r] st chief by (auto simp: phase_ok_def)
  have len: "r < length (c_rooms ?c)" using inv_parts(5) [OF i] r by simp
  have "map_of (PlayerMap w) ?s = Some p"
  proof -
    obtain s where s: "(s, p) \<in> set (c_map ?c)" using inv_in_room(3) [OF i r pp] by auto
    have "\<forall>sp \<in> set (c_map ?c). c_serial ?c (snd sp) = fst sp" "smap_ok (c_map ?c)" using inv_parts(3) [OF i] by (simp_all add: people_ok_def)
    then show ?thesis using bspec [OF _ s] s by (fastforce simp: core_reads)
  qed
  moreover have "m_state (players w p) = PLAYER_ROOM" using inv_in_room(2) [OF i r pp] st by (simp add: core_reads)
  moreover have "GetRoom (m_roomIndex (players w p)) w = Some r" using inv_in_room(4) [OF i r pp] by (simp add: GetRoom_core core_reads)
  moreover have "ends (wait_OnLoadingStart E r p w) (core_is (c_start r ?c))" using wait_OnLoadingStart_ok [OF frame i r st, of p] chief by simp
  ultimately have start: "ends (ProcessPacket E (EvData ?s PktLoadingStart) w) (core_is (c_start r ?c))"
    using assms(3) by (simp add: ProcessPacket_def OnPlayerData_def player_ProcessPacket_def room_ProcessPacket_def is_room_packet_def
        room_ProcessUserRequest_def wait_ProcessUserRequest_def split_def)
  have si: "inv (c_start r ?c)" by (rule inv_start [OF i r st])
  have lr: "loading_room r (r_members ?x) {} (c_start r ?c)"
    using len by (auto simp: loading_room_def c_start_def c_all_def set_state_def pids_def)
  have ss: "ss \<noteq> []" "set ss \<union> {} = fst ` set (r_members ?x)" using assms(6) pp by (auto simp: core_reads pids_def)
  have run: "ends (for_each (ProcessPacket E) (map (\<lambda>s. EvData s PktLoadingComplete) ss) w') (\<lambda>w'. r_state (c_rooms (core w') ! r) = ROOM_PLAY \<and>
      r_members (c_rooms (core w') ! r) = r_members ?x \<and> (\<forall>q \<in> snd ` set (r_members ?x). c_state (core w') q = PLAYER_PLAY))"
    if "core w' = c_start r ?c" for w'
    by (rule loading_run [OF frame r _ _ assms(5) ss(1) _ ss(2)]) (use that si lr in simp_all)
  have "ends (for_each (ProcessPacket E) (EvData ?s PktLoadingStart # map (\<lambda>s. EvData s PktLoadingComplete) ss) w) (\<lambda>w'. r_state (c_rooms (core w') ! r) = ROOM_PLAY \<and>
      r_members (c_rooms (core w') ! r) = r_members ?x \<and> (\<forall>q \<in> snd ` set (r_members ?x). c_state (core w') q = PLAYER_PLAY))"
    unfolding for_each.simps ends_bind by (rule ends_mono [OF start]) (rule run)
  then show ?thesis unfolding core_reads ends_def .
qed

theorem game_starts_witness:
  "\<exists>w'. for_each (ProcessPacket training_env) [EvData 1 PktLoadingStart, EvData 2 PktLoadingComplete, EvData 1 PktLoadingComplete] demo_wait = Some w' \<and>
    r_state (the_room 0 w') = ROOM_PLAY \<and> m_state (players w' 0) = PLAYER_PLAY \<and> m_state (players w' 1) = PLAYER_PLAY"
  using game_starts [OF demo_game, of 0 0 "[2, 1]"] demo_run(2) by (auto simp: MAX_ROOM_COUNT_def simp del: for_each.simps)

section \<open>Entering a room\<close>

lemma tell_enter:
  "for_each (player_OnMessage (MsgEnterTeamMember s n)) ps w =
     (if ps = [] \<or> length n < 100 then Some (w\<lparr>sent := sent w @ map (\<lambda>q. (serial_of w q, OutEnterTeamMember s n)) ps\<rparr>) else None)"
  by (induction ps arbitrary: w) (simp_all add: player_OnMessage_def SendToClient_def)

text \<open>C10: A player that enters a room with a free seat becomes its last observer and a member of the room and of the smaller
  team (red when they are equal), gets the index of the room, and every observer, the player itself included, is told its
  serial and name, once and in the order of the observers. This holds for names of fewer than 100 characters; with a longer
  name the copy of the name into \<open>szPlayerName\<close> runs over its 100 bytes.\<close>

theorem room_enter_effect:
  assumes "r < length (rooms w)" "p \<notin> set (r_observers (the_room r w))" "length (r_observers (the_room r w)) < MAX_ROOM_MEMBER"
  shows "let x = the_room r w; n = c_str (m_username (players w p)); s = serial_of w p;
      t = (if length (t_members (r_team x TEAM_RED)) > length (t_members (r_team x TEAM_BLUE)) then TEAM_BLUE else TEAM_RED)
    in if length n < 100
       then \<exists>w'. room_OnEnter r p w = Some (True, w') \<and> r_observers (the_room r w') = r_observers x @ [p] \<and>
         r_members (the_room r w') = smap_insert s p (r_members x) \<and>
         t_members (r_team (the_room r w') t) = smap_insert s p (t_members (r_team x t)) \<and>
         m_teamType (players w' p) = t \<and> m_roomIndex (players w' p) = int r \<and>
         sent w' = sent w @ map (\<lambda>q. (serial_of w q, OutEnterTeamMember s n)) (r_observers x @ [p])
       else room_OnEnter r p w = None"
proof -
  define x where "x = the_room r w"
  define s where "s = serial_of w p"
  define n where "n = c_str (m_username (players w p))"
  define t where "t = (if length (t_members (r_team x TEAM_RED)) > length (t_members (r_team x TEAM_BLUE)) then TEAM_BLUE else TEAM_RED)"
  define y where "y = x\<lparr>r_observers := r_observers x @ [p], r_team := (r_team x)(t := AddMember s p (r_team x t))\<rparr>"
  define v where "v = upd_player p (\<lambda>x. x\<lparr>m_roomIndex := int r\<rparr>) (AddTeamMember r p (upd_room r (\<lambda>x. x\<lparr>r_observers := r_observers x @ [p]\<rparr>) w))"
  have sel: "SelectMyTeam r (upd_room r (\<lambda>x. x\<lparr>r_observers := r_observers x @ [p]\<rparr>) w) = t"
    using assms(1) by (simp add: SelectMyTeam_def t_def x_def the_room_def upd_room_def)
  have v: "rooms v = (rooms w)[r := y]" "players v = (players w)(p := (players w p)\<lparr>m_teamType := t, m_roomIndex := int r\<rparr>)" "sent v = sent w"
    using assms(1) by (simp_all add: v_def AddTeamMember_def sel)
      (simp_all add: set_member_def upd_player_def upd_room_def y_def x_def the_room_def s_def)
  have msg: "name_message MsgEnterTeamMember p v = (if 4 + length n + 1 \<le> MAX_MESSAGE_BUFFER then Some (MsgEnterTeamMember s n) else None)"
    by (simp add: name_message_def v n_def s_def Let_def)
  have obs: "r_observers (the_room r v) = r_observers x @ [p]" "the_room r v = y" using assms(1) by (simp_all add: the_room_def v y_def)
  have enter: "room_OnEnter r p w = do { m \<leftarrow> name_message MsgEnterTeamMember p v; w3 \<leftarrow> PropagateMessage r m v;
      Some (True, upd_room r (\<lambda>x. x\<lparr>r_members := smap_insert s p (r_members x)\<rparr>) w3) }"
    using assms(2,3) by (simp add: room_OnEnter_def AddObserver_def v_def s_def upd_room_def the_room_def Let_def not_le)
  have serials: "serial_of v q = serial_of w q" for q by (simp add: v)
  have oy: "r_observers y = r_observers x @ [p]" by (simp add: y_def)
  have good: "\<exists>w'. room_OnEnter r p w = Some (True, w') \<and> r_observers (the_room r w') = r_observers x @ [p] \<and>
      r_members (the_room r w') = smap_insert s p (r_members x) \<and> t_members (r_team (the_room r w') t) = smap_insert s p (t_members (r_team x t)) \<and>
      m_teamType (players w' p) = t \<and> m_roomIndex (players w' p) = int r \<and>
      sent w' = sent w @ map (\<lambda>q. (serial_of w q, OutEnterTeamMember s n)) (r_observers x @ [p])" if short: "length n < 100"
  proof -
    let ?w' = "upd_room r (\<lambda>x. x\<lparr>r_members := smap_insert s p (r_members x)\<rparr>)
      (v\<lparr>sent := sent v @ map (\<lambda>q. (serial_of w q, OutEnterTeamMember s n)) (r_observers x @ [p])\<rparr>)"
    have "room_OnEnter r p w = Some (True, ?w')"
      using short by (simp add: enter msg PropagateMessage_def tell_enter obs(2) oy serials MAX_MESSAGE_BUFFER_def)
    moreover have "the_room r ?w' = y\<lparr>r_members := smap_insert s p (r_members x)\<rparr>"
      using assms(1) by (simp add: the_room_def upd_room_def v) (simp add: y_def)
    ultimately show ?thesis by (simp add: y_def AddMember_def) (simp add: upd_room_def v)
  qed
  have bad: "room_OnEnter r p w = None" if "\<not> length n < 100"
    using that by (simp add: enter msg PropagateMessage_def tell_enter obs(2) oy)
  show ?thesis unfolding x_def [symmetric] s_def [symmetric] n_def [symmetric] Let_def t_def [symmetric] using good bad by simp
qed

theorem room_enter_effect_witness:
  "\<exists>w'. room_OnEnter 0 7 demo_wait = Some (True, w') \<and> r_observers (the_room 0 w') = [0, 1, 7]"
  using room_enter_effect [of 0 demo_wait 7] demo_run(2) by (auto simp: Let_def MAX_ROOM_MEMBER_def c_str_def)

text \<open>C12: A full waiting room answers a player of the lobby that asks to enter with the packets of a success, \<open>EnterRoom\<close> and the
  list of the members, although the room refused the player: the player stays in the lobby and no room, team or map
  changes. \<open>SFDispatch::HandleMessage\<close> drops the result of \<open>SFRoomWait::OnEnterRoom\<close> and returns that the packet was
  handled.\<close>

theorem full_room_reports_success:
  assumes "game_world E modes w" "r < MAX_ROOM_COUNT" "r_state (the_room r w) = ROOM_WAIT" "length (r_observers (the_room r w)) = MAX_ROOM_MEMBER"
    and "(s, p) \<in> set (PlayerMap w)" "m_state (players w p) = PLAYER_LOBBY" "\<not> peer_missing p w"
  shows "ProcessPacket E (EvData s (PktEnterRoom (int r) mode)) w = Some (w\<lparr>sent := sent w @ [(s, OutEnterRoom mode (int r)),
    (s, OutRoomMember (map (\<lambda>(_, q). (serial_of w q, m_username (players w q), m_teamType (players w q)))
      (filter (\<lambda>(_, q). s \<noteq> serial_of w q) (r_members (the_room r w)))))]\<rparr>)"
proof -
  note i = game_world_inv(2) [OF assms(1)]
  have sp: "map_of (PlayerMap w) s = Some p" using inv_parts(3) [OF i] assms(5) by (simp add: people_ok_def core_reads)
  have "serial_of w p = s" using connected_player(2) [OF i sp] by (simp add: core_reads)
  moreover have "GetRoom (int r) w = Some r" using assms(2,3) by (simp add: GetRoom_def)
  moreover have "room_OnEnter r p w = Some (False, w)" using assms(4) by (simp add: room_OnEnter_def split: prod.split)
  ultimately show ?thesis using sp assms(3,6,7)
    by (simp add: ProcessPacket_def OnPlayerData_def player_ProcessPacket_def lobby_ProcessPacket_def lobby_OnEnterRoom_def room_ProcessUserRequest_def
        wait_ProcessUserRequest_def wait_OnEnterRoom_def SendRoomMember_def SendToClient_def the_room_def)
qed

text \<open>A waiting room with four players, and a fifth in the lobby.\<close>

definition full_events :: "event list" where
  "full_events = login_events 1 ''a'' @ login_events 2 ''b'' @ login_events 3 ''c'' @ login_events 4 ''d'' @ login_events 5 ''e'' @
     [EvData 1 (PktCreateRoom 0), EvData 2 (PktEnterRoom 0 0), EvData 3 (PktEnterRoom 0 0), EvData 4 (PktEnterRoom 0 0)]"

definition demo_full :: "unit world" where
  "demo_full = the (demo full_events)"

lemma full_eval: "case demo full_events of None \<Rightarrow> False | Some w \<Rightarrow>
   r_state (the_room 0 w) = ROOM_WAIT \<and> length (r_observers (the_room 0 w)) = MAX_ROOM_MEMBER \<and>
   (5, 4) \<in> set (PlayerMap w) \<and> m_state (players w 4) = PLAYER_LOBBY \<and> \<not> peer_missing 4 w"
  by (simp add: full_events_def run_evals Let_def del: upt_Suc)

lemmas full_run = conjunct1 [OF evaluated [OF full_eval], folded demo_full_def] conjunct2 [OF evaluated [OF full_eval], folded demo_full_def]

lemma full_game: "game_world training_env [0] demo_full"
  by (rule demo_world [OF full_run(1)]) (simp add: full_events_def login_events_def MAX_MESSAGE_BUFFER_def c_str_def)

theorem full_room_reports_success_witness:
  "\<exists>w'. ProcessPacket training_env (EvData 5 (PktEnterRoom 0 0)) demo_full = Some w' \<and> (5, OutEnterRoom 0 0) \<in> set (sent w') \<and> rooms w' = rooms demo_full"
  using full_room_reports_success [OF full_game, of 0 5 4 0] full_run(2) by (simp add: MAX_ROOM_COUNT_def)

section \<open>Leaving while a room loads\<close>

text \<open>C11: When the only member of a loading room that has not loaded yet disconnects, nobody checks whether the others have
  loaded: the room stays in the state \<open>ROOM_LOADING\<close> although all its remaining members have reported that they have loaded,
  and all of them stay in the loading state. \<open>SFRoomLoading::OnLeaveRoom\<close> removes the player and does not run the check of
  \<open>OnLoadingComplete\<close>.\<close>

theorem leave_while_loading_stalls:
  assumes "game_world E modes w" "r < MAX_ROOM_COUNT" "r_state (the_room r w) = ROOM_LOADING" "(s, p) \<in> set (r_members (the_room r w))"
    and "\<forall>q \<in> snd ` set (r_members (the_room r w)) - {p}. m_bLoadingComplete (players w q)" "snd ` set (r_members (the_room r w)) \<noteq> {p}"
  shows "\<exists>w'. ProcessPacket E (EvDisconnect s) w = Some w' \<and> r_state (the_room r w') = ROOM_LOADING \<and>
    snd ` set (r_members (the_room r w')) = snd ` set (r_members (the_room r w)) - {p} \<and>
    (\<forall>q \<in> snd ` set (r_members (the_room r w')). m_bLoadingComplete (players w' q) \<and> m_state (players w' q) = PLAYER_LOADING)"
proof -
  let ?c = "core w" let ?x = "c_rooms ?c ! r" and ?y = "leave_room (c_serial ?c p) p (c_team ?c p) (c_rooms ?c ! r)"
  note frame = game_world_inv(1) [OF assms(1)] and i = game_world_inv(2) [OF assms(1)] and r = assms(2)
  have sp: "(s, p) \<in> set (r_members ?x)" and st: "r_state ?x = ROOM_LOADING" using assms(3,4) by (simp_all add: core_reads)
  have p: "p \<in> pids ?x" using sp by (force simp: pids_def)
  have so: "seats_ok ?c r ?x" and ph: "phase_ok ?c ?x" using inv_room [OF i r] by simp_all
  have len: "r < length (c_rooms ?c)" using inv_parts(5) [OF i] r by simp
  have map: "map_of (PlayerMap w) s = Some p"
  proof -
    obtain s' where s': "(s', p) \<in> set (c_map ?c)" using inv_in_room(3) [OF i r p] by auto
    have m: "\<forall>sp \<in> set (c_map ?c). c_serial ?c (snd sp) = fst sp" "smap_ok (c_map ?c)" using inv_parts(3) [OF i] by (simp_all add: people_ok_def)
    have "c_serial ?c p = s" using so sp by (auto simp: seats_ok_def)
    then show ?thesis using bspec [OF m(1) s'] s' m(2) by (simp add: core_reads)
  qed
  have "pids ?y \<noteq> {}" using seats_leave(2) [OF so p] assms(6) p by (auto simp: core_reads pids_def)
  then have some: "r_observers ?y \<noteq> []" using no_members [OF seats_leave(1) [OF so p]] by (auto simp: pids_def)
  let ?d = "c_gone p (left r p ?c)"
  have rooms: "r_state (c_rooms ?d ! r) = ROOM_LOADING \<and> r_members (c_rooms ?d ! r) = r_members ?y"
    using some len st by (simp add: c_gone_def c_unpeer_def c_leave_def Let_def) (simp add: leave_room_def)
  have seats: "pids (c_rooms ?d ! r) = pids ?x - {p}" using seats_leave(2) [OF so p] rooms by (simp add: pids_def)
  have others: "c_load ?d q = c_load ?c q \<and> c_state ?d q = c_state ?c q" if "q \<noteq> p" for q
    using that by (simp add: c_gone_def c_move_def c_unpeer_def c_leave_def Let_def)
  have "ends (OnDisconnectPlayer E s w) (core_is ?d)" by (rule disconnect_in_room [OF frame i map r p])
  then obtain w' where w': "ProcessPacket E (EvDisconnect s) w = Some w'" "core w' = ?d" by (auto simp: ProcessPacket_def ends_def)
  have loaded: "\<forall>q \<in> pids ?x - {p}. c_load ?c q" using assms(5) by (simp add: core_reads pids_def)
  have loading: "\<forall>q \<in> pids ?x. c_state ?c q = PLAYER_LOADING" using ph st by (simp add: phase_ok_def)
  have "\<forall>q \<in> pids (c_rooms ?d ! r). c_load ?d q \<and> c_state ?d q = PLAYER_LOADING"
    unfolding seats using others loaded loading by simp
  note final = this [unfolded pids_def]
  show ?thesis
  proof (intro exI conjI)
    show "ProcessPacket E (EvDisconnect s) w = Some w'" by (rule w'(1))
    show "r_state (the_room r w') = ROOM_LOADING" using rooms by (simp only: core_reads w'(2))
    show "snd ` set (r_members (the_room r w')) = snd ` set (r_members (the_room r w)) - {p}"
      using seats unfolding pids_def core_reads w'(2) .
    show "\<forall>q \<in> snd ` set (r_members (the_room r w')). m_bLoadingComplete (players w' q) \<and> m_state (players w' q) = PLAYER_LOADING"
      using final unfolding core_reads w'(2) .
  qed
qed

text \<open>A room of two members of whom the first has loaded.\<close>

definition load_events :: "event list" where
  "load_events = demo_events @ [EvData 1 PktLoadingStart, EvData 1 PktLoadingComplete]"

definition demo_load :: "unit world" where
  "demo_load = the (demo load_events)"

lemma load_eval: "case demo load_events of None \<Rightarrow> False | Some w \<Rightarrow>
   r_state (the_room 0 w) = ROOM_LOADING \<and> r_members (the_room 0 w) = [(1, 0), (2, 1)] \<and> m_bLoadingComplete (players w 0)"
  by (simp add: load_events_def demo_events_def run_evals Let_def del: upt_Suc)

lemmas load_run = conjunct1 [OF evaluated [OF load_eval], folded demo_load_def] conjunct2 [OF evaluated [OF load_eval], folded demo_load_def]

lemma load_game: "game_world training_env [0] demo_load"
  by (rule demo_world [OF load_run(1)]) (simp add: load_events_def demo_events_def login_events_def MAX_MESSAGE_BUFFER_def c_str_def)

theorem leave_while_loading_stalls_witness:
  "\<exists>w'. ProcessPacket training_env (EvDisconnect 2) demo_load = Some w' \<and> r_state (the_room 0 w') = ROOM_LOADING \<and>
    snd ` set (r_members (the_room 0 w')) = {0} \<and> m_bLoadingComplete (players w' 0)"
proof -
  let ?M = "snd ` set (r_members (the_room 0 demo_load))"
  have D: "?M - {1} = {0}" using load_run(2) by auto
  have facts: "0 < MAX_ROOM_COUNT" "r_state (the_room 0 demo_load) = ROOM_LOADING" "(2, 1) \<in> set (r_members (the_room 0 demo_load))" "?M \<noteq> {1}"
    using load_run(2) by (simp_all add: MAX_ROOM_COUNT_def)
  have others: "\<forall>q \<in> ?M - {1}. m_bLoadingComplete (players demo_load q)" using load_run(2) unfolding D by simp
  obtain w' where w': "ProcessPacket training_env (EvDisconnect 2) demo_load = Some w'" "r_state (the_room 0 w') = ROOM_LOADING"
    "snd ` set (r_members (the_room 0 w')) = {0}"
    "\<forall>q \<in> snd ` set (r_members (the_room 0 w')). m_bLoadingComplete (players w' q) \<and> m_state (players w' q) = PLAYER_LOADING"
    using leave_while_loading_stalls [OF load_game facts(1-3) others facts(4)] unfolding D by blast
  have "m_bLoadingComplete (players w' 0)" using w'(4) unfolding w'(3) by simp
  then show ?thesis using w' by blast
qed

section \<open>Inputs that break the server\<close>

text \<open>C13: The creation of a room accepts a game mode that is not registered. In every world the server can be in, a player of
  the lobby creates a room with such a mode, starts the loading and reports that it has loaded: if the free room it got has
  never played, its pointer to the game mode is null, \<open>SFGameModeFSM::SetGameMode\<close> refuses the mode, and the request for the
  score goes through the null pointer, so the server fails; if the room has played before, the game starts in the mode the
  room played last, although the room and its list entry name the new mode.\<close>

theorem unregistered_mode:
  assumes "game_world E modes w" "(s, p) \<in> set (PlayerMap w)" "m_state (players w p) = PLAYER_LOBBY" "\<not> peer_missing p w"
    and "m_EmptyRoomMap w = (k, r) # rest" "mode \<notin> set modes"
  shows "let run = for_each (ProcessPacket E) [EvData s (PktCreateRoom mode), EvData s PktLoadingStart, EvData s PktLoadingComplete] w
    in case m_pCurrentGameMode (the_room r w) of
         None \<Rightarrow> run = None
       | Some m \<Rightarrow> m \<noteq> mode \<and> (\<exists>w'. run = Some w' \<and> m_state (players w' p) = PLAYER_PLAY \<and> r_state (the_room r w') = ROOM_PLAY \<and>
           r_members (the_room r w') = [(s, p)] \<and> m_GameMode (the_room r w') = mode \<and> m_pCurrentGameMode (the_room r w') = Some m)"
proof (cases "m_pCurrentGameMode (the_room r w)")
  case None
  then show ?thesis using solo_run(1) [OF assms] by (simp del: for_each.simps)
next
  case (Some m)
  have "(k, r) \<in> set (c_empty (core w))" using assms(5) by (simp add: core_reads)
  then have "r < MAX_ROOM_COUNT" using inv_parts(1) [OF game_world_inv(2) [OF assms(1)]] by (auto simp: lists_ok_def)
  then have "m \<noteq> mode" using game_world_played [OF assms(1) _ Some] assms(6) by auto
  then show ?thesis using Some solo_run(2) [OF assms Some] by (auto simp: ends_def solo_world the_room_def simp del: for_each.simps)
qed

text \<open>A new server, and a server whose first room has played.\<close>

definition demo_new :: "unit world" where
  "demo_new = the (demo (login_events 1 ''a''))"

definition played_events :: "event list" where
  "played_events = login_events 1 ''a'' @ [EvData 1 (PktCreateRoom 0), EvData 1 PktLoadingStart, EvData 1 PktLoadingComplete, EvData 1 PktLeaveRoom]"

definition demo_played :: "unit world" where
  "demo_played = the (demo played_events)"

lemma new_eval: "case demo (login_events 1 ''a'') of None \<Rightarrow> False | Some w \<Rightarrow> (1, 0) \<in> set (PlayerMap w) \<and> m_state (players w 0) = PLAYER_LOBBY \<and>
   \<not> peer_missing 0 w \<and> (\<exists>rest. m_EmptyRoomMap w = (0, 0) # rest) \<and> m_pCurrentGameMode (the_room 0 w) = None"
  by (simp add: run_evals Let_def del: upt_Suc)

lemma played_eval: "case demo played_events of None \<Rightarrow> False | Some w \<Rightarrow> (1, 0) \<in> set (PlayerMap w) \<and> m_state (players w 0) = PLAYER_LOBBY \<and>
   \<not> peer_missing 0 w \<and> (\<exists>rest. m_EmptyRoomMap w = (0, 0) # rest) \<and> m_pCurrentGameMode (the_room 0 w) = Some 0"
  by (simp add: played_events_def run_evals Let_def upt_conv_Cons [of "Suc 0" 100] del: upt_Suc)

lemmas new_run = conjunct1 [OF evaluated [OF new_eval], folded demo_new_def] conjunct2 [OF evaluated [OF new_eval], folded demo_new_def]

lemmas played_run = conjunct1 [OF evaluated [OF played_eval], folded demo_played_def] conjunct2 [OF evaluated [OF played_eval], folded demo_played_def]

lemma new_game: "game_world training_env [0] demo_new"
  by (rule demo_world [OF new_run(1)]) (simp add: login_events_def MAX_MESSAGE_BUFFER_def c_str_def)

lemma played_game: "game_world training_env [0] demo_played"
  by (rule demo_world [OF played_run(1)]) (simp add: played_events_def login_events_def MAX_MESSAGE_BUFFER_def c_str_def)

theorem unregistered_mode_witness:
  "for_each (ProcessPacket training_env) [EvData 1 (PktCreateRoom 7), EvData 1 PktLoadingStart, EvData 1 PktLoadingComplete] demo_new = None \<and>
   (\<exists>w'. for_each (ProcessPacket training_env) [EvData 1 (PktCreateRoom 7), EvData 1 PktLoadingStart, EvData 1 PktLoadingComplete] demo_played = Some w' \<and>
     m_GameMode (the_room 0 w') = 7 \<and> m_pCurrentGameMode (the_room 0 w') = Some 0)"
proof -
  obtain rest rest' where e: "m_EmptyRoomMap demo_new = (0, 0) # rest" "m_EmptyRoomMap demo_played = (0, 0) # rest'"
    using new_run(2) played_run(2) by auto
  show ?thesis
    using unregistered_mode [OF new_game _ _ _ e(1), of 1 0 7] unregistered_mode [OF played_game _ _ _ e(2), of 1 0 7] new_run(2) played_run(2)
    by (auto simp: Let_def simp del: for_each.simps)
qed

text \<open>C14: The table of logged-in names forgets a user whose name somebody else failed to log in with. In every world the server
  can be in, let user \<open>u\<close> be logged in on one connection and two more clients have asked to log in with the same name: the
  second is refused, but when it disconnects, \<open>DelPlayer\<close> removes the name, which it never owned, and the third client logs
  in; two connected players share the name, and the table has only the later one. Nothing else changes.\<close>

theorem double_login:
  assumes "game_world E modes w" "(s1, p1) \<in> set (PlayerMap w)" "(s2, p2) \<in> set (PlayerMap w)" "(s3, p3) \<in> set (PlayerMap w)" "distinct [s1, s2, s3]"
    and "names w u = Some p1" "m_username (players w p1) = u" "m_username (players w p2) = u" "m_username (players w p3) = u"
    and "m_state (players w p2) = PLAYER_INIT" "m_state (players w p3) = PLAYER_INIT"
  shows "let w' = w\<lparr>sent := sent w @ [(s2, OutLoginFail (- 1)), (s3, OutLoginSuccess)], names := (names w)(u \<mapsto> p3),
      players := (players w)(p2 := (players w p2)\<lparr>m_state := PLAYER_NONE\<rparr>, p3 := (players w p3)\<lparr>m_state := PLAYER_LOGIN\<rparr>),
      pool := pool w @ [p2], PlayerMap := smap_erase s2 (PlayerMap w)\<rparr>
    in for_each (ProcessPacket E) [EvDB s2 0, EvDisconnect s2, EvDB s3 0] w = Some w' \<and>
      p1 \<noteq> p3 \<and> {(s1, p1), (s3, p3)} \<subseteq> set (PlayerMap w') \<and> m_username (players w' p1) = m_username (players w' p3)"
proof -
  note i = game_world_inv(2) [OF assms(1)]
  have ok: "smap_ok (PlayerMap w)" using inv_parts(3) [OF i] by (simp add: people_ok_def core_reads)
  have map: "map_of (PlayerMap w) s1 = Some p1" "map_of (PlayerMap w) s2 = Some p2" "map_of (PlayerMap w) s3 = Some p3"
    using ok assms(2-4) by simp_all
  have ser: "serial_of w p1 = s1" "serial_of w p2 = s2" "serial_of w p3 = s3"
    using connected_player(2) [OF i map(1)] connected_player(2) [OF i map(2)] connected_player(2) [OF i map(3)] by (simp_all add: core_reads)
  then have ne: "p1 \<noteq> p2" "p1 \<noteq> p3" "p3 \<noteq> p2" "p2 \<noteq> p3" using assms(5) by auto
  have rest: "map_of (smap_erase s2 (PlayerMap w)) s3 = Some p3" "{(s1, p1), (s3, p3)} \<subseteq> set (smap_erase s2 (PlayerMap w))"
    using ok assms by (simp_all add: set_smap_erase)
  show ?thesis unfolding Let_def
    using map ser ne rest assms(6-11)
    by (simp add: ProcessPacket_def OnDBResult_def OnDBLogin_def AddPlayer_def OnDisconnectPlayer_def DelPlayer_def pool_Release_def
        move_player_def player_ChangeState_def player_OnLeave_def player_OnEnter_def SendToClient_def upd_player_def fun_upd_twist)
qed

definition names_events :: "event list" where
  "names_events = [EvConnect 1, EvData 1 (PktLogin ''u'' ''x''), EvDB 1 0, EvConnect 2, EvData 2 (PktLogin ''u'' ''y''), EvConnect 3, EvData 3 (PktLogin ''u'' ''z'')]"

definition demo_names :: "unit world" where
  "demo_names = the (demo names_events)"

lemma names_eval: "case demo names_events of None \<Rightarrow> False | Some w \<Rightarrow> PlayerMap w = [(1, 0), (2, 1), (3, 2)] \<and> names w ''u'' = Some 0 \<and>
   m_username (players w 0) = ''u'' \<and> m_username (players w 1) = ''u'' \<and> m_username (players w 2) = ''u'' \<and>
   m_state (players w 1) = PLAYER_INIT \<and> m_state (players w 2) = PLAYER_INIT"
  by (simp add: names_events_def run_evals Let_def del: upt_Suc)

lemmas names_run = conjunct1 [OF evaluated [OF names_eval], folded demo_names_def] conjunct2 [OF evaluated [OF names_eval], folded demo_names_def]

lemma names_game: "game_world training_env [0] demo_names"
  by (rule demo_world [OF names_run(1)]) (simp add: names_events_def MAX_MESSAGE_BUFFER_def c_str_def)

theorem double_login_witness:
  "\<exists>w'. for_each (ProcessPacket training_env) [EvDB 2 0, EvDisconnect 2, EvDB 3 0] demo_names = Some w' \<and>
     m_username (players w' 0) = ''u'' \<and> m_username (players w' 2) = ''u'' \<and> {(1, 0), (3, 2)} \<subseteq> set (PlayerMap w')"
  using double_login [OF names_game, of 1 0 2 1 3 2 "''u''"] names_run(2) by (auto simp: Let_def simp del: for_each.simps)

end
