(* ===== verification/Spec2Isabelle.thy ===== *)
theory Spec2Isabelle
  imports IOBuffer Lzf LzfRoundtrip Packet PacketCodec Reassembly PacketIO RbQuery RbRemove ConhashProps Md5Props BitArrayProps GameProps
begin

text \<open>
  Verification of the core of CGSF, a C/C++ game server framework.
\<close>

end
